(* ===== verification/Barq_Prelude.thy ===== *)
theory Barq_Prelude
  imports Main "HOL-Library.Word"
begin

unbundle bit_operations_syntax

text \<open>
  Shared vocabulary of the development: bytes and blocks of memory, the errors the code can
  raise, results as a sum type with the error on the left, and the generic lemmas on bits,
  lists and results that the component theories use.

  A failed \<^verbatim>\<open>BARQ_ASSERT\<close> (or one of its variants) terminates the process; the model is of the
  build with assertions enabled and gives such a call the result \<open>Inl AssertFailed\<close>.
\<close>

type_synonym u8 = "8 word"
type_synonym u64 = "64 word"
type_synonym mem = "nat \<Rightarrow> u8"

datatype error =
    AssertFailed
  | WrongTransactionState
  | BadAlloc
  | InvalidFreeSpace
  | MaximumFileSizeExceeded
  | OverflowError
  | BadChangesetError string

type_synonym 'a result = "error + 'a"

definition rbind :: "'a result \<Rightarrow> ('a \<Rightarrow> 'b result) \<Rightarrow> 'b result" where
  "rbind r f = (case r of Inl e \<Rightarrow> Inl e | Inr x \<Rightarrow> f x)"

definition rassert :: "bool \<Rightarrow> unit result" where
  "rassert b = (if b then Inr () else Inl AssertFailed)"

named_theorems result_simps "evaluation and inversion of results"

lemma rbind_Inr [simp]: "rbind (Inr x) f = f x"
  by (simp add: rbind_def)

lemma rbind_Inl [simp]: "rbind (Inl e) f = Inl e"
  by (simp add: rbind_def)

lemma rbind_eq_Inr [result_simps]: "rbind r f = Inr y \<longleftrightarrow> (\<exists>x. r = Inr x \<and> f x = Inr y)"
  by (cases r) auto

lemma rassert_eq_Inr [result_simps]: "rassert b = Inr u \<longleftrightarrow> b"
  by (simp add: rassert_def)

lemma rassert_True [simp]: "rassert True = Inr ()"
  by (simp add: rassert_def)

lemma rassert_False [simp]: "rassert False = Inl AssertFailed"
  by (simp add: rassert_def)

lemma rbind_assoc: "rbind (rbind r f) g = rbind r (\<lambda>x. rbind (f x) g)"
  by (cases r) auto

lemma rbind_cong [fundef_cong]:
  "r = r' \<Longrightarrow> (\<And>x. r' = Inr x \<Longrightarrow> f x = f' x) \<Longrightarrow> rbind r f = rbind r' f'"
  by (cases r') auto

subsection \<open>Copying bytes\<close>

text \<open>\<^verbatim>\<open>safe_copy_n\<close> into a different block, and the overlapping copies of \<^verbatim>\<open>std::copy_backward\<close> and
  \<^verbatim>\<open>std::copy\<close> inside one block: the bytes \<open>src ..< src + n\<close> end up at \<open>dst ..< dst + n\<close>.\<close>

definition copy_n :: "mem \<Rightarrow> nat \<Rightarrow> mem \<Rightarrow> mem" where
  "copy_n src n dst = (\<lambda>i. if i < n then src i else dst i)"

definition memmove :: "mem \<Rightarrow> nat \<Rightarrow> nat \<Rightarrow> nat \<Rightarrow> mem" where
  "memmove d src n dst = (\<lambda>i. if dst \<le> i \<and> i < dst + n then d (i - dst + src) else d i)"

subsection \<open>Bits\<close>

lemma bit_nat_less: "k < 2 ^ m \<Longrightarrow> bit (k :: nat) n \<Longrightarrow> n < m"
  using bit_take_bit_iff [of m k n] by (simp add: take_bit_nat_eq_self)

lemma bit_int_less: "0 \<le> k \<Longrightarrow> k < 2 ^ m \<Longrightarrow> bit (k :: int) n \<Longrightarrow> n < m"
  using bit_take_bit_iff [of m k n] by (simp add: take_bit_int_eq_self)

subsection \<open>Rounding up to a multiple of eight\<close>

definition round_up8 :: "nat \<Rightarrow> nat" where
  "round_up8 n = push_bit 3 (drop_bit 3 (n + 7))"

lemma round_up8_div: "round_up8 n = (n + 7) div 8 * 8"
  by (simp add: round_up8_def push_bit_eq_mult drop_bit_eq_div)

lemma round_up8_ge: "n \<le> round_up8 n"
  unfolding round_up8_div by presburger

lemma round_up8_lt: "round_up8 n < n + 8"
  unfolding round_up8_div by presburger

lemma round_up8_dvd [simp]: "round_up8 n mod 8 = 0"
  by (simp add: round_up8_div)

lemma round_up8_mono: "m \<le> n \<Longrightarrow> round_up8 m \<le> round_up8 n"
  unfolding round_up8_div by (simp add: div_le_mono)

lemma round_up8_id: "n mod 8 = 0 \<Longrightarrow> round_up8 n = n"
  unfolding round_up8_div by presburger

subsection \<open>Lists\<close>

definition list_insert :: "nat \<Rightarrow> 'a \<Rightarrow> 'a list \<Rightarrow> 'a list" where
  "list_insert i x xs = take i xs @ x # drop i xs"

definition list_erase :: "nat \<Rightarrow> nat \<Rightarrow> 'a list \<Rightarrow> 'a list" where
  "list_erase b e xs = take b xs @ drop e xs"

lemma length_list_insert [simp]: "length (list_insert i x xs) = Suc (length xs)"
  by (simp add: list_insert_def)

lemma length_list_erase: "b \<le> e \<Longrightarrow> e \<le> length xs \<Longrightarrow>
    length (list_erase b e xs) = length xs - (e - b)"
  by (simp add: list_erase_def)

lemma nth_list_insert: "i \<le> length xs \<Longrightarrow> k \<le> length xs \<Longrightarrow>
    list_insert i x xs ! k = (if k < i then xs ! k else if k = i then x else xs ! (k - 1))"
  by (cases "k - i") (auto simp: list_insert_def nth_append min_def
      dest: arg_cong [where f = "\<lambda>j. i + j"])

lemma nth_list_erase: "b \<le> e \<Longrightarrow> e \<le> length xs \<Longrightarrow> k < length xs - (e - b) \<Longrightarrow>
    list_erase b e xs ! k = (if k < b then xs ! k else xs ! (k + (e - b)))"
  by (auto simp: list_erase_def nth_append min_def add.commute)

end
