(* ===== verification/Node_Header.thy ===== *)
theory Node_Header
  imports Barq_Prelude
begin

unbundle bit_operations_syntax

text \<open>
  The eight byte header in front of every node (\<^verbatim>\<open>src/barq/node_header.hpp\<close>, class \<open>NodeHeader\<close>):
  three bytes of capacity, one reserved byte, one byte of flags, width scheme and width, and
  three bytes of size. A header is the first eight bytes of a block of memory, and a setter
  returns the changed block. The lemmas show that every field reads back what its setter
  wrote, that a setter leaves the other fields alone, and that the byte size the header
  promises is large enough for the elements it describes.
\<close>

definition max_array_size :: nat where
  "max_array_size = 0x00ffffff"

definition max_array_payload_aligned :: nat where
  "max_array_payload_aligned = 0x07ffffc0"

definition header_size :: nat where
  "header_size = 8"

datatype node_type = type_Normal | type_InnerBptreeNode | type_HasRefs

text \<open>The two bit field can hold a fourth pattern that the source gives no name.\<close>

datatype width_type = wtype_Bits | wtype_Multiply | wtype_Ignore | wtype_Unnamed

definition get_data_from_header :: "mem \<Rightarrow> mem" where
  "get_data_from_header h = (\<lambda>i. h (i + header_size))"

text \<open>Storing through \<^verbatim>\<open>m_data\<close>: the block whose bytes behind the header are \<open>d\<close>.\<close>

definition with_data :: "mem \<Rightarrow> mem \<Rightarrow> mem" where
  "with_data h d = (\<lambda>i. if i < header_size then h i else d (i - header_size))"

subsection \<open>Reading the fields\<close>

definition get_is_inner_bptree_node_from_header :: "mem \<Rightarrow> bool" where
  "get_is_inner_bptree_node_from_header h \<longleftrightarrow> h 4 AND 0x80 \<noteq> 0"

definition get_hasrefs_from_header :: "mem \<Rightarrow> bool" where
  "get_hasrefs_from_header h \<longleftrightarrow> h 4 AND 0x40 \<noteq> 0"

definition get_context_flag_from_header :: "mem \<Rightarrow> bool" where
  "get_context_flag_from_header h \<longleftrightarrow> h 4 AND 0x20 \<noteq> 0"

definition width_type_of_nat :: "nat \<Rightarrow> width_type" where
  "width_type_of_nat n =
     (if n = 0 then wtype_Bits else if n = 1 then wtype_Multiply
      else if n = 2 then wtype_Ignore else wtype_Unnamed)"

definition get_wtype_from_header :: "mem \<Rightarrow> width_type" where
  "get_wtype_from_header h = width_type_of_nat (unat (drop_bit 3 (h 4 AND 0x18)))"

definition get_width_from_header :: "mem \<Rightarrow> nat" where
  "get_width_from_header h = drop_bit 1 (push_bit (unat (h 4 AND 0x07)) 1)"

definition get_size_from_header :: "mem \<Rightarrow> nat" where
  "get_size_from_header h = push_bit 16 (unat (h 5)) + push_bit 8 (unat (h 6)) + unat (h 7)"

definition get_capacity_from_header :: "mem \<Rightarrow> nat" where
  "get_capacity_from_header h =
     push_bit 19 (unat (h 0)) + push_bit 11 (unat (h 1)) + push_bit 3 (unat (h 2))"

definition get_type_from_header :: "mem \<Rightarrow> node_type" where
  "get_type_from_header h =
     (if get_is_inner_bptree_node_from_header h then type_InnerBptreeNode
      else if get_hasrefs_from_header h then type_HasRefs
      else type_Normal)"

subsection \<open>Writing the fields\<close>

definition set_is_inner_bptree_node_in_header :: "bool \<Rightarrow> mem \<Rightarrow> mem" where
  "set_is_inner_bptree_node_in_header v h =
     h(4 := (h 4 AND NOT 0x80) OR push_bit 7 (of_bool v))"

definition set_hasrefs_in_header :: "bool \<Rightarrow> mem \<Rightarrow> mem" where
  "set_hasrefs_in_header v h = h(4 := (h 4 AND NOT 0x40) OR push_bit 6 (of_bool v))"

definition set_context_flag_in_header :: "bool \<Rightarrow> mem \<Rightarrow> mem" where
  "set_context_flag_in_header v h = h(4 := (h 4 AND NOT 0x20) OR push_bit 5 (of_bool v))"

definition nat_of_width_type :: "width_type \<Rightarrow> nat" where
  "nat_of_width_type w = (case w of wtype_Bits \<Rightarrow> 0 | wtype_Multiply \<Rightarrow> 1
     | wtype_Ignore \<Rightarrow> 2 | wtype_Unnamed \<Rightarrow> 3)"

definition set_wtype_in_header :: "width_type \<Rightarrow> mem \<Rightarrow> mem" where
  "set_wtype_in_header v h =
     h(4 := (h 4 AND NOT 0x18) OR push_bit 3 (of_nat (nat_of_width_type v)))"

text \<open>The loop that counts how often the width can be halved.\<close>

fun width_ndx :: "nat \<Rightarrow> nat" where
  "width_ndx v = (if v = 0 then 0 else Suc (width_ndx (v div 2)))"

declare width_ndx.simps [simp del]

definition set_width_in_header :: "nat \<Rightarrow> mem \<Rightarrow> mem result" where
  "set_width_in_header v h =
     (let w = width_ndx v
      in rbind (rassert (w < 8)) (\<lambda>_. Inr (h(4 := (h 4 AND NOT 0x7) OR of_nat w))))"

definition set_size_in_header :: "nat \<Rightarrow> mem \<Rightarrow> mem result" where
  "set_size_in_header v h =
     rbind (rassert (v \<le> max_array_size))
       (\<lambda>_. Inr (h(5 := of_nat (drop_bit 16 v), 6 := of_nat (drop_bit 8 v), 7 := of_nat v)))"

definition set_capacity_in_header :: "nat \<Rightarrow> mem \<Rightarrow> mem result" where
  "set_capacity_in_header v h =
     rbind (rassert (v \<le> push_bit 3 0xffffff))
       (\<lambda>_. Inr (h(0 := of_nat (drop_bit 19 v), 1 := of_nat (drop_bit 11 v),
                    2 := of_nat (drop_bit 3 v))))"

subsection \<open>The number of bytes a node occupies\<close>

definition calc_byte_size :: "width_type \<Rightarrow> nat \<Rightarrow> nat \<Rightarrow> nat result" where
  "calc_byte_size wtype sz width =
     rbind (case wtype of
              wtype_Bits \<Rightarrow> rbind (rassert (sz < 0x1000000)) (\<lambda>_. Inr (drop_bit 3 (sz * width + 7)))
            | wtype_Multiply \<Rightarrow> Inr (sz * width)
            | wtype_Ignore \<Rightarrow> Inr sz
            | wtype_Unnamed \<Rightarrow> Inr 0)
       (\<lambda>num_bytes. Inr (round_up8 num_bytes + header_size))"

definition get_byte_size_from_header :: "mem \<Rightarrow> nat result" where
  "get_byte_size_from_header h =
     calc_byte_size (get_wtype_from_header h) (get_size_from_header h) (get_width_from_header h)"

text \<open>\<^verbatim>\<open>Node::init_header\<close> (\<^verbatim>\<open>src/barq/node.hpp\<close>): clear the header, then write every field.\<close>

definition init_header ::
  "mem \<Rightarrow> bool \<Rightarrow> bool \<Rightarrow> bool \<Rightarrow> width_type \<Rightarrow> nat \<Rightarrow> nat \<Rightarrow> nat \<Rightarrow> mem result" where
  "init_header h is_inner has_refs context_flag width_type width sz capacity =
     (let h0 = (\<lambda>i. if i < header_size then 0 else h i);
          h1 = set_is_inner_bptree_node_in_header is_inner h0;
          h2 = set_hasrefs_in_header has_refs h1;
          h3 = set_context_flag_in_header context_flag h2;
          h4 = set_wtype_in_header width_type h3
      in rbind (set_width_in_header width h4) (\<lambda>h5.
         rbind (set_size_in_header sz h5) (\<lambda>h6.
         set_capacity_in_header capacity h6)))"

subsection \<open>Every field reads back what was written\<close>

definition valid_width :: "nat \<Rightarrow> bool" where
  "valid_width w \<longleftrightarrow> w \<in> {0, 1, 2, 4, 8, 16, 32, 64}"

text \<open>The fields of the flag byte as bits.\<close>

lemma flag_masks:
  "(0x80 :: u8) = push_bit 7 1" "(0x40 :: u8) = push_bit 6 1" "(0x20 :: u8) = push_bit 5 1"
  "(0x18 :: u8) = push_bit 3 (mask 2)" "(0x7 :: u8) = mask 3"
  by (simp_all add: mask_eq_exp_minus_1)

lemma get_flags_bit:
  "get_is_inner_bptree_node_from_header h \<longleftrightarrow> bit (h 4) 7"
  "get_hasrefs_from_header h \<longleftrightarrow> bit (h 4) 6"
  "get_context_flag_from_header h \<longleftrightarrow> bit (h 4) 5"
  using and_exp_eq_0_iff_not_bit [of "h 4" 7] and_exp_eq_0_iff_not_bit [of "h 4" 6]
    and_exp_eq_0_iff_not_bit [of "h 4" 5]
  by (simp_all add: get_is_inner_bptree_node_from_header_def get_hasrefs_from_header_def
      get_context_flag_from_header_def)

definition wtype_bits :: "u8 \<Rightarrow> u8" where
  "wtype_bits b = take_bit 2 (drop_bit 3 b)"

definition width_bits :: "u8 \<Rightarrow> u8" where
  "width_bits b = take_bit 3 b"

lemma get_wtype_bits: "get_wtype_from_header h = width_type_of_nat (unat (wtype_bits (h 4)))"
proof -
  have "drop_bit 3 (h 4 AND 0x18) = wtype_bits (h 4)"
    unfolding flag_masks wtype_bits_def
    by (rule bit_word_eqI) (auto simp: bit_simps)
  then show ?thesis by (simp add: get_wtype_from_header_def)
qed

lemma get_width_bits: "get_width_from_header h = drop_bit 1 (push_bit (unat (width_bits (h 4))) 1)"
proof -
  have "h 4 AND 0x7 = width_bits (h 4)"
    unfolding flag_masks width_bits_def by (simp add: take_bit_eq_mask)
  then show ?thesis by (simp add: get_width_from_header_def)
qed

named_theorems header_simps "reading a header field after writing one"

lemma bit_set_field:
  fixes b :: u8
  assumes "n < 8" "k < 8"
  shows "bit ((b AND NOT (push_bit k 1)) OR push_bit k (of_bool v)) n \<longleftrightarrow> (if n = k then v else bit b n)"
  using assms by (simp add: bit_or_iff bit_and_iff bit_not_iff bit_push_bit_iff bit_of_bool_iff bit_exp_iff) auto

lemma set_flag_bits:
  fixes b :: u8
  assumes "n < 8"
  shows "bit ((b AND NOT 0x80) OR push_bit 7 (of_bool v)) n \<longleftrightarrow> (if n = 7 then v else bit b n)"
    "bit ((b AND NOT 0x40) OR push_bit 6 (of_bool v)) n \<longleftrightarrow> (if n = 6 then v else bit b n)"
    "bit ((b AND NOT 0x20) OR push_bit 5 (of_bool v)) n \<longleftrightarrow> (if n = 5 then v else bit b n)"
  unfolding flag_masks by (rule bit_set_field [OF assms]; simp)+

lemma get_wtype_cong:
  assumes "\<And>n. n = 3 \<or> n = 4 \<Longrightarrow> bit (h 4) n = bit (h' 4) n"
  shows "get_wtype_from_header h = get_wtype_from_header h'"
proof -
  have "wtype_bits (h 4) = wtype_bits (h' 4)"
    unfolding wtype_bits_def
    by (rule bit_word_eqI) (auto simp: bit_simps less_2_cases_iff assms)
  then show ?thesis by (simp add: get_wtype_bits)
qed

lemma get_width_cong:
  assumes "\<And>n. n < 3 \<Longrightarrow> bit (h 4) n = bit (h' 4) n"
  shows "get_width_from_header h = get_width_from_header h'"
proof -
  have "width_bits (h 4) = width_bits (h' 4)"
    unfolding width_bits_def by (rule bit_word_eqI) (auto simp: bit_simps assms)
  then show ?thesis by (simp add: get_width_bits)
qed

lemma get_size_cong:
  "h 5 = h' 5 \<Longrightarrow> h 6 = h' 6 \<Longrightarrow> h 7 = h' 7 \<Longrightarrow> get_size_from_header h = get_size_from_header h'"
  by (simp add: get_size_from_header_def)

lemma get_capacity_cong:
  "h 0 = h' 0 \<Longrightarrow> h 1 = h' 1 \<Longrightarrow> h 2 = h' 2 \<Longrightarrow>
   get_capacity_from_header h = get_capacity_from_header h'"
  by (simp add: get_capacity_from_header_def)

lemmas header_congs = get_wtype_cong get_width_cong get_size_cong get_capacity_cong


lemma flag_byte_fields:
  assumes b: "\<And>n. n < 8 \<Longrightarrow> bit b n = (if n = k then v else bit (h 4) n)" and k: "5 \<le> k" "k < 8"
  shows "get_is_inner_bptree_node_from_header (h(4 := b)) =
      (if k = 7 then v else get_is_inner_bptree_node_from_header h)"
    "get_hasrefs_from_header (h(4 := b)) = (if k = 6 then v else get_hasrefs_from_header h)"
    "get_context_flag_from_header (h(4 := b)) = (if k = 5 then v else get_context_flag_from_header h)"
    "get_wtype_from_header (h(4 := b)) = get_wtype_from_header h"
    "get_width_from_header (h(4 := b)) = get_width_from_header h"
    "get_size_from_header (h(4 := b)) = get_size_from_header h"
    "get_capacity_from_header (h(4 := b)) = get_capacity_from_header h"
proof -
  show "get_wtype_from_header (h(4 := b)) = get_wtype_from_header h"
    by (rule get_wtype_cong) (use b k in auto)
  show "get_width_from_header (h(4 := b)) = get_width_from_header h"
    by (rule get_width_cong) (use b k in auto)
qed (use b k in \<open>auto simp: get_flags_bit get_size_from_header_def get_capacity_from_header_def\<close>)

lemmas set_inner_fields [folded set_is_inner_bptree_node_in_header_def, simplified, header_simps] =
  flag_byte_fields [of "(h 4 AND NOT 0x80) OR push_bit 7 (of_bool v)" 7 v h for h v,
    OF set_flag_bits(1)]

lemmas set_hasrefs_fields [folded set_hasrefs_in_header_def, simplified, header_simps] =
  flag_byte_fields [of "(h 4 AND NOT 0x40) OR push_bit 6 (of_bool v)" 6 v h for h v,
    OF set_flag_bits(2)]

lemmas set_context_flag_fields [folded set_context_flag_in_header_def, simplified, header_simps] =
  flag_byte_fields [of "(h 4 AND NOT 0x20) OR push_bit 5 (of_bool v)" 5 v h for h v,
    OF set_flag_bits(3)]

lemma bit_set_wtype:
  fixes b :: u8
  assumes "n < 8" "k < 4"
  shows "bit ((b AND NOT 0x18) OR push_bit 3 (of_nat k)) n \<longleftrightarrow>
    (if n = 3 \<or> n = 4 then bit k (n - 3) else bit b n)"
  unfolding flag_masks using assms bit_nat_less [of k 2 "n - 3"]
  by (auto simp: bit_simps)

lemma bit_set_width:
  fixes b :: u8
  assumes "n < 8" "w < 8"
  shows "bit ((b AND NOT 0x7) OR of_nat w) n \<longleftrightarrow> (if n < 3 then bit w n else bit b n)"
  unfolding flag_masks using assms bit_nat_less [of w 3 n]
  by (auto simp: bit_simps)

lemma set_wtype_fields [header_simps]:
  "get_is_inner_bptree_node_from_header (set_wtype_in_header v h) = get_is_inner_bptree_node_from_header h"
  "get_hasrefs_from_header (set_wtype_in_header v h) = get_hasrefs_from_header h"
  "get_context_flag_from_header (set_wtype_in_header v h) = get_context_flag_from_header h"
  "get_wtype_from_header (set_wtype_in_header v h) = v"
  "get_width_from_header (set_wtype_in_header v h) = get_width_from_header h"
  "get_size_from_header (set_wtype_in_header v h) = get_size_from_header h"
  "get_capacity_from_header (set_wtype_in_header v h) = get_capacity_from_header h"
proof -
  define k where "k = nat_of_width_type v"
  have k: "k < 4" by (auto simp: k_def nat_of_width_type_def split: width_type.split)
  define b where "b = (h 4 AND NOT 0x18) OR push_bit 3 (of_nat k)"
  have b: "bit b n = (if n = 3 \<or> n = 4 then bit k (n - 3) else bit (h 4) n)" if "n < 8" for n
    using bit_set_wtype [OF that k] by (simp add: b_def)
  have upd: "set_wtype_in_header v h = h(4 := b)"
    by (simp add: set_wtype_in_header_def b_def k_def)
  have k2: "m = 0 \<or> m = Suc 0" if "bit k m" for m
    using bit_nat_less [of k 2 m] k that by (simp add: less_2_cases_iff)
  have "wtype_bits b = of_nat k"
    unfolding wtype_bits_def
    by (rule bit_word_eqI) (auto simp: bit_simps b less_2_cases_iff, (frule k2, auto simp: b)+)
  then have "get_wtype_from_header (h(4 := b)) = width_type_of_nat k"
    using k by (simp add: get_wtype_bits unat_of_nat)
  then show "get_wtype_from_header (set_wtype_in_header v h) = v"
    by (auto simp: upd k_def nat_of_width_type_def width_type_of_nat_def split: width_type.split)
  show "get_width_from_header (set_wtype_in_header v h) = get_width_from_header h"
    unfolding upd by (rule get_width_cong) (auto simp: b)
  show "get_is_inner_bptree_node_from_header (set_wtype_in_header v h) =
      get_is_inner_bptree_node_from_header h"
    "get_hasrefs_from_header (set_wtype_in_header v h) = get_hasrefs_from_header h"
    "get_context_flag_from_header (set_wtype_in_header v h) = get_context_flag_from_header h"
    "get_size_from_header (set_wtype_in_header v h) = get_size_from_header h"
    "get_capacity_from_header (set_wtype_in_header v h) = get_capacity_from_header h"
    unfolding upd
    by (simp_all add: get_flags_bit b get_size_from_header_def get_capacity_from_header_def)
qed

lemma width_ndx_step: "width_ndx 0 = 0" "0 < v \<Longrightarrow> width_ndx v = Suc (width_ndx (v div 2))"
  by (subst width_ndx.simps, simp)+

lemma width_ndx_valid:
  "valid_width w \<Longrightarrow> width_ndx w < 8 \<and> drop_bit 1 (push_bit (width_ndx w) (1 :: nat)) = w"
  unfolding valid_width_def by (auto simp: width_ndx_step)

lemma set_width_fields:
  assumes "set_width_in_header w h = Inr h'"
  shows "get_is_inner_bptree_node_from_header h' = get_is_inner_bptree_node_from_header h"
    "get_hasrefs_from_header h' = get_hasrefs_from_header h"
    "get_context_flag_from_header h' = get_context_flag_from_header h"
    "get_wtype_from_header h' = get_wtype_from_header h"
    "get_width_from_header h' = drop_bit 1 (push_bit (width_ndx w) 1)"
    "get_size_from_header h' = get_size_from_header h"
    "get_capacity_from_header h' = get_capacity_from_header h"
    "get_data_from_header h' = get_data_from_header h"
proof -
  define k where "k = width_ndx w"
  define b where "b = (h 4 AND NOT 0x7) OR of_nat k"
  have k: "k < 8" and upd: "h' = h(4 := b)"
    using assms by (auto simp: set_width_in_header_def Let_def k_def b_def result_simps)
  have b: "bit b n = (if n < 3 then bit k n else bit (h 4) n)" if "n < 8" for n
    using bit_set_width [OF that k] by (simp add: b_def)
  have k3: "m < 3" if "bit k m" for m
    using bit_nat_less [of k 3 m] k that by simp
  have "width_bits b = of_nat k"
    unfolding width_bits_def by (rule bit_word_eqI) (auto simp: bit_simps b dest: k3)
  then show "get_width_from_header h' = drop_bit 1 (push_bit (width_ndx w) 1)"
    using k by (simp add: upd get_width_bits unat_of_nat k_def)
  show "get_wtype_from_header h' = get_wtype_from_header h"
    unfolding upd by (rule get_wtype_cong) (auto simp: b)
  show "get_is_inner_bptree_node_from_header h' = get_is_inner_bptree_node_from_header h"
    "get_hasrefs_from_header h' = get_hasrefs_from_header h"
    "get_context_flag_from_header h' = get_context_flag_from_header h"
    "get_size_from_header h' = get_size_from_header h"
    "get_capacity_from_header h' = get_capacity_from_header h"
    "get_data_from_header h' = get_data_from_header h"
    unfolding upd by (simp_all add: get_flags_bit b get_size_from_header_def
        get_capacity_from_header_def get_data_from_header_def header_size_def fun_eq_iff)
qed

lemma three_bytes:
  fixes v :: nat
  assumes "v < 2 ^ 24"
  shows "v div 65536 mod 256 * 65536 + v div 256 mod 256 * 256 + v mod 256 = v"
proof -
  have "v div 65536 mod 256 = v div 65536"
    using assms by (intro mod_less) (simp add: less_mult_imp_div_less)
  moreover have "v div 65536 = v div 256 div 256" by (simp add: div_mult2_eq [symmetric])
  ultimately have "v div 65536 mod 256 * 65536 + v div 256 mod 256 * 256 =
      (v div 256 div 256 * 256 + v div 256 mod 256) * 256" by (simp only: distrib_right mult.assoc)
  also have "\<dots> = v div 256 * 256" by (simp only: div_mult_mod_eq)
  finally show ?thesis by (simp only: div_mult_mod_eq)
qed

lemma set_size_fields:
  assumes "set_size_in_header v h = Inr h'"
  shows "get_is_inner_bptree_node_from_header h' = get_is_inner_bptree_node_from_header h"
    "get_hasrefs_from_header h' = get_hasrefs_from_header h"
    "get_context_flag_from_header h' = get_context_flag_from_header h"
    "get_wtype_from_header h' = get_wtype_from_header h"
    "get_width_from_header h' = get_width_from_header h"
    "get_size_from_header h' = v"
    "get_capacity_from_header h' = get_capacity_from_header h"
    "get_data_from_header h' = get_data_from_header h"
proof -
  have v: "v \<le> max_array_size"
    and upd: "h' = h(5 := of_nat (drop_bit 16 v), 6 := of_nat (drop_bit 8 v), 7 := of_nat v)"
    using assms by (auto simp: set_size_in_header_def result_simps)
  show "get_size_from_header h' = v"
    using v three_bytes [of v] unfolding upd
    by (simp add: get_size_from_header_def unat_of_nat drop_bit_eq_div push_bit_eq_mult max_array_size_def)
qed (use assms in \<open>auto simp: set_size_in_header_def result_simps get_flags_bit get_wtype_bits
    get_width_bits get_capacity_from_header_def get_data_from_header_def header_size_def\<close>)

lemma set_capacity_fields:
  assumes "set_capacity_in_header v h = Inr h'" and "v mod 8 = 0"
  shows "get_is_inner_bptree_node_from_header h' = get_is_inner_bptree_node_from_header h"
    "get_hasrefs_from_header h' = get_hasrefs_from_header h"
    "get_context_flag_from_header h' = get_context_flag_from_header h"
    "get_wtype_from_header h' = get_wtype_from_header h"
    "get_width_from_header h' = get_width_from_header h"
    "get_size_from_header h' = get_size_from_header h"
    "get_capacity_from_header h' = v"
    "get_data_from_header h' = get_data_from_header h"
proof -
  have v: "v \<le> 0x7fffff8" and upd: "h' = h(0 := of_nat (drop_bit 19 v), 1 := of_nat (drop_bit 11 v),
      2 := of_nat (drop_bit 3 v))"
    using assms by (auto simp: set_capacity_in_header_def result_simps)
  obtain u where u: "v = 8 * u" using assms(2) by auto
  have "v div 524288 = u div 65536" "v div 2048 = u div 256" "v div 8 = u" "u < 2 ^ 24"
    using u v by (simp_all add: div_mult2_eq [of "8 * u" 8 65536, simplified]
        div_mult2_eq [of "8 * u" 8 256, simplified])
  then show "get_capacity_from_header h' = v"
    using three_bytes [of u] u unfolding upd
    by (simp add: get_capacity_from_header_def unat_of_nat drop_bit_eq_div push_bit_eq_mult)
qed (use assms in \<open>auto simp: set_capacity_in_header_def result_simps get_flags_bit get_wtype_bits
    get_width_bits get_size_from_header_def get_data_from_header_def header_size_def\<close>)

subsection \<open>A fresh header\<close>

lemma set_data_frame [header_simps]:
  "get_data_from_header (set_is_inner_bptree_node_in_header v h) = get_data_from_header h"
  "get_data_from_header (set_hasrefs_in_header v h) = get_data_from_header h"
  "get_data_from_header (set_context_flag_in_header v h) = get_data_from_header h"
  "get_data_from_header (set_wtype_in_header u h) = get_data_from_header h"
  by (simp_all add: get_data_from_header_def header_size_def set_is_inner_bptree_node_in_header_def
      set_hasrefs_in_header_def set_context_flag_in_header_def set_wtype_in_header_def fun_eq_iff)

lemma init_header_fields:
  assumes "init_header h inner refs ctx wt w sz cap = Inr h'" "valid_width w" "cap mod 8 = 0"
  shows "get_is_inner_bptree_node_from_header h' = inner" "get_hasrefs_from_header h' = refs"
    "get_context_flag_from_header h' = ctx" "get_wtype_from_header h' = wt"
    "get_width_from_header h' = w" "get_size_from_header h' = sz"
    "get_capacity_from_header h' = cap" "get_data_from_header h' = get_data_from_header h"
proof -
  define h4 where "h4 = set_wtype_in_header wt (set_context_flag_in_header ctx
    (set_hasrefs_in_header refs (set_is_inner_bptree_node_in_header inner
      (\<lambda>i. if i < header_size then 0 else h i))))"
  obtain h5 h6 where h5: "set_width_in_header w h4 = Inr h5" and h6: "set_size_in_header sz h5 = Inr h6"
    and h': "set_capacity_in_header cap h6 = Inr h'"
    using assms(1) by (auto simp: init_header_def Let_def result_simps h4_def)
  have d: "get_data_from_header (\<lambda>i. if i < header_size then 0 else h i) = get_data_from_header h"
    by (simp add: get_data_from_header_def)
  note fields = set_capacity_fields [OF h' assms(3)] set_size_fields [OF h6] set_width_fields [OF h5]
  show "get_is_inner_bptree_node_from_header h' = inner" "get_hasrefs_from_header h' = refs"
    "get_context_flag_from_header h' = ctx" "get_wtype_from_header h' = wt"
    "get_width_from_header h' = w" "get_size_from_header h' = sz"
    "get_capacity_from_header h' = cap" "get_data_from_header h' = get_data_from_header h"
    using width_ndx_valid [OF assms(2)] by (simp_all add: fields h4_def header_simps d)
qed

lemma init_header_ok:
  assumes "valid_width w" "sz \<le> max_array_size" "cap \<le> 0x7fffff8"
  shows "\<exists>h'. init_header h inner refs ctx wt w sz cap = Inr h'"
  using assms width_ndx_valid [OF assms(1)]
  by (simp add: init_header_def Let_def set_width_in_header_def set_size_in_header_def
      set_capacity_in_header_def)

subsection \<open>Byte sizes\<close>

lemma calc_byte_size_bits:
  "calc_byte_size wtype_Bits sz w =
     (if sz < 0x1000000 then Inr (round_up8 ((sz * w + 7) div 8) + 8) else Inl AssertFailed)"
  by (simp add: calc_byte_size_def header_size_def drop_bit_eq_div)

lemma calc_byte_size_ge:
  "calc_byte_size wtype_Bits sz w = Inr n \<Longrightarrow> 8 * header_size + sz * w \<le> 8 * n"
  using round_up8_ge [of "(sz * w + 7) div 8"]
  by (auto simp: calc_byte_size_bits header_size_def split: if_splits)

lemma calc_byte_size_mod8: "calc_byte_size wt sz w = Inr n \<Longrightarrow> n mod 8 = 0"
  by (auto simp: calc_byte_size_def header_size_def result_simps mod_add_eq [symmetric])

lemma get_width_from_header_valid: "valid_width (get_width_from_header h)"
proof -
  have "unat (width_bits (h 4)) < 8"
    unfolding width_bits_def by (simp only: unsigned_take_bit_eq) (simp add: take_bit_eq_mod)
  then have "unat (width_bits (h 4)) \<in> {0, 1, 2, 3, 4, 5, 6, 7}"
    by (simp only: insert_iff empty_iff) linarith
  then show ?thesis by (auto simp: get_width_bits valid_width_def)
qed

lemma with_data_simps [header_simps]:
  "get_data_from_header (with_data h d) = d"
  "with_data h d i = (if i < 8 then h i else d (i - 8))"
  by (auto simp: get_data_from_header_def with_data_def header_size_def fun_eq_iff)

lemma with_data_fields [header_simps]:
  "get_is_inner_bptree_node_from_header (with_data h d) = get_is_inner_bptree_node_from_header h"
  "get_hasrefs_from_header (with_data h d) = get_hasrefs_from_header h"
  "get_context_flag_from_header (with_data h d) = get_context_flag_from_header h"
  "get_wtype_from_header (with_data h d) = get_wtype_from_header h"
  "get_width_from_header (with_data h d) = get_width_from_header h"
  "get_size_from_header (with_data h d) = get_size_from_header h"
  "get_capacity_from_header (with_data h d) = get_capacity_from_header h"
  by (simp_all add: get_flags_bit get_wtype_bits get_width_bits get_size_from_header_def
      get_capacity_from_header_def with_data_simps)

text \<open>The part of a header that no change of size, width or capacity touches.\<close>

definition header_kind :: "mem \<Rightarrow> bool \<times> bool \<times> bool \<times> width_type" where
  "header_kind h = (get_is_inner_bptree_node_from_header h, get_hasrefs_from_header h,
     get_context_flag_from_header h, get_wtype_from_header h)"

lemma header_kind_wtype: "header_kind h = header_kind h' \<Longrightarrow> get_wtype_from_header h = get_wtype_from_header h'"
  by (simp add: header_kind_def)

lemma header_bytes_cong:
  assumes "\<And>i. i < 8 \<Longrightarrow> h i = h' i"
  shows "header_kind h = header_kind h'" "get_width_from_header h = get_width_from_header h'"
    "get_size_from_header h = get_size_from_header h'"
    "get_capacity_from_header h = get_capacity_from_header h'"
  by (simp_all add: header_kind_def get_flags_bit get_wtype_bits get_width_bits
      get_size_from_header_def get_capacity_from_header_def assms)

lemma set_capacity_kind:
  assumes "set_capacity_in_header v h = Inr h'" "v mod 8 = 0"
  shows "header_kind h' = header_kind h"
  using set_capacity_fields [OF assms] by (simp add: header_kind_def)

lemma set_width_kind: "set_width_in_header w h = Inr h' \<Longrightarrow> header_kind h' = header_kind h"
  by (simp add: header_kind_def set_width_fields)

lemma set_size_kind: "set_size_in_header n h = Inr h' \<Longrightarrow> header_kind h' = header_kind h"
  by (simp add: header_kind_def set_size_fields)

lemma with_data_kind [header_simps]: "header_kind (with_data h d) = header_kind h"
  by (simp add: header_kind_def header_simps)

lemma unat_byte_less: "unat (b :: u8) < 256"
  using unsigned_less [of b] by simp

lemma get_size_from_header_less: "get_size_from_header h < 2 ^ 24"
  using unat_byte_less [of "h 5"] unat_byte_less [of "h 6"] unat_byte_less [of "h 7"]
  by (simp add: get_size_from_header_def push_bit_eq_mult)

subsection \<open>Properties\<close>

text \<open>C11: \<open>Node::init_header\<close> succeeds for every size and capacity the header can hold, every field then reads
  back what was written, and the payload after the header is untouched.\<close>

theorem init_header_roundtrip:
  assumes "valid_width w" "sz \<le> max_array_size" "cap \<le> 0x7fffff8" "cap mod 8 = 0"
  shows "\<exists>h'. init_header h inner refs ctx wt w sz cap = Inr h' \<and>
    get_is_inner_bptree_node_from_header h' = inner \<and> get_hasrefs_from_header h' = refs \<and>
    get_context_flag_from_header h' = ctx \<and> get_wtype_from_header h' = wt \<and>
    get_width_from_header h' = w \<and> get_size_from_header h' = sz \<and>
    get_capacity_from_header h' = cap \<and> get_data_from_header h' = get_data_from_header h"
proof -
  obtain h' where h': "init_header h inner refs ctx wt w sz cap = Inr h'"
    using init_header_ok [OF assms(1-3)] by blast
  show ?thesis using h' init_header_fields [OF h' assms(1,4)] by (intro exI [of _ h']) simp
qed

theorem init_header_roundtrip_witness:
  "\<exists>h'. init_header (\<lambda>_. 255) True True False wtype_Bits 16 1000 2008 = Inr h' \<and>
    get_width_from_header h' = 16 \<and> get_size_from_header h' = 1000 \<and> get_capacity_from_header h' = 2008"
  using init_header_roundtrip [of 16 1000 2008 "\<lambda>_. 255" True True False wtype_Bits]
  by (auto simp: valid_width_def max_array_size_def)

text \<open>C12: a header setter changes its own field only: writing size, width or capacity leaves every other field and
  the payload as they were.\<close>

theorem header_setters_independent:
  assumes "set_size_in_header sz h = Inr h1" "set_width_in_header w h1 = Inr h2"
    "set_capacity_in_header cap h2 = Inr h3" "valid_width w" "cap mod 8 = 0"
  shows "get_size_from_header h3 = sz \<and> get_width_from_header h3 = w \<and> get_capacity_from_header h3 = cap \<and>
    header_kind h3 = header_kind h \<and> get_data_from_header h3 = get_data_from_header h"
  using set_size_fields [OF assms(1)] set_width_fields [OF assms(2)] set_capacity_fields [OF assms(3,5)]
    set_size_kind [OF assms(1)] set_width_kind [OF assms(2)] set_capacity_kind [OF assms(3,5)]
    width_ndx_valid [OF assms(4)]
  by simp

theorem header_setters_independent_witness:
  "\<exists>h1 h2 h3. set_size_in_header 300 (\<lambda>_. 7) = Inr h1 \<and> set_width_in_header 32 h1 = Inr h2 \<and>
     set_capacity_in_header 1208 h2 = Inr h3 \<and>
     get_size_from_header h3 = 300 \<and> get_width_from_header h3 = 32 \<and> get_capacity_from_header h3 = 1208"
proof -
  have w: "valid_width 32" by (simp add: valid_width_def)
  obtain h1 where 1: "set_size_in_header 300 (\<lambda>_. 7) = Inr h1"
    by (simp add: set_size_in_header_def max_array_size_def)
  obtain h2 where 2: "set_width_in_header 32 h1 = Inr h2"
    using width_ndx_valid [OF w] by (simp add: set_width_in_header_def Let_def)
  obtain h3 where 3: "set_capacity_in_header 1208 h2 = Inr h3"
    by (simp add: set_capacity_in_header_def)
  show ?thesis using header_setters_independent [OF 1 2 3 w] 1 2 3 by auto
qed

end
