(* ===== verification/Array_Direct.thy ===== *)
theory Array_Direct
  imports Node_Header
begin

unbundle bit_operations_syntax

text \<open>
  Direct access to the packed elements of a node (\<^verbatim>\<open>src/barq/array_direct.hpp\<close>): reading and writing
  element \<open>ndx\<close> of width 0, 1, 2, 4 (unsigned, several to a byte), 8, 16, 32 or 64 (two's
  complement, little endian), the bounds and the minimal width of a value
  (\<^verbatim>\<open>Array::lbound_for_width\<close>, \<^verbatim>\<open>Array::ubound_for_width\<close>, \<^verbatim>\<open>Array::bit_width\<close>), and the two branch-free
  binary searches. Elements are \<open>int64_t\<close> values, modelled by \<open>int\<close>; an operation that stores a
  value truncates it to the width as the C++ conversion does.
\<close>

subsection \<open>Little endian integers in memory\<close>

fun load_le :: "nat \<Rightarrow> mem \<Rightarrow> nat \<Rightarrow> int" where
  "load_le 0 d off = 0"
| "load_le (Suc n) d off = uint (d off) OR push_bit 8 (load_le n d (Suc off))"

fun store_le :: "nat \<Rightarrow> mem \<Rightarrow> nat \<Rightarrow> int \<Rightarrow> mem" where
  "store_le 0 d off v = d"
| "store_le (Suc n) d off v = store_le n (d(off := of_int v)) (Suc off) (drop_bit 8 v)"

text \<open>Reading a signed integer of \<open>n\<close> bytes.\<close>

definition load_signed :: "nat \<Rightarrow> mem \<Rightarrow> nat \<Rightarrow> int" where
  "load_signed n d off = signed_take_bit (8 * n - 1) (load_le n d off)"

subsection \<open>The accessors\<close>

definition set_direct_t :: "nat \<Rightarrow> mem \<Rightarrow> nat \<Rightarrow> int \<Rightarrow> mem" where
  "set_direct_t width data ndx value =
     (if width = 0 then data
      else if width = 1 then
        (let byte_ndx = ndx div 8; bit_ndx = ndx mod 8; p = data byte_ndx
         in data(byte_ndx := (p AND NOT (push_bit bit_ndx 0x01)) OR push_bit bit_ndx (of_int value AND 0x01)))
      else if width = 2 then
        (let byte_ndx = ndx div 4; bit_ndx = ndx mod 4 * 2; p = data byte_ndx
         in data(byte_ndx := (p AND NOT (push_bit bit_ndx 0x03)) OR push_bit bit_ndx (of_int value AND 0x03)))
      else if width = 4 then
        (let byte_ndx = ndx div 2; bit_ndx = ndx mod 2 * 4; p = data byte_ndx
         in data(byte_ndx := (p AND NOT (push_bit bit_ndx 0x0F)) OR push_bit bit_ndx (of_int value AND 0x0F)))
      else if width = 8 then store_le 1 data ndx value
      else if width = 16 then store_le 2 data (2 * ndx) value
      else if width = 32 then store_le 4 data (4 * ndx) value
      else if width = 64 then store_le 8 data (8 * ndx) value
      else data)"

definition get_direct_t :: "nat \<Rightarrow> mem \<Rightarrow> nat \<Rightarrow> int" where
  "get_direct_t w data ndx =
     (if w = 0 then 0
      else if w = 1 then
        (let offset = drop_bit 3 ndx in uint (drop_bit (ndx AND 7) (data offset) AND 0x01))
      else if w = 2 then
        (let offset = drop_bit 2 ndx in uint (drop_bit (push_bit 1 (ndx AND 3)) (data offset) AND 0x03))
      else if w = 4 then
        (let offset = drop_bit 1 ndx in uint (drop_bit (push_bit 2 (ndx AND 1)) (data offset) AND 0x0F))
      else if w = 8 then load_signed 1 data ndx
      else if w = 16 then (let offset = ndx * 2 in load_signed 2 data offset)
      else if w = 32 then (let offset = ndx * 4 in load_signed 4 data offset)
      else if w = 64 then (let offset = ndx * 8 in load_signed 8 data offset)
      else -1)"

text \<open>The dispatch on a width known only at run time (\<^verbatim>\<open>BARQ_TEMPEX\<close>): any other width acts as 0.\<close>

definition tempex :: "nat \<Rightarrow> nat" where
  "tempex wid =
     (if wid = 16 then 16 else if wid = 32 then 32 else if wid = 0 then 0 else if wid = 1 then 1
      else if wid = 2 then 2 else if wid = 4 then 4 else if wid = 8 then 8
      else if wid = 64 then 64 else 0)"

definition set_direct :: "nat \<Rightarrow> mem \<Rightarrow> nat \<Rightarrow> int \<Rightarrow> mem" where
  "set_direct width data ndx value = set_direct_t (tempex width) data ndx value"

definition get_direct :: "nat \<Rightarrow> mem \<Rightarrow> nat \<Rightarrow> int" where
  "get_direct width data ndx = get_direct_t (tempex width) data ndx"

function fill_direct :: "nat \<Rightarrow> mem \<Rightarrow> nat \<Rightarrow> nat \<Rightarrow> int \<Rightarrow> mem" where
  "fill_direct width data i fin value =
     (if i < fin then fill_direct width (set_direct width data i value) (Suc i) fin value else data)"
  by pat_completeness auto
termination
  by (relation "measure (\<lambda>(w, d, i, e, v). e - i)") auto

declare fill_direct.simps [simp del]

definition get_two :: "nat \<Rightarrow> mem \<Rightarrow> nat \<Rightarrow> int \<times> int" where
  "get_two width data ndx = (get_direct width data ndx, get_direct width data (ndx + 1))"

subsection \<open>Bounds and minimal width\<close>

definition lbound_for_width :: "nat \<Rightarrow> int" where
  "lbound_for_width width =
     (if width = 32 then -0x80000000
      else if width = 16 then -0x8000
      else if width < 8 then 0
      else if width = 8 then -0x80
      else -0x8000000000000000)"

definition ubound_for_width :: "nat \<Rightarrow> int" where
  "ubound_for_width width =
     (if width = 32 then 0x7FFFFFFF
      else if width = 16 then 0x7FFF
      else if width = 0 then 0
      else if width = 1 then 1
      else if width = 2 then 3
      else if width = 4 then 15
      else if width = 8 then 0x7F
      else 0x7FFFFFFFFFFFFFFF)"

definition bit_width :: "int \<Rightarrow> nat" where
  "bit_width v =
     (if drop_bit 4 (take_bit 64 v) = 0
      then [0, 1, 2, 2, 4, 4, 4, 4, 4, 4, 4, 4, 4, 4, 4, 4] ! nat v
      else let v' = (if v < 0 then NOT v else v)
           in if drop_bit 31 (take_bit 64 v') \<noteq> 0 then 64
              else if drop_bit 15 (take_bit 64 v') \<noteq> 0 then 32
              else if drop_bit 7 (take_bit 64 v') \<noteq> 0 then 16
              else 8)"

subsection \<open>Binary search\<close>

text \<open>One probe: the search keeps \<open>low\<close> and the number of remaining candidates.\<close>

definition bound_step :: "(int \<Rightarrow> bool) \<Rightarrow> (nat \<Rightarrow> int) \<Rightarrow> nat \<times> nat \<Rightarrow> nat \<times> nat" where
  "bound_step right get = (\<lambda>(low, sz).
     let half = sz div 2;
         other_half = sz - half;
         probe = low + half;
         other_low = low + other_half;
         v = get probe
     in (if right v then other_low else low, half))"

text \<open>The loop unrolled three times while at least eight candidates remain, then the plain loop.\<close>

function bound_loop8 :: "(int \<Rightarrow> bool) \<Rightarrow> (nat \<Rightarrow> int) \<Rightarrow> nat \<times> nat \<Rightarrow> nat \<times> nat" where
  "bound_loop8 right get (low, sz) =
     (if 8 \<le> sz
      then bound_loop8 right get (bound_step right get (bound_step right get (bound_step right get (low, sz))))
      else (low, sz))"
  by pat_completeness auto
termination
  by (relation "measure (\<lambda>(r, g, low, sz). sz)") (auto simp: bound_step_def Let_def)

function bound_loop1 :: "(int \<Rightarrow> bool) \<Rightarrow> (nat \<Rightarrow> int) \<Rightarrow> nat \<times> nat \<Rightarrow> nat" where
  "bound_loop1 right get (low, sz) =
     (if 0 < sz then bound_loop1 right get (bound_step right get (low, sz)) else low)"
  by pat_completeness auto
termination
  by (relation "measure (\<lambda>(r, g, low, sz). sz)") (auto simp: bound_step_def Let_def)

declare bound_loop8.simps [simp del] bound_loop1.simps [simp del]

definition lower_bound :: "nat \<Rightarrow> mem \<Rightarrow> nat \<Rightarrow> int \<Rightarrow> nat" where
  "lower_bound width data sz value =
     (let get = get_direct width data; right = (\<lambda>v. v < value)
      in bound_loop1 right get (bound_loop8 right get (0, sz)))"

definition upper_bound :: "nat \<Rightarrow> mem \<Rightarrow> nat \<Rightarrow> int \<Rightarrow> nat" where
  "upper_bound width data sz value =
     (let get = get_direct width data; right = (\<lambda>v. value \<ge> v)
      in bound_loop1 right get (bound_loop8 right get (0, sz)))"

subsection \<open>Bits of a block\<close>

text \<open>Bit \<open>k\<close> of a block of memory, counting from the least significant bit of byte 0. Every accessor
  is determined by the bits it touches.\<close>

definition mbit :: "mem \<Rightarrow> nat \<Rightarrow> bool" where
  "mbit d k \<longleftrightarrow> bit (d (k div 8)) (k mod 8)"

lemma mbit_byte: "n < 8 \<Longrightarrow> mbit d (8 * k + n) \<longleftrightarrow> bit (d k) n"
  by (simp add: mbit_def)

lemma mbit_upd: "mbit (d(a := b)) k \<longleftrightarrow> (if k div 8 = a then bit b (k mod 8) else mbit d k)"
  by (simp add: mbit_def)

lemma bit_load_le: "bit (load_le n d off) k \<longleftrightarrow> k < 8 * n \<and> mbit d (8 * off + k)"
proof (induction n arbitrary: off k)
  case (Suc n)
  show ?case
  proof (cases "k < 8")
    case True
    then show ?thesis by (simp add: bit_or_iff bit_push_bit_iff bit_uint_iff mbit_byte)
  next
    case False
    then have "8 * Suc off + (k - 8) = 8 * off + k" by simp
    with False show ?thesis
      by (auto simp: bit_or_iff bit_push_bit_iff bit_uint_iff Suc)
  qed
qed simp

lemma mbit_store_le:
  "mbit (store_le n d off v) k \<longleftrightarrow>
     (if 8 * off \<le> k \<and> k < 8 * (off + n) then bit v (k - 8 * off) else mbit d k)"
proof (induction n arbitrary: d off v)
  case (Suc n)
  show ?case
  proof (cases "k div 8 = off")
    case True
    then have "8 * off \<le> k" "k < 8 * off + 8" "k mod 8 = k - 8 * off" "k - 8 * off < 8" by presburger+
    then show ?thesis using True by (simp add: Suc mbit_upd bit_of_int_iff)
  next
    case False
    have e: "8 * m \<le> k \<longleftrightarrow> m \<le> k div 8" for m
      by (simp add: less_eq_div_iff_mult_less_eq mult.commute)
    have "8 * Suc off \<le> k \<longleftrightarrow> 8 * off \<le> k" unfolding e using False by auto
    moreover from False have "mbit (d(off := of_int v)) k = mbit d k" by (simp only: mbit_upd if_False)
    ultimately show ?thesis by (simp add: Suc bit_drop_bit_eq)
  qed
qed auto

text \<open>Elements narrower than a byte.\<close>

definition small_width :: "nat \<Rightarrow> bool" where
  "small_width w \<longleftrightarrow> w = 1 \<or> w = 2 \<or> w = 4"

definition byte_width :: "nat \<Rightarrow> bool" where
  "byte_width w \<longleftrightarrow> w = 8 \<or> w = 16 \<or> w = 32 \<or> w = 64"

lemma valid_width_cases: "valid_width w \<longleftrightarrow> w = 0 \<or> small_width w \<or> byte_width w"
  by (auto simp: valid_width_def small_width_def byte_width_def)

lemma low_masks: "mask 1 = (1 :: u8)" "mask 2 = (3 :: u8)" "mask 4 = (15 :: u8)"
  by (simp_all add: mask_eq_exp_minus_1)

lemma take_bit_low:
  "take_bit 1 (x :: u8) = x AND 1" "take_bit 2 x = x AND 3" "take_bit 4 x = x AND 15"
  by (simp_all only: take_bit_eq_mask low_masks)

lemma in_byte:
  fixes i :: nat
  shows "i * 2 mod 8 = i mod 4 * 2" "i * 4 mod 8 = i mod 2 * 4" "i * 2 div 8 = i div 4" "i * 4 div 8 = i div 2"
  by presburger+

lemma get_direct_small:
  assumes "small_width w"
  shows "get_direct_t w d i = uint (take_bit w (drop_bit (i * w mod 8) (d (i * w div 8))))"
proof -
  have m: "i AND 7 = i mod 8" "i AND 3 = i mod 4" "i AND 1 = i mod 2"
    using take_bit_eq_mask [of 3 i] take_bit_eq_mask [of 2 i] take_bit_eq_mask [of 1 i]
    by (simp_all add: take_bit_eq_mod mask_eq_exp_minus_1)
  consider "w = 1" | "w = 2" | "w = 4" using assms by (auto simp: small_width_def)
  then show ?thesis
    by cases (simp_all only: get_direct_t_def Let_def m drop_bit_eq_div [where 'a = nat] take_bit_low
        in_byte push_bit_eq_mult, simp_all)
qed

lemma set_direct_small:
  assumes "small_width w"
  shows "set_direct_t w d i v = d(i * w div 8 :=
    (d (i * w div 8) AND NOT (push_bit (i * w mod 8) (mask w))) OR
      push_bit (i * w mod 8) (take_bit w (of_int v)))"
proof -
  consider "w = 1" | "w = 2" | "w = 4" using assms by (auto simp: small_width_def)
  then show ?thesis
    by cases (simp_all only: set_direct_t_def Let_def take_bit_low low_masks in_byte, simp_all)
qed

lemma div8_unique: "8 * q + r = x \<Longrightarrow> r < 8 \<Longrightarrow> x div 8 = q \<and> x mod 8 = (r :: nat)"
  by auto

lemma mbit_in_byte: "n + x mod 8 < 8 \<Longrightarrow> mbit d (x + n) \<longleftrightarrow> bit (d (x div 8)) (x mod 8 + n)"
proof -
  assume "n + x mod 8 < 8"
  then have "(x + n) div 8 = x div 8" "(x + n) mod 8 = x mod 8 + n"
    using div8_unique [of "x div 8" "x mod 8 + n" "x + n"] by simp_all
  then show ?thesis by (simp add: mbit_def)
qed

lemma small_fits_byte: "small_width w \<Longrightarrow> i * w mod 8 + w \<le> 8"
  using in_byte(1,2) [of i] mod_less_divisor [of 8 i] mod_less_divisor [of 4 i] mod_less_divisor [of 2 i]
  unfolding small_width_def by (elim disjE) (hypsubst, linarith)+

lemma bit_get_small:
  assumes "small_width w"
  shows "bit (get_direct_t w d i) n \<longleftrightarrow> n < w \<and> mbit d (i * w + n)"
proof (cases "n < w")
  case True
  with small_fits_byte [OF assms, of i] have n: "n + i * w mod 8 < 8" by linarith
  show ?thesis
    using True n unfolding get_direct_small [OF assms] mbit_in_byte [OF n]
    by (simp add: bit_uint_iff bit_take_bit_iff bit_drop_bit_eq)
next
  case False
  then show ?thesis
    unfolding get_direct_small [OF assms] by (simp add: bit_uint_iff bit_take_bit_iff)
qed

lemma mbit_set_small:
  assumes "small_width w"
  shows "mbit (set_direct_t w d i v) k \<longleftrightarrow>
    (if i * w \<le> k \<and> k < i * w + w then bit v (k - i * w) else mbit d k)"
proof (cases "k div 8 = i * w div 8")
  case True
  define s where "s = i * w mod 8"
  have s: "s + w \<le> 8" using small_fits_byte [OF assms, of i] by (simp add: s_def)
  have k: "k = 8 * (i * w div 8) + k mod 8" "i * w = 8 * (i * w div 8) + s"
    using mult_div_mod_eq [of 8 k] mult_div_mod_eq [of 8 "i * w"] True by (simp_all add: s_def)
  then have range: "i * w \<le> k \<and> k < i * w + w \<longleftrightarrow> s \<le> k mod 8 \<and> k mod 8 < s + w"
    and off: "k - i * w = k mod 8 - s" by linarith+
  show ?thesis
    unfolding set_direct_small [OF assms] mbit_upd range off
    by (auto simp: True mbit_def bit_or_iff bit_and_iff bit_not_iff bit_push_bit_iff bit_mask_iff
        bit_take_bit_iff bit_of_int_iff s_def [symmetric])
next
  case False
  have "\<not> (i * w \<le> k \<and> k < i * w + w)"
  proof
    assume "i * w \<le> k \<and> k < i * w + w"
    with small_fits_byte [OF assms, of i] mult_div_mod_eq [of 8 "i * w"]
    have "8 * (i * w div 8) + (k - i * w + i * w mod 8) = k" "k - i * w + i * w mod 8 < 8"
      by linarith+
    from div8_unique [OF this] have "k div 8 = i * w div 8" ..
    with False show False ..
  qed
  with False show ?thesis
    unfolding set_direct_small [OF assms] mbit_upd by auto
qed

text \<open>Elements of one byte or more.\<close>

lemma byte_width_nat: "byte_width w \<Longrightarrow> w = 8 * (w div 8) \<and> 0 < w"
  by (auto simp: byte_width_def)

lemma get_direct_byte: "byte_width w \<Longrightarrow> get_direct_t w d i = load_signed (w div 8) d (i * (w div 8))"
  by (auto simp: byte_width_def get_direct_t_def)

lemma set_direct_byte: "byte_width w \<Longrightarrow> set_direct_t w d i v = store_le (w div 8) d (i * (w div 8)) v"
  by (auto simp: byte_width_def set_direct_t_def mult.commute)

lemma bit_get_byte:
  assumes "byte_width w"
  shows "bit (get_direct_t w d i) n \<longleftrightarrow> mbit d (i * w + min n (w - 1))"
proof -
  have w: "8 * (w div 8) = w" "0 < w" "8 * (i * (w div 8)) = i * w"
    using byte_width_nat [OF assms] by (simp_all add: mult.left_commute)
  show ?thesis
    unfolding get_direct_byte [OF assms] load_signed_def w(1) bit_signed_take_bit_iff bit_load_le w(3)
      min.commute [of "w - 1" n]
    using w(2) by auto
qed

lemma mbit_set_byte:
  assumes "byte_width w"
  shows "mbit (set_direct_t w d i v) k \<longleftrightarrow>
    (if i * w \<le> k \<and> k < i * w + w then bit v (k - i * w) else mbit d k)"
proof -
  have w: "8 * (w div 8) = w" "8 * (i * (w div 8)) = i * w"
    using byte_width_nat [OF assms] by (simp_all add: mult.left_commute)
  show ?thesis
    unfolding set_direct_byte [OF assms] mbit_store_le distrib_left w ..
qed

text \<open>Every width: the dispatch reads and writes the bits \<open>i * w ..< (i + 1) * w\<close>.\<close>

lemma tempex_valid [simp]: "valid_width (tempex w)"
  by (simp add: tempex_def valid_width_def)

lemma tempex_id: "valid_width w \<Longrightarrow> tempex w = w"
  by (auto simp: tempex_def valid_width_def)

definition fits_width :: "nat \<Rightarrow> int \<Rightarrow> bool" where
  "fits_width w v \<longleftrightarrow> lbound_for_width (tempex w) \<le> v \<and> v \<le> ubound_for_width (tempex w)"

lemma mbit_set_direct:
  "mbit (set_direct w d i v) k \<longleftrightarrow>
    (if i * tempex w \<le> k \<and> k < i * tempex w + tempex w then bit v (k - i * tempex w) else mbit d k)"
  using tempex_valid [of w] mbit_set_small mbit_set_byte
  by (auto simp: set_direct_def valid_width_cases set_direct_t_def [of 0])

lemma bit_get_direct:
  "bit (get_direct w d i) n \<longleftrightarrow> tempex w \<noteq> 0 \<and>
     (if tempex w < 8 then n < tempex w \<and> mbit d (i * tempex w + n)
      else mbit d (i * tempex w + min n (tempex w - 1)))"
  using tempex_valid [of w] bit_get_small [of "tempex w" d i n] bit_get_byte [of "tempex w" d i n]
  by (auto simp: get_direct_def valid_width_cases get_direct_t_def [of 0] small_width_def byte_width_def)

lemma get_direct_cong:
  assumes "\<And>n. n < tempex w \<Longrightarrow> mbit d (i * tempex w + n) = mbit d' (j * tempex w + n)"
  shows "get_direct w d i = get_direct w d' j"
  by (rule bit_eqI) (auto simp: bit_get_direct assms)

lemma fits_width_bits:
  "fits_width w v \<longleftrightarrow>
     (if tempex w = 0 then v = 0 else if tempex w < 8 then take_bit (tempex w) v = v
      else signed_take_bit (tempex w - 1) v = v)"
  using tempex_valid [of w] unfolding valid_width_def fits_width_def
  by (auto simp: lbound_for_width_def ubound_for_width_def take_bit_int_eq_self_iff
      signed_take_bit_int_eq_self_iff)

lemma get_set_direct_same:
  assumes "fits_width w v"
  shows "get_direct w (set_direct w d i v) i = v"
proof (rule bit_eqI)
  fix n
  have v: "bit v n \<longleftrightarrow> (if tempex w = 0 then False else if tempex w < 8 then n < tempex w \<and> bit v n
      else bit v (min n (tempex w - 1)))"
    using assms bit_take_bit_iff [of "tempex w" v n] bit_signed_take_bit_iff [of "tempex w - 1" v n]
    by (auto simp: fits_width_bits min.commute split: if_splits)
  show "bit (get_direct w (set_direct w d i v) i) n = bit v n"
    by (subst v) (auto simp: bit_get_direct mbit_set_direct)
qed

lemma get_set_direct_other:
  assumes "i \<noteq> j"
  shows "get_direct w (set_direct w d i v) j = get_direct w d j"
proof (rule get_direct_cong)
  fix n assume n: "n < tempex w"
  have "\<not> (i * tempex w \<le> j * tempex w + n \<and> j * tempex w + n < i * tempex w + tempex w)"
  proof (cases "i < j")
    case True
    then have "i * tempex w + tempex w \<le> j * tempex w"
      using mult_le_mono1 [of "Suc i" j "tempex w"] by simp
    then show ?thesis by simp
  next
    case False
    with assms have "j * tempex w + tempex w \<le> i * tempex w"
      using mult_le_mono1 [of "Suc j" i "tempex w"] by simp
    with n show ?thesis by simp
  qed
  then show "mbit (set_direct w d i v) (j * tempex w + n) = mbit d (j * tempex w + n)"
    by (auto simp: mbit_set_direct)
qed

lemma get_direct_fits: "fits_width w (get_direct w d i)"
  unfolding fits_width_bits
  by (auto intro!: bit_eqI simp: bit_take_bit_iff bit_signed_take_bit_iff bit_get_direct min.commute)

subsection \<open>The contract of packed elements\<close>

text \<open>
  What the array code relies on when it uses a getter and a setter of one width: a stored value
  that fits reads back, and no other element changes. The loops of the array code are verified
  against this contract.
\<close>

locale packed_slots =
  fixes get :: "mem \<Rightarrow> nat \<Rightarrow> int"
    and put :: "mem \<Rightarrow> nat \<Rightarrow> int \<Rightarrow> mem"
    and fits :: "int \<Rightarrow> bool"
  assumes get_put_same: "fits v \<Longrightarrow> get (put d i v) i = v"
    and get_put_other: "i \<noteq> j \<Longrightarrow> get (put d i v) j = get d j"
    and get_fits: "fits (get d i)"
begin

lemma get_put: "fits v \<Longrightarrow> get (put d i v) j = (if j = i then v else get d j)"
  using get_put_same get_put_other by auto

lemma put_list:
  "fits v \<Longrightarrow> i < n \<Longrightarrow> map (get (put d i v)) [0..<n] = (map (get d) [0..<n])[i := v]"
  by (rule nth_equalityI) (auto simp: get_put nth_list_update)

end

interpretation direct: packed_slots "get_direct w" "set_direct w" "fits_width w" for w
  by unfold_locales (simp_all add: get_set_direct_same get_set_direct_other get_direct_fits)

lemma get_fill_direct:
  "fits_width w v \<Longrightarrow> get_direct w (fill_direct w d b e v) j =
     (if b \<le> j \<and> j < e then v else get_direct w d j)"
proof (induction w d b e v rule: fill_direct.induct)
  case (1 w d i e v)
  then show ?case
    by (auto simp: fill_direct.simps [of w d i e v] direct.get_put)
qed

subsection \<open>Minimal width of a value\<close>

definition int64_range :: "int \<Rightarrow> bool" where
  "int64_range v \<longleftrightarrow> - (2 ^ 63) \<le> v \<and> v < 2 ^ 63"

lemma drop_take_64:
  fixes v :: int
  assumes "0 \<le> v" "v < 2 ^ 63"
  shows "drop_bit n (take_bit 64 v) = 0 \<longleftrightarrow> v < 2 ^ n"
  using assms by (auto simp: take_bit_int_eq_self drop_bit_eq_div zdiv_eq_0_iff)

lemma drop_take_64_neg:
  fixes v :: int
  assumes "v < 0" "- (2 ^ 63) \<le> v"
  shows "drop_bit 4 (take_bit 64 v) \<noteq> 0"
proof
  assume "drop_bit 4 (take_bit 64 v) = 0"
  then have "\<not> bit (drop_bit 4 (take_bit 64 v)) 59" by simp
  then have "\<not> bit v 63" by (simp add: bit_drop_bit_eq bit_take_bit_iff)
  moreover have "signed_take_bit 63 v = v" using assms by (simp add: signed_take_bit_int_eq_self_iff)
  ultimately have "0 \<le> v" by (metis signed_take_bit_nonnegative_iff)
  with assms show False by simp
qed

lemma bit_width_nonneg:
  assumes "0 \<le> v" "v < 2 ^ 63"
  shows "bit_width v = (if v = 0 then 0 else if v < 2 then 1 else if v < 4 then 2 else if v < 16 then 4
    else if v < 2 ^ 7 then 8 else if v < 2 ^ 15 then 16 else if v < 2 ^ 31 then 32 else 64)"
proof (cases "v < 16")
  case True
  then have "v \<in> {0, 1, 2, 3, 4, 5, 6, 7, 8, 9, 10, 11, 12, 13, 14, 15}"
    using assms(1) by (simp only: insert_iff empty_iff) presburger
  then show ?thesis
    by (elim insertE) (simp_all add: bit_width_def)
next
  case False
  then show ?thesis
    using assms drop_take_64 [OF assms] by (simp add: bit_width_def Let_def)
qed

lemma bit_width_neg:
  assumes "v < 0" "- (2 ^ 63) \<le> v"
  shows "bit_width v = (if - (2 ^ 7) \<le> v then 8 else if - (2 ^ 15) \<le> v then 16
    else if - (2 ^ 31) \<le> v then 32 else 64)"
proof -
  have n: "0 \<le> NOT v" "NOT v < 2 ^ 63" using assms by (simp_all add: not_int_def)
  show ?thesis
    using assms drop_take_64 [OF n] drop_take_64_neg [OF assms]
    by (simp add: bit_width_def Let_def) (simp add: not_int_def)
qed

lemma bit_width_correct:
  assumes "int64_range v"
  shows "valid_width (bit_width v)" "fits_width (bit_width v) v"
    "valid_width w \<Longrightarrow> fits_width w v \<Longrightarrow> bit_width v \<le> w"
proof -
  have "valid_width (bit_width v) \<and> fits_width (bit_width v) v \<and>
    (\<forall>w. valid_width w \<longrightarrow> fits_width w v \<longrightarrow> bit_width v \<le> w)"
  proof (cases "0 \<le> v")
    case True
    then show ?thesis
      using assms bit_width_nonneg [of v]
      by (auto simp: int64_range_def fits_width_def valid_width_def tempex_def lbound_for_width_def
          ubound_for_width_def split: if_splits)
  next
    case False
    then show ?thesis
      using assms bit_width_neg [of v]
      by (auto simp: int64_range_def fits_width_def valid_width_def tempex_def lbound_for_width_def
          ubound_for_width_def split: if_splits)
  qed
  then show "valid_width (bit_width v)" "fits_width (bit_width v) v"
    "valid_width w \<Longrightarrow> fits_width w v \<Longrightarrow> bit_width v \<le> w" by auto
qed

subsection \<open>The searches\<close>

text \<open>A partition point: everything to the left goes right in the search, nothing from it on does.\<close>

definition partition_at :: "(int \<Rightarrow> bool) \<Rightarrow> (nat \<Rightarrow> int) \<Rightarrow> nat \<Rightarrow> nat \<Rightarrow> nat \<Rightarrow> bool" where
  "partition_at right get n low hi \<longleftrightarrow> low \<le> hi \<and> hi \<le> n \<and> (\<forall>i < low. right (get i)) \<and>
     (\<forall>i. hi \<le> i \<longrightarrow> i < n \<longrightarrow> \<not> right (get i))"

definition monotone_probe :: "(int \<Rightarrow> bool) \<Rightarrow> (nat \<Rightarrow> int) \<Rightarrow> nat \<Rightarrow> bool" where
  "monotone_probe right get n \<longleftrightarrow> (\<forall>i j. i \<le> j \<longrightarrow> j < n \<longrightarrow> right (get j) \<longrightarrow> right (get i))"

lemma bound_step_partition:
  assumes "monotone_probe right get n" "partition_at right get n low (low + sz)" "0 < sz"
    and "bound_step right get (low, sz) = (low', sz')"
  shows "partition_at right get n low' (low' + sz')" "sz' = sz div 2"
proof -
  define half where "half = sz div 2"
  have h: "half < sz" "sz - half \<le> half + 1" "half + (sz - half) = sz"
    using assms(3) by (simp_all add: half_def)
  have eqs: "low' = (if right (get (low + half)) then low + (sz - half) else low)" "sz' = half"
    using assms(4) by (auto simp: bound_step_def Let_def half_def)
  have probe: "low + half < n" using assms(2) h(1) by (simp add: partition_at_def)
  show "sz' = sz div 2" by (simp add: eqs half_def)
  show "partition_at right get n low' (low' + sz')"
  proof (cases "right (get (low + half))")
    case True
    have "right (get i)" if "i < low + (sz - half)" for i
    proof -
      have "i \<le> low + half" using that h(2) by linarith
      then show ?thesis using assms(1) True probe unfolding monotone_probe_def by blast
    qed
    with True assms(2) h show ?thesis by (simp add: eqs partition_at_def)
  next
    case False
    have "\<not> right (get i)" if "low + half \<le> i" "i < n" for i
      using assms(1) False that by (auto simp: monotone_probe_def)
    with False assms(2) h show ?thesis by (simp add: eqs partition_at_def)
  qed
qed

lemma bound_loop1_partition:
  assumes "monotone_probe right get n" "partition_at right get n (fst p) (fst p + snd p)"
  shows "partition_at right get n (bound_loop1 right get p) (bound_loop1 right get p)"
  using assms(2)
proof (induction "snd p" arbitrary: p rule: less_induct)
  case less
  obtain low sz where p: "p = (low, sz)" by (cases p)
  show ?case
  proof (cases "0 < sz")
    case True
    obtain low' sz' where q: "bound_step right get (low, sz) = (low', sz')" by fastforce
    note step = bound_step_partition [OF assms(1) _ True q]
    have "partition_at right get n low' (low' + sz')" "sz' < sz"
      using step less.prems True by (simp_all add: p)
    then show ?thesis
      using less.hyps [of "(low', sz')"] True by (simp add: p bound_loop1.simps [of right get low sz] q)
  next
    case False
    then show ?thesis
      using less.prems by (simp add: p bound_loop1.simps [of right get low 0])
  qed
qed

lemma bound_loop8_partition:
  assumes "monotone_probe right get n" "partition_at right get n (fst p) (fst p + snd p)"
  shows "partition_at right get n (fst (bound_loop8 right get p))
    (fst (bound_loop8 right get p) + snd (bound_loop8 right get p))"
  using assms(2)
proof (induction "snd p" arbitrary: p rule: less_induct)
  case less
  obtain low sz where p: "p = (low, sz)" by (cases p)
  show ?case
  proof (cases "8 \<le> sz")
    case True
    obtain l1 s1 where q1: "bound_step right get (low, sz) = (l1, s1)" by fastforce
    obtain l2 s2 where q2: "bound_step right get (l1, s1) = (l2, s2)" by fastforce
    obtain l3 s3 where q3: "bound_step right get (l2, s2) = (l3, s3)" by fastforce
    have p1: "partition_at right get n l1 (l1 + s1)" "s1 = sz div 2"
      using bound_step_partition [OF assms(1) _ _ q1] less.prems True by (simp_all add: p)
    then have p2: "partition_at right get n l2 (l2 + s2)" "s2 = s1 div 2"
      using bound_step_partition [OF assms(1) _ _ q2] True by simp_all
    then have p3: "partition_at right get n l3 (l3 + s3)" "s3 = s2 div 2"
      using bound_step_partition [OF assms(1) _ _ q3] p1(2) True by simp_all
    have "s3 < sz" using p1(2) p2(2) p3(2) True by simp
    then show ?thesis
      using less.hyps [of "(l3, s3)"] p3 True
      by (simp add: p bound_loop8.simps [of right get low sz] q1 q2 q3)
  next
    case False
    then show ?thesis
      using less.prems by (simp add: p bound_loop8.simps [of right get low sz])
  qed
qed

lemma bound_search:
  assumes "monotone_probe right get n"
  shows "partition_at right get n (bound_loop1 right get (bound_loop8 right get (0, n)))
    (bound_loop1 right get (bound_loop8 right get (0, n)))"
  by (intro bound_loop1_partition bound_loop8_partition assms) (simp add: partition_at_def)

lemma lower_bound_spec:
  assumes "sorted (map (get_direct w d) [0..<n])"
  shows "lower_bound w d n v \<le> n" "\<forall>i < lower_bound w d n v. get_direct w d i < v"
    "\<forall>i. lower_bound w d n v \<le> i \<longrightarrow> i < n \<longrightarrow> v \<le> get_direct w d i"
proof -
  have "monotone_probe (\<lambda>x. x < v) (get_direct w d) n"
    using assms by (auto simp: monotone_probe_def sorted_iff_nth_mono dest: order.strict_trans1)
  from bound_search [OF this] show "lower_bound w d n v \<le> n"
    "\<forall>i < lower_bound w d n v. get_direct w d i < v"
    "\<forall>i. lower_bound w d n v \<le> i \<longrightarrow> i < n \<longrightarrow> v \<le> get_direct w d i"
    by (auto simp: lower_bound_def Let_def partition_at_def not_less)
qed

lemma upper_bound_spec:
  assumes "sorted (map (get_direct w d) [0..<n])"
  shows "upper_bound w d n v \<le> n" "\<forall>i < upper_bound w d n v. get_direct w d i \<le> v"
    "\<forall>i. upper_bound w d n v \<le> i \<longrightarrow> i < n \<longrightarrow> v < get_direct w d i"
proof -
  have "monotone_probe (\<lambda>x. x \<le> v) (get_direct w d) n"
    using assms by (auto simp: monotone_probe_def sorted_iff_nth_mono dest: order.trans)
  from bound_search [OF this] show "upper_bound w d n v \<le> n"
    "\<forall>i < upper_bound w d n v. get_direct w d i \<le> v"
    "\<forall>i. upper_bound w d n v \<le> i \<longrightarrow> i < n \<longrightarrow> v < get_direct w d i"
    by (auto simp: upper_bound_def Let_def partition_at_def not_le)
qed

subsection \<open>Properties\<close>

text \<open>C13: writing an element of any width and reading the block back gives the written value at its index and the
  old value at every other index, for every value the width can hold.\<close>

theorem get_after_set_direct:
  assumes "fits_width w v"
  shows "get_direct w (set_direct w d i v) j = (if j = i then v else get_direct w d j)"
  using direct.get_put [OF assms] .

theorem get_after_set_direct_witness:
  "fits_width 4 9 \<and> get_direct 4 (set_direct 4 (\<lambda>_. 255) 3 9) 2 = get_direct 4 (\<lambda>_. 255) 2 \<and>
     get_direct 4 (set_direct 4 (\<lambda>_. 255) 3 9) 3 = 9"
proof -
  have f: "fits_width 4 9"
    by (simp add: fits_width_def tempex_def lbound_for_width_def ubound_for_width_def)
  show ?thesis
    using f get_after_set_direct [OF f, of "\<lambda>_. 255" 3 2] get_after_set_direct [OF f, of "\<lambda>_. 255" 3 3]
    by simp
qed

text \<open>C14: \<open>bit_width\<close> returns the least of the eight element widths whose bounds contain the value.\<close>

theorem bit_width_least:
  assumes "int64_range v"
  shows "valid_width (bit_width v) \<and> lbound_for_width (bit_width v) \<le> v \<and> v \<le> ubound_for_width (bit_width v) \<and>
    (valid_width w \<and> lbound_for_width w \<le> v \<and> v \<le> ubound_for_width w \<longrightarrow> bit_width v \<le> w)"
  using bit_width_correct [OF assms] by (auto simp: fits_width_def tempex_id)

theorem bit_width_least_witness:
  "int64_range (-129) \<and> valid_width (bit_width (-129)) \<and> lbound_for_width (bit_width (-129)) \<le> -129 \<and>
     bit_width (-129) \<le> 64"
  using bit_width_least [of "-129" 64]
  by (auto simp: int64_range_def valid_width_def lbound_for_width_def ubound_for_width_def)

text \<open>C15: on sorted elements the two branch-free binary searches split the block: everything below the returned
  index is smaller than (for \<open>upper_bound\<close>: at most) the value, everything from it on is not.\<close>

theorem bounds_partition:
  assumes "sorted (map (get_direct w d) [0..<n])"
  shows "lower_bound w d n v \<le> upper_bound w d n v \<and> upper_bound w d n v \<le> n \<and>
    (\<forall>i < n. (get_direct w d i < v \<longleftrightarrow> i < lower_bound w d n v) \<and>
             (get_direct w d i \<le> v \<longleftrightarrow> i < upper_bound w d n v))"
proof -
  note L = lower_bound_spec [OF assms, of v]
  note U = upper_bound_spec [OF assms, of v]
  have lu: "get_direct w d i < v \<longleftrightarrow> i < lower_bound w d n v"
    "get_direct w d i \<le> v \<longleftrightarrow> i < upper_bound w d n v" if "i < n" for i
    using L(2,3) U(2,3) that by (meson leD leI)+
  have "lower_bound w d n v \<le> upper_bound w d n v"
  proof (rule ccontr)
    assume "\<not> ?thesis"
    then have "upper_bound w d n v < lower_bound w d n v" by simp
    then show False using lu [of "upper_bound w d n v"] L(1) by simp
  qed
  then show ?thesis using U(1) lu by blast
qed

theorem bounds_partition_witness:
  "lower_bound 8 (\<lambda>i. of_nat i) 10 4 = 4 \<and> upper_bound 8 (\<lambda>i. of_nat i) 10 4 = 5"
proof -
  have g: "map (get_direct 8 (\<lambda>i. of_nat i)) [0..<10] = [0, 1, 2, 3, 4, 5, 6, 7, 8, 9]"
    by code_simp
  have s: "sorted (map (get_direct 8 (\<lambda>i. of_nat i)) [0..<10])" unfolding g by simp
  have e: "get_direct 8 (\<lambda>i. of_nat i) 3 = 3" "get_direct 8 (\<lambda>i. of_nat i) 4 = 4"
    "get_direct 8 (\<lambda>i. of_nat i) 5 = 5"
    by code_simp+
  from bounds_partition [OF s, of 4]
  have "i < 10 \<Longrightarrow> (get_direct 8 (\<lambda>i. of_nat i) i < 4 \<longleftrightarrow> i < lower_bound 8 (\<lambda>i. of_nat i) 10 4) \<and>
      (get_direct 8 (\<lambda>i. of_nat i) i \<le> 4 \<longleftrightarrow> i < upper_bound 8 (\<lambda>i. of_nat i) 10 4)" for i
    by blast
  from this [of 3] this [of 4] this [of 5] show ?thesis by (simp add: e)
qed

end
