(* ===== verification/Array_Moves.thy ===== *)
theory Array_Moves
  imports Array_Direct
begin

text \<open>
  The loops of \<^verbatim>\<open>Array\<close> over the elements of one block (\<open>array.cpp\<close> and \<open>array.hpp\<close>): the member
  getter \<^verbatim>\<open>Array::get_universal\<close>, the loop that moves elements upwards while it widens them in place
  (\<^verbatim>\<open>Array::insert\<close>, \<^verbatim>\<open>Array::do_ensure_minimum_width\<close>), the element by element copy for widths below
  one byte and the byte copy for the other widths (\<^verbatim>\<open>Array::move\<close>). The lemmas give what every
  slot of the block reads after each loop.
\<close>

subsection \<open>The member getter\<close>

text \<open>\<open>char\<close> is signed, so a byte is promoted to a possibly negative \<open>int\<close> before it is shifted.\<close>

definition get_universal :: "nat \<Rightarrow> mem \<Rightarrow> nat \<Rightarrow> int" where
  "get_universal w data ndx =
     (if w = 0 then 0
      else if w = 1 then
        (let offset = drop_bit 3 ndx in drop_bit (ndx AND 7) (sint (data offset)) AND 0x01)
      else if w = 2 then
        (let offset = drop_bit 2 ndx in drop_bit (push_bit 1 (ndx AND 3)) (sint (data offset)) AND 0x03)
      else if w = 4 then
        (let offset = drop_bit 1 ndx in drop_bit (push_bit 2 (ndx AND 1)) (sint (data offset)) AND 0x0F)
      else if w = 8 then sint (data ndx)
      else if w = 16 then (let offset = ndx * 2 in load_signed 2 data offset)
      else if w = 32 then (let offset = ndx * 4 in load_signed 4 data offset)
      else if w = 64 then (let offset = ndx * 8 in load_signed 8 data offset)
      else -1)"

lemma uint_sint_low:
  fixes b :: u8
  assumes "s + w \<le> 8"
  shows "drop_bit s (sint b) AND mask w = uint (take_bit w (drop_bit s b))"
proof (rule bit_eqI)
  fix n
  show "bit (drop_bit s (sint b) AND mask w) n = bit (uint (take_bit w (drop_bit s b))) n"
    using assms by (auto simp: bit_and_iff bit_mask_iff bit_drop_bit_eq bit_uint_iff bit_take_bit_iff
        bit_sint_iff min_def)
qed

lemma get_universal_direct:
  assumes "valid_width w"
  shows "get_universal w d i = get_direct w d i"
proof -
  have m: "mask 1 = (1 :: int)" "mask 2 = (3 :: int)" "mask 4 = (15 :: int)"
    by (simp_all add: mask_eq_exp_minus_1)
  have a: "i AND 7 = i mod 8" "i AND 3 = i mod 4" "i AND 1 = i mod 2"
    using take_bit_eq_mask [of 3 i] take_bit_eq_mask [of 2 i] take_bit_eq_mask [of 1 i]
    by (simp_all add: take_bit_eq_mod mask_eq_exp_minus_1)
  have l: "i mod 8 + 1 \<le> 8" "i mod 4 * 2 + 2 \<le> 8" "i mod 2 * 4 + 4 \<le> 8"
    using mod_less_divisor [of 8 i] mod_less_divisor [of 4 i] mod_less_divisor [of 2 i] by linarith+
  have s: "load_signed (Suc 0) d i = sint (d i)"
    by (simp add: load_signed_def sint_uint)
  have o: "uint (x mod 2) = uint (x AND 1)" for x :: u8
    by (simp add: and_one_eq)
  from assms show ?thesis
    unfolding valid_width_cases small_width_def byte_width_def get_direct_def
    by (elim disjE; simp only: tempex_def)
      (auto simp: get_universal_def get_direct_t_def Let_def s a l o push_bit_eq_mult
        take_bit_low uint_sint_low [of _ 1, unfolded m] uint_sint_low [of _ 2, unfolded m]
        uint_sint_low [of _ 4, unfolded m])
qed

subsection \<open>Moving elements upwards while widening them\<close>

text \<open>\<open>while (i > lo) { --i; v = old_getter(i); setter(i + shift, v); }\<close>\<close>

function expand_down :: "nat \<Rightarrow> nat \<Rightarrow> nat \<Rightarrow> nat \<Rightarrow> nat \<Rightarrow> mem \<Rightarrow> mem" where
  "expand_down old_width width shift lo i d =
     (if lo < i
      then expand_down old_width width shift lo (i - 1)
             (set_direct width d (i - 1 + shift) (get_universal old_width d (i - 1)))
      else d)"
  by pat_completeness auto
termination
  by (relation "measure (\<lambda>(ow, w, s, lo, i, d). i)") auto

declare expand_down.simps [simp del]

lemma bounds_mono:
  assumes "w \<le> w'" "valid_width w" "valid_width w'"
  shows "lbound_for_width w' \<le> lbound_for_width w \<and> ubound_for_width w \<le> ubound_for_width w'"
  using assms(2,3,1) unfolding valid_width_def insert_iff empty_iff
  by (elim disjE FalseE; hypsubst) (simp_all add: lbound_for_width_def ubound_for_width_def)

lemma fits_width_mono:
  assumes "fits_width w v" "w \<le> w'" "valid_width w" "valid_width w'"
  shows "fits_width w' v"
  using assms(1) bounds_mono [OF assms(2-4)]
  unfolding fits_width_def tempex_id [OF assms(3)] tempex_id [OF assms(4)] by linarith

lemma expand_down_frame:
  assumes "valid_width w" "k < (lo + s) * w \<or> (i + s) * w \<le> k"
  shows "mbit (expand_down ow w s lo i d) k = mbit d k"
  using assms(2)
proof (induction i arbitrary: d)
  case (Suc i)
  show ?case
  proof (cases "lo < Suc i")
    case True
    then have "(lo + s) * w \<le> (i + s) * w" by (intro mult_le_mono1) simp
    moreover have "(Suc i + s) * w = (i + s) * w + w" by simp
    ultimately have k: "k < (lo + s) * w \<or> (i + s) * w \<le> k" "\<not> ((i + s) * w \<le> k \<and> k < (i + s) * w + w)"
      using Suc.prems by linarith+
    then have "mbit (set_direct w d (i + s) v) k = mbit d k" for v
      unfolding mbit_set_direct tempex_id [OF assms(1)] by (intro if_not_P)
    then show ?thesis
      using True Suc.IH [OF k(1)] by (simp add: expand_down.simps [of _ _ _ _ "Suc i"])
  qed (simp add: expand_down.simps)
qed (simp add: expand_down.simps)

lemma get_direct_below:
  assumes "valid_width w" "\<And>k. k < n * w \<Longrightarrow> mbit d k = mbit d' k" "j < n"
  shows "get_direct w d j = get_direct w d' j"
proof (rule get_direct_cong, unfold tempex_id [OF assms(1)])
  fix m assume "m < w"
  moreover have "Suc j * w \<le> n * w" using assms(3) by (intro mult_le_mono1) simp
  ultimately show "mbit d (j * w + m) = mbit d' (j * w + m)" by (intro assms(2)) simp
qed

lemma get_direct_above:
  assumes "valid_width w" "\<And>k. n * w \<le> k \<Longrightarrow> mbit d k = mbit d' k" "n \<le> j"
  shows "get_direct w d j = get_direct w d' j"
proof (rule get_direct_cong, unfold tempex_id [OF assms(1)])
  fix m
  have "n * w \<le> j * w" using assms(3) by simp
  then show "mbit d (j * w + m) = mbit d' (j * w + m)" by (intro assms(2)) linarith
qed

lemma expand_down_moves:
  assumes v: "valid_width ow" "valid_width w" "ow \<le> w" and j: "lo \<le> j" "j < i"
  shows "get_direct w (expand_down ow w s lo i d) (j + s) = get_direct ow d j"
  using j
proof (induction i arbitrary: d)
  case (Suc i)
  define d1 where "d1 = set_direct w d (i + s) (get_direct ow d i)"
  have e: "expand_down ow w s lo (Suc i) d = expand_down ow w s lo i d1"
    using Suc.prems by (simp add: expand_down.simps [of _ _ _ _ "Suc i"] d1_def get_universal_direct v)
  have fits: "fits_width w (get_direct ow d i)"
    using fits_width_mono [OF get_direct_fits v(3,1,2)] .
  show ?case
  proof (cases "j = i")
    case True
    have "get_direct w (expand_down ow w s lo i d1) (i + s) = get_direct w d1 (i + s)"
      by (rule get_direct_above [OF v(2), of "i + s"]) (simp_all add: expand_down_frame v)
    then show ?thesis by (simp add: e True d1_def direct.get_put_same fits)
  next
    case False
    have "get_direct ow d1 j = get_direct ow d j"
    proof (rule get_direct_below [OF v(1), of i])
      fix k assume "k < i * ow"
      moreover have "i * ow \<le> (i + s) * w" using v(3) by (intro mult_le_mono) simp_all
      ultimately show "mbit d1 k = mbit d k" by (simp add: d1_def mbit_set_direct tempex_id v)
    qed (use False Suc.prems in simp)
    then show ?thesis using Suc.IH [of d1] False Suc.prems by (simp add: e)
  qed
qed simp

text \<open>The elements of a block as a list.\<close>

abbreviation slots :: "nat \<Rightarrow> nat \<Rightarrow> mem \<Rightarrow> int list" where
  "slots w n d \<equiv> map (get_direct w d) [0..<n]"

text \<open>Widening in place (\<^verbatim>\<open>Array::do_ensure_minimum_width\<close>) keeps every element.\<close>

lemma expand_down_slots:
  assumes "valid_width ow" "valid_width w" "ow \<le> w"
  shows "slots w n (expand_down ow w 0 0 n d) = slots ow n d"
  by (rule nth_equalityI) (simp_all add: expand_down_moves [OF assms, where s = 0, simplified])

subsection \<open>Making room for one element\<close>

text \<open>The byte copy \<^verbatim>\<open>std::copy_backward\<close> of \<^verbatim>\<open>Array::insert\<close> for a byte sized width, and the whole data
  part of \<^verbatim>\<open>Array::insert\<close> after the block has been made large enough.\<close>

definition shift_bytes_up :: "nat \<Rightarrow> nat \<Rightarrow> nat \<Rightarrow> mem \<Rightarrow> mem" where
  "shift_bytes_up width ndx old_size d =
     (let w = (if width = 64 then 8 else if width = 32 then 4 else if width = 16 then 2 else 1);
          src_begin = ndx * w; src_end = old_size * w
      in memmove d src_begin (src_end - src_begin) (src_begin + w))"

definition insert_data :: "bool \<Rightarrow> nat \<Rightarrow> nat \<Rightarrow> nat \<Rightarrow> nat \<Rightarrow> int \<Rightarrow> mem \<Rightarrow> mem" where
  "insert_data do_expand old_width width old_size ndx value d =
     (let d1 = (if do_expand \<or> old_width < 8 then expand_down old_width width 1 ndx old_size d
                else if ndx \<noteq> old_size then shift_bytes_up old_width ndx old_size d
                else d);
          d2 = set_direct width d1 ndx value
      in if do_expand then expand_down old_width width 0 0 ndx d2 else d2)"

lemma mbit_memmove:
  "mbit (memmove d a n b) k \<longleftrightarrow>
     (if 8 * b \<le> k \<and> k < 8 * (b + n) then mbit d (k - 8 * b + 8 * a) else mbit d k)"
proof (cases "8 * b \<le> k \<and> k < 8 * (b + n)")
  case True
  then obtain t where t: "k = 8 * b + t" using le_Suc_ex by blast
  with True have "t < 8 * n" by simp
  then have "t div 8 < n" by (simp add: div_less_iff_less_mult mult.commute)
  then have "mbit (memmove d a n b) k = mbit d (t + 8 * a)"
    by (simp add: t mbit_def memmove_def add.commute)
  then show ?thesis using True by (simp add: t)
next
  case False
  then have "\<not> (b \<le> k div 8 \<and> k div 8 < b + n)" by auto
  then have "memmove d a n b (k div 8) = d (k div 8)" unfolding memmove_def by (rule if_not_P)
  then have "mbit (memmove d a n b) k = mbit d k" by (simp only: mbit_def)
  then show ?thesis by (simp only: False if_False)
qed

lemma get_direct_memmove:
  assumes "byte_width w" "w = 8 * c"
  shows "get_direct w (memmove d (a * c) (n * c) (b * c)) j =
    (if b \<le> j \<and> j < b + n then get_direct w d (j - b + a) else get_direct w d j)"
proof -
  have t: "tempex w = w" using assms(1) by (intro tempex_id) (simp add: valid_width_cases)
  have eq: "8 * (b * c) = b * w" "8 * (b * c + n * c) = (b + n) * w" "8 * (a * c) = a * w"
    by (simp_all add: assms(2) algebra_simps)
  have up: "b \<le> j \<Longrightarrow> b * w \<le> j * w" and lo: "j < b \<Longrightarrow> j * w + w \<le> b * w"
    using mult_le_mono1 [of b j w] mult_le_mono1 [of "Suc j" b w] by simp_all
  have up2: "b + n \<le> j \<Longrightarrow> (b + n) * w \<le> j * w" and lo2: "j < b + n \<Longrightarrow> j * w + w \<le> (b + n) * w"
    using mult_le_mono1 [of "b + n" j w] mult_le_mono1 [of "Suc j" "b + n" w] by simp_all
  show ?thesis
  proof (cases "b \<le> j \<and> j < b + n")
    case True
    have "get_direct w (memmove d (a * c) (n * c) (b * c)) j = get_direct w d (j - b + a)"
    proof (rule get_direct_cong, unfold t)
      fix m assume "m < w"
      moreover obtain t where "j = b + t" using True le_Suc_ex by blast
      then have "j * w + m - b * w + a * w = (j - b + a) * w + m"
        by (simp add: algebra_simps)
      moreover have "b * w \<le> j * w + m \<and> j * w + m < (b + n) * w"
        using True up lo2 \<open>m < w\<close> by linarith
      ultimately show "mbit (memmove d (a * c) (n * c) (b * c)) (j * w + m) = mbit d ((j - b + a) * w + m)"
        unfolding mbit_memmove eq by (simp only: if_True simp_thms)
    qed
    then show ?thesis using True by simp
  next
    case False
    have "get_direct w (memmove d (a * c) (n * c) (b * c)) j = get_direct w d j"
    proof (rule get_direct_cong, unfold t)
      fix m assume "m < w"
      moreover from False consider "j < b" | "b + n \<le> j" by linarith
      then have "j * w + w \<le> b * w \<or> (b + n) * w \<le> j * w" using lo up2 by cases auto
      ultimately have "\<not> (b * w \<le> j * w + m \<and> j * w + m < (b + n) * w)" by linarith
      then show "mbit (memmove d (a * c) (n * c) (b * c)) (j * w + m) = mbit d (j * w + m)"
        unfolding mbit_memmove eq by (rule if_not_P)
    qed
    then show ?thesis using False by auto
  qed
qed

lemma shift_bytes_up_eq:
  assumes "byte_width w" "ndx \<le> n"
  shows "shift_bytes_up w ndx n d = memmove d (ndx * (w div 8)) ((n - ndx) * (w div 8)) (Suc ndx * (w div 8))"
  using assms by (auto simp: shift_bytes_up_def byte_width_def Let_def diff_mult_distrib add.commute)

text \<open>Room has been made: the elements from \<open>ndx\<close> on are one slot higher, in the new width, and no bit
  below the slot \<open>ndx\<close> has changed.\<close>

definition room_at :: "nat \<Rightarrow> nat \<Rightarrow> nat \<Rightarrow> nat \<Rightarrow> mem \<Rightarrow> mem \<Rightarrow> bool" where
  "room_at ow w n ndx d d1 \<longleftrightarrow>
     (\<forall>j. ndx \<le> j \<longrightarrow> j < n \<longrightarrow> get_direct w d1 (Suc j) = get_direct ow d j) \<and>
     (\<forall>k < ndx * w. mbit d1 k = mbit d k)"

lemma room_expand_down:
  assumes "valid_width ow" "valid_width w" "ow \<le> w"
  shows "room_at ow w n ndx d (expand_down ow w 1 ndx n d)"
  using expand_down_moves [OF assms, of ndx _ n 1 d]
  by (simp add: room_at_def expand_down_frame [OF assms(2)])

lemma room_shift_bytes_up:
  assumes "byte_width w" "ndx \<le> n"
  shows "room_at w w n ndx d (shift_bytes_up w ndx n d)"
proof -
  have c: "w = 8 * (w div 8)" using byte_width_nat [OF assms(1)] by (rule conjunct1)
  have "8 * (Suc ndx * (w div 8)) = Suc ndx * (8 * (w div 8))" by (simp only: mult.left_commute)
  then have "8 * (Suc ndx * (w div 8)) = ndx * w + w" by (simp only: c [symmetric] mult_Suc add.commute)
  then show ?thesis
    unfolding room_at_def shift_bytes_up_eq [OF assms] get_direct_memmove [OF assms(1) c] mbit_memmove
    by auto
qed

lemma insert_data_slots:
  assumes v: "valid_width ow" "valid_width w" "ow \<le> w" and ndx: "ndx \<le> n"
    and e: "\<not> do_expand \<Longrightarrow> ow = w" and fits: "fits_width w value"
  shows "slots w (Suc n) (insert_data do_expand ow w n ndx value d) = list_insert ndx value (slots ow n d)"
proof -
  define d1 where "d1 = (if do_expand \<or> ow < 8 then expand_down ow w 1 ndx n d
                else if ndx \<noteq> n then shift_bytes_up ow ndx n d else d)"
  define d2 where "d2 = set_direct w d1 ndx value"
  have w8: "byte_width w" if "\<not> do_expand" "\<not> ow < 8"
    using that e v(2) by (auto simp: valid_width_cases small_width_def)
  have "room_at ow w n ndx d d1"
    using room_expand_down [OF v] room_shift_bytes_up [OF w8 ndx] e
    by (auto simp: d1_def room_at_def)
  then have up: "\<And>j. ndx \<le> j \<Longrightarrow> j < n \<Longrightarrow> get_direct w d1 (Suc j) = get_direct ow d j"
    and low: "\<And>k. k < ndx * w \<Longrightarrow> mbit d1 k = mbit d k"
    by (simp_all add: room_at_def)
  have low2: "mbit d2 k = mbit d k" if "k < ndx * w" for k
    using that low by (simp add: d2_def mbit_set_direct tempex_id v)
  have below: "get_direct ow d2 j = get_direct ow d j" if "j < ndx" for j
  proof (rule get_direct_below [OF v(1) _ that])
    fix k assume "k < ndx * ow"
    moreover have "ndx * ow \<le> ndx * w" using v(3) by simp
    ultimately show "mbit d2 k = mbit d k" by (intro low2) linarith
  qed
  define d3 where "d3 = (if do_expand then expand_down ow w 0 0 ndx d2 else d2)"
  have d3: "insert_data do_expand ow w n ndx value d = d3"
    by (simp add: insert_data_def Let_def d1_def d2_def d3_def)
  have lo3: "get_direct w d3 j = get_direct ow d j" if "j < ndx" for j
    using that below e expand_down_moves [OF v, of 0 j ndx 0 d2] by (auto simp: d3_def)
  have hi3: "get_direct w d3 j = get_direct w d2 j" if "ndx \<le> j" for j
    using get_direct_above [OF v(2), of ndx d3 d2 j] that
    by (auto simp: d3_def expand_down_frame [OF v(2)])
  have "get_direct w d3 j = list_insert ndx value (slots ow n d) ! j" if "j \<le> n" for j
  proof -
    consider "j < ndx" | "j = ndx" | "ndx < j" by linarith
    then show ?thesis
    proof cases
      case 3
      then have "get_direct w d1 j = get_direct ow d (j - 1)" using up [of "j - 1"] that by simp
      then show ?thesis using 3 that ndx hi3 [of j] by (simp add: nth_list_insert d2_def direct.get_put fits)
    qed (use that ndx in \<open>simp_all add: nth_list_insert lo3 hi3 d2_def direct.get_put fits\<close>)
  qed
  then show ?thesis
    using ndx by (intro nth_equalityI) (auto simp: d3 length_list_insert less_Suc_eq_le simp del: upt_Suc)
qed

subsection \<open>Moving a range\<close>

text \<open>The loop \<open>for (i = begin; i != end; ++i) setter(dest_begin++, getter(i))\<close>, where \<open>begin \<le> end\<close> has
  been asserted, and the choice between it and the byte copy.\<close>

function move_elems :: "nat \<Rightarrow> nat \<Rightarrow> nat \<Rightarrow> nat \<Rightarrow> mem \<Rightarrow> mem" where
  "move_elems w i fin dest d =
     (if i < fin then move_elems w (Suc i) fin (Suc dest) (set_direct w d dest (get_universal w d i)) else d)"
  by pat_completeness auto
termination
  by (relation "measure (\<lambda>(w, i, fin, dest, d). fin - i)") auto

declare move_elems.simps [simp del]

definition move_data :: "nat \<Rightarrow> nat \<Rightarrow> nat \<Rightarrow> nat \<Rightarrow> mem \<Rightarrow> mem" where
  "move_data bits_per_elem first fin dest_begin d =
     (if bits_per_elem < 8 then move_elems bits_per_elem first fin dest_begin d
      else let bytes_per_elem = bits_per_elem div 8;
               begin_2 = first * bytes_per_elem; end_2 = fin * bytes_per_elem;
               dest_begin_2 = dest_begin * bytes_per_elem
           in memmove d begin_2 (end_2 - begin_2) dest_begin_2)"

lemma get_move_elems:
  assumes v: "valid_width w" and "\<not> (b \<le> dest \<and> dest < e)"
  shows "get_direct w (move_elems w b e dest d) j =
    (if dest \<le> j \<and> j < dest + (e - b) then get_direct w d (j - dest + b) else get_direct w d j)"
  using assms(2)
proof (induction "e - b" arbitrary: b dest d)
  case 0
  then show ?case by (simp add: move_elems.simps)
next
  case (Suc m)
  define d1 where "d1 = set_direct w d dest (get_direct w d b)"
  have b: "b < e" using Suc.hyps(2) by simp
  have g: "get_direct w d1 k = (if k = dest then get_direct w d b else get_direct w d k)" for k
    by (simp add: d1_def direct.get_put get_direct_fits)
  have "get_direct w (move_elems w (Suc b) e (Suc dest) d1) j =
      (if Suc dest \<le> j \<and> j < Suc dest + (e - Suc b) then get_direct w d1 (j - Suc dest + Suc b)
       else get_direct w d1 j)"
    using Suc.hyps(2) Suc.prems by (intro Suc.hyps(1)) auto
  moreover have "j - Suc dest + Suc b = j - dest + b" "j - dest + b \<noteq> dest"
    if "Suc dest \<le> j" "j < Suc dest + (e - Suc b)"
    using that Suc.prems b by linarith+
  ultimately show ?case
    using b by (auto simp: move_elems.simps [of w b] get_universal_direct v d1_def [symmetric] g)
qed

lemma get_move_data:
  assumes v: "valid_width w" and "\<not> (b \<le> dest \<and> dest < e)"
  shows "get_direct w (move_data w b e dest d) j =
    (if dest \<le> j \<and> j < dest + (e - b) then get_direct w d (j - dest + b) else get_direct w d j)"
proof (cases "w < 8")
  case True
  then show ?thesis by (simp add: move_data_def get_move_elems [OF assms])
next
  case False
  then have bw: "byte_width w" using v by (auto simp: valid_width_cases small_width_def)
  have c: "w = 8 * (w div 8)" using byte_width_nat [OF bw] by (rule conjunct1)
  show ?thesis
    using False by (simp add: move_data_def Let_def diff_mult_distrib [symmetric] get_direct_memmove [OF bw c])
qed

text \<open>The list operation: the elements from \<open>b\<close> to \<open>e\<close> overwrite those from \<open>dest\<close> on.\<close>

definition list_move :: "nat \<Rightarrow> nat \<Rightarrow> nat \<Rightarrow> 'c list \<Rightarrow> 'c list" where
  "list_move b e dest xs = take dest xs @ take (e - b) (drop b xs) @ drop (dest + (e - b)) xs"

lemma list_move_erase:
  "b \<le> e \<Longrightarrow> e \<le> length xs \<Longrightarrow>
     take (length xs - (e - b)) (list_move e (length xs) b xs) = list_erase b e xs"
  by (simp add: list_move_def list_erase_def)

lemma nth_list_move:
  assumes "b \<le> e" "e \<le> length xs" "dest + (e - b) \<le> length xs" "j < length xs"
  shows "list_move b e dest xs ! j = (if dest \<le> j \<and> j < dest + (e - b) then xs ! (j - dest + b) else xs ! j)"
proof -
  have l: "length (take dest xs) = dest" "length (take (e - b) (drop b xs)) = e - b"
    using assms by simp_all
  show ?thesis
    using assms unfolding list_move_def nth_append l by (auto simp: add.commute)
qed

lemma length_list_move:
  "b \<le> e \<Longrightarrow> e \<le> length xs \<Longrightarrow> dest + (e - b) \<le> length xs \<Longrightarrow> length (list_move b e dest xs) = length xs"
  by (simp add: list_move_def)

lemma move_data_slots:
  assumes "valid_width w" "\<not> (b \<le> dest \<and> dest < e)" "b \<le> e" "e \<le> n" "dest + (e - b) \<le> n"
  shows "slots w n (move_data w b e dest d) = list_move b e dest (slots w n d)"
  using assms(3-5) by (intro nth_equalityI)
    (auto simp: length_list_move nth_list_move get_move_data [OF assms(1,2)])

end
