(* ===== verification/Allocator.thy ===== *)
theory Allocator
  imports Node_Header
begin

text \<open>
  The interface every allocator offers (\<^verbatim>\<open>src/barq/alloc.hpp\<close>, class \<open>Allocator\<close>). The virtual
  functions are the fields of a record, over the state \<open>'a\<close> of the implementation; the
  non-virtual entry points check the read-only flag and dispatch. A \<open>MemRef\<close> is a ref together
  with the contents of the block it points to: a block belongs to the node accessor that holds
  it until it is given back, and the contents of a fresh block are whatever the implementation
  returns.

  The locale states what node accessors rely on. \<open>owned s r k\<close> says that the mutable block at
  \<open>r\<close> is in use and was requested with \<open>k\<close> bytes.
\<close>

type_synonym mem_ref = "nat \<times> mem"

record 'a alloc_class =
  do_alloc :: "nat \<Rightarrow> 'a \<Rightarrow> (mem_ref \<times> 'a) result"
  do_realloc :: "nat \<Rightarrow> mem \<Rightarrow> nat \<Rightarrow> nat \<Rightarrow> 'a \<Rightarrow> (mem_ref \<times> 'a) result"
  do_free :: "nat \<Rightarrow> mem \<Rightarrow> 'a \<Rightarrow> 'a result"
  baseline :: "'a \<Rightarrow> nat"
  is_read_only_mode :: "'a \<Rightarrow> bool"

definition alloc :: "'a alloc_class \<Rightarrow> nat \<Rightarrow> 'a \<Rightarrow> (mem_ref \<times> 'a) result" where
  "alloc A sz s = (if is_read_only_mode A s then Inl WrongTransactionState else do_alloc A sz s)"

definition realloc_mem :: "'a alloc_class \<Rightarrow> nat \<Rightarrow> mem \<Rightarrow> nat \<Rightarrow> nat \<Rightarrow> 'a \<Rightarrow> (mem_ref \<times> 'a) result" where
  "realloc_mem A ref addr old_size new_size s =
     (if is_read_only_mode A s then Inl WrongTransactionState
      else do_realloc A ref addr old_size new_size s)"

definition free_mem :: "'a alloc_class \<Rightarrow> nat \<Rightarrow> mem \<Rightarrow> 'a \<Rightarrow> 'a result" where
  "free_mem A ref addr s =
     rbind (rassert (\<not> is_read_only_mode A s)) (\<lambda>_. do_free A ref addr s)"

definition is_read_only :: "'a alloc_class \<Rightarrow> 'a \<Rightarrow> nat \<Rightarrow> bool" where
  "is_read_only A s ref \<longleftrightarrow> ref < baseline A s"

locale allocator =
  fixes A :: "'a alloc_class"
    and ainv :: "'a \<Rightarrow> bool"
    and owned :: "'a \<Rightarrow> nat \<Rightarrow> nat \<Rightarrow> bool"
  assumes alloc_law:
    "\<lbrakk>ainv s; do_alloc A n s = Inr ((r, m), s'); 0 < n; n mod 8 = 0\<rbrakk> \<Longrightarrow>
       ainv s' \<and> baseline A s' = baseline A s \<and> is_read_only_mode A s' = is_read_only_mode A s \<and>
       r mod 8 = 0 \<and> r \<noteq> 0 \<and> baseline A s \<le> r \<and> owned s' r n \<and> (\<forall>k. \<not> owned s r k) \<and>
       (\<forall>r' k. r' \<noteq> r \<longrightarrow> owned s' r' k = owned s r' k)"
    and realloc_law:
    "\<lbrakk>ainv s; do_realloc A r m old new s = Inr ((r', m'), s'); baseline A s \<le> r;
      owned s r (get_capacity_from_header m); old = get_capacity_from_header m; old < new; new mod 8 = 0\<rbrakk> \<Longrightarrow>
       ainv s' \<and> baseline A s' = baseline A s \<and> is_read_only_mode A s' = is_read_only_mode A s \<and>
       r' mod 8 = 0 \<and> r' \<noteq> 0 \<and> baseline A s \<le> r' \<and> (\<forall>i < old. m' i = m i) \<and>
       owned s' r' new \<and> (r' \<noteq> r \<longrightarrow> (\<forall>k. \<not> owned s r' k \<and> \<not> owned s' r k)) \<and>
       (\<forall>q k. q \<noteq> r \<longrightarrow> q \<noteq> r' \<longrightarrow> owned s' q k = owned s q k)"
    and free_law:
    "\<lbrakk>ainv s; do_free A r m s = Inr s'; baseline A s \<le> r \<longrightarrow> owned s r (get_capacity_from_header m)\<rbrakk> \<Longrightarrow>
       ainv s' \<and> baseline A s' = baseline A s \<and> is_read_only_mode A s' = is_read_only_mode A s \<and>
       (baseline A s \<le> r \<longrightarrow> (\<forall>k. \<not> owned s' r k)) \<and>
       (\<forall>q k. q \<noteq> r \<longrightarrow> owned s' q k = owned s q k)"
begin

lemmas allocator_laws = alloc_law realloc_law free_law

end

end
