(* ===== verification/Node.thy ===== *)
theory Node
  imports Allocator
begin

unbundle bit_operations_syntax

text \<open>
  The node accessor (\<^verbatim>\<open>src/barq/node.hpp\<close>, \<^verbatim>\<open>src/barq/node.cpp\<close>, class \<open>Node\<close>): the ref and the bytes of
  the attached block, the cached size, the link to the parent and the allocator. The parent is
  modelled by what it stores for this child: \<open>m_parent_ref\<close> is \<open>None\<close> when the accessor has no
  parent, and otherwise the ref in the parent's slot, which \<^verbatim>\<open>update_child_ref\<close> overwrites.
  Growing a node may move it (\<^verbatim>\<open>Node::alloc\<close>), and changing a node in the immutable part of the
  file copies it first (\<^verbatim>\<open>Node::do_copy_on_write\<close>).
\<close>

record 'a node =
  m_alloc :: 'a
  m_ref :: nat
  m_block :: mem
  m_attached :: bool
  m_size :: nat
  m_parent_ref :: "nat option"
  m_missing_parent_update :: bool

definition initial_capacity :: nat where
  "initial_capacity = 128"

definition node_data :: "('a, 'b) node_scheme \<Rightarrow> mem" where
  "node_data n = get_data_from_header (m_block n)"

definition set_node_data :: "mem \<Rightarrow> ('a, 'b) node_scheme \<Rightarrow> ('a, 'b) node_scheme" where
  "set_node_data d n = n\<lparr>m_block := with_data (m_block n) d\<rparr>"

definition init_from_mem :: "mem_ref \<Rightarrow> ('a, 'b) node_scheme \<Rightarrow> ('a, 'b) node_scheme" where
  "init_from_mem mem n =
     n\<lparr>m_ref := fst mem, m_block := snd mem, m_attached := True,
       m_size := get_size_from_header (snd mem)\<rparr>"

definition node_is_read_only :: "'a alloc_class \<Rightarrow> ('a, 'b) node_scheme \<Rightarrow> bool" where
  "node_is_read_only A n \<longleftrightarrow> is_read_only A (m_alloc n) (m_ref n)"

definition detach :: "('a, 'b) node_scheme \<Rightarrow> ('a, 'b) node_scheme" where
  "detach n = n\<lparr>m_attached := False\<rparr>"

definition destroy :: "'a alloc_class \<Rightarrow> ('a, 'b) node_scheme \<Rightarrow> ('a, 'b) node_scheme result" where
  "destroy A n =
     (if \<not> m_attached n then Inr n
      else rbind (free_mem A (m_ref n) (m_block n) (m_alloc n)) (\<lambda>s.
        Inr (n\<lparr>m_alloc := s, m_attached := False\<rparr>)))"

definition update_parent :: "('a, 'b) node_scheme \<Rightarrow> ('a, 'b) node_scheme" where
  "update_parent n =
     (case m_parent_ref n of
        Some _ \<Rightarrow> n\<lparr>m_parent_ref := Some (m_ref n)\<rparr>
      | None \<Rightarrow> n\<lparr>m_missing_parent_update := True\<rparr>)"

definition clear_missing_parent_update :: "('a, 'b) node_scheme \<Rightarrow> ('a, 'b) node_scheme" where
  "clear_missing_parent_update n = n\<lparr>m_missing_parent_update := False\<rparr>"

definition create_node ::
  "'a alloc_class \<Rightarrow> nat \<Rightarrow> bool \<Rightarrow> node_type \<Rightarrow> width_type \<Rightarrow> nat \<Rightarrow> 'a \<Rightarrow> (mem_ref \<times> 'a) result" where
  "create_node A sz context_flag type width_type width s =
     rbind (calc_byte_size width_type sz width) (\<lambda>byte_size_0.
       let byte_size = max byte_size_0 initial_capacity
       in rbind (alloc A byte_size s) (\<lambda>((ref, header), s').
          rbind (init_header header (type = type_InnerBptreeNode) (type \<noteq> type_Normal) context_flag
                   width_type width sz byte_size) (\<lambda>header'.
          Inr ((ref, header'), s'))))"

definition calc_byte_len :: "mem \<Rightarrow> nat \<Rightarrow> nat \<Rightarrow> nat result" where
  "calc_byte_len header num_items width =
     rbind (rassert (get_wtype_from_header header = wtype_Bits)) (\<lambda>_.
       let bits = num_items * width; bytes = (bits + 7) div 8
       in Inr (bytes + header_size))"

text \<open>Zero width gives "infinite" space.\<close>

definition calc_item_count :: "nat \<Rightarrow> nat \<Rightarrow> nat" where
  "calc_item_count bytes width =
     (if width = 0 then 2 ^ 64 - 1
      else let bytes_data = bytes - header_size; total_bits = bytes_data * 8
           in total_bits div width)"

definition do_copy_on_write ::
  "'a alloc_class \<Rightarrow> nat \<Rightarrow> ('a, 'b) node_scheme \<Rightarrow> ('a, 'b) node_scheme result" where
  "do_copy_on_write A minimum_size n =
     (let header = m_block n
      in rbind (calc_byte_size (get_wtype_from_header header) (m_size n) (get_width_from_header header))
           (\<lambda>array_size.
         let new_size = round_up8 (max array_size minimum_size) + 64
         in rbind (alloc A new_size (m_alloc n)) (\<lambda>((new_ref, new_mem), s).
            let new_begin = copy_n header array_size new_mem; old_ref = m_ref n
            in rbind (set_capacity_in_header new_size new_begin) (\<lambda>new_begin'.
               let n' = update_parent (n\<lparr>m_alloc := s, m_ref := new_ref, m_block := new_begin'\<rparr>)
               in rbind (free_mem A old_ref header (m_alloc n')) (\<lambda>s'.
                  Inr (n'\<lparr>m_alloc := s'\<rparr>))))))"

definition copy_on_write ::
  "'a alloc_class \<Rightarrow> ('a, 'b) node_scheme \<Rightarrow> ('a, 'b) node_scheme result" where
  "copy_on_write A n = (if node_is_read_only A n then do_copy_on_write A 0 n else Inr n)"

definition copy_on_write_min ::
  "'a alloc_class \<Rightarrow> nat \<Rightarrow> ('a, 'b) node_scheme \<Rightarrow> ('a, 'b) node_scheme result" where
  "copy_on_write_min A min_size n =
     (if node_is_read_only A n then do_copy_on_write A min_size n else Inr n)"

definition ensure_size ::
  "'a alloc_class \<Rightarrow> nat \<Rightarrow> ('a, 'b) node_scheme \<Rightarrow> ('a, 'b) node_scheme result" where
  "ensure_size A min_size n =
     (if get_capacity_from_header (m_block n) < min_size then do_copy_on_write A min_size n else Inr n)"

text \<open>The capacity \<^verbatim>\<open>Node::alloc\<close> asks for: twice the old one, at most the largest payload, and at
  least the needed bytes rounded up to a multiple of eight.\<close>

definition grown_capacity :: "nat \<Rightarrow> nat \<Rightarrow> nat" where
  "grown_capacity orig_capacity_bytes needed_bytes =
     (let new0 = orig_capacity_bytes * 2 mod 2 ^ 64;
          new1 = (if new0 < orig_capacity_bytes then max_array_payload_aligned else new0);
          new2 = (if max_array_payload_aligned < new1 then max_array_payload_aligned else new1)
      in if new2 < needed_bytes
         then let rest = nat (NOT (int needed_bytes) AND 7) + 1
              in if rest < 8 then needed_bytes + rest else needed_bytes
         else new2)"

text \<open>The reallocation branch of \<^verbatim>\<open>Node::alloc\<close>, taken when the block is too small.\<close>

definition grow_block ::
  "'a alloc_class \<Rightarrow> nat \<Rightarrow> ('a, 'b) node_scheme \<Rightarrow> ('a, 'b) node_scheme result" where
  "grow_block A needed_bytes n =
     (let header = m_block n;
          orig_capacity_bytes = get_capacity_from_header header
      in if orig_capacity_bytes < needed_bytes
         then let new_capacity_bytes = grown_capacity orig_capacity_bytes needed_bytes
              in rbind (realloc_mem A (m_ref n) header orig_capacity_bytes new_capacity_bytes (m_alloc n))
                   (\<lambda>((ref, header'), s).
                 rbind (set_capacity_in_header new_capacity_bytes header') (\<lambda>header''.
                 Inr (update_parent (n\<lparr>m_alloc := s, m_ref := ref, m_block := header''\<rparr>))))
         else Inr n)"

definition node_alloc ::
  "'a alloc_class \<Rightarrow> nat \<Rightarrow> nat \<Rightarrow> ('a, 'b) node_scheme \<Rightarrow> ('a, 'b) node_scheme result" where
  "node_alloc A init_size new_width n =
     rbind (rassert (m_attached n)) (\<lambda>_.
     rbind (calc_byte_len (m_block n) init_size new_width) (\<lambda>needed_bytes.
     rbind (rassert (init_size \<le> max_array_size)) (\<lambda>_.
     rbind (if node_is_read_only A n then do_copy_on_write A needed_bytes n else Inr n) (\<lambda>n1.
     rbind (rassert (\<not> node_is_read_only A n1)) (\<lambda>_.
       let orig_width = get_width_from_header (m_block n1)
       in rbind (grow_block A needed_bytes n1) (\<lambda>n2.
         rbind (if new_width \<noteq> orig_width then set_width_in_header new_width (m_block n2)
                else Inr (m_block n2)) (\<lambda>header2.
         rbind (set_size_in_header init_size header2) (\<lambda>header3.
         Inr (n2\<lparr>m_block := header3, m_size := init_size\<rparr>)))))))))"

subsection \<open>Capacities\<close>

lemma rest_eq: "nat (NOT (int n) AND 7) + 1 = 8 - n mod 8"
proof -
  have "NOT (int n) AND 7 = take_bit 3 (NOT (int n))"
    by (simp add: take_bit_eq_mask mask_eq_exp_minus_1)
  also have "\<dots> = mask 3 - take_bit 3 (int n)" by (rule take_bit_not_eq_mask_diff)
  also have "\<dots> = int (7 - n mod 8)"
    by (simp add: mask_eq_exp_minus_1 take_bit_eq_mod of_nat_diff zmod_int less_Suc_eq_le [symmetric])
  finally show ?thesis by (simp add: Suc_diff_le)
qed

lemma grown_capacity_ge: "needed \<le> grown_capacity orig needed"
  by (simp add: grown_capacity_def Let_def)

lemma grown_capacity_mod8:
  assumes "orig mod 8 = 0"
  shows "grown_capacity orig needed mod 8 = 0"
proof -
  have o: "orig * 2 mod 2 ^ 64 mod 8 = 0"
    using assms by (simp add: mod_mod_cancel) presburger
  have r: "(needed + (8 - needed mod 8)) mod 8 = 0"
    by (metis le_add_diff_inverse less_imp_le_nat mod_add_left_eq mod_less_divisor mod_self zero_less_numeral)
  show ?thesis
    using o r rest_eq [of needed]
    by (auto simp: grown_capacity_def Let_def max_array_payload_aligned_def)
qed

subsection \<open>Invariant of an accessor\<close>

definition parent_ok :: "('a, 'b) node_scheme \<Rightarrow> bool" where
  "parent_ok n \<longleftrightarrow> m_parent_ref n = None \<or> m_parent_ref n = Some (m_ref n)"

definition payload_bytes :: "nat \<Rightarrow> nat \<Rightarrow> nat" where
  "payload_bytes sz width = (sz * width + 7) div 8"

definition node_inv ::
  "'a alloc_class \<Rightarrow> ('a \<Rightarrow> bool) \<Rightarrow> ('a \<Rightarrow> nat \<Rightarrow> nat \<Rightarrow> bool) \<Rightarrow> ('a, 'b) node_scheme \<Rightarrow> bool" where
  "node_inv A ainv owned n \<longleftrightarrow>
     ainv (m_alloc n) \<and> m_attached n \<and> parent_ok n \<and>
     get_wtype_from_header (m_block n) = wtype_Bits \<and>
     m_size n = get_size_from_header (m_block n) \<and>
     (\<not> node_is_read_only A n \<longrightarrow>
        owned (m_alloc n) (m_ref n) (get_capacity_from_header (m_block n)) \<and>
        get_capacity_from_header (m_block n) mod 8 = 0 \<and>
        header_size + payload_bytes (m_size n) (get_width_from_header (m_block n))
          \<le> get_capacity_from_header (m_block n))"

lemma update_parent_simps [simp]:
  "m_alloc (update_parent n) = m_alloc n" "m_ref (update_parent n) = m_ref n"
  "m_block (update_parent n) = m_block n" "m_attached (update_parent n) = m_attached n"
  "m_size (update_parent n) = m_size n" "node.more (update_parent n) = node.more n"
  "parent_ok (update_parent n)" "parent_ok ((update_parent n)\<lparr>m_alloc := s\<rparr>)"
  "parent_ok ((update_parent n)\<lparr>m_block := h, m_size := k\<rparr>)"
  by (auto simp: update_parent_def parent_ok_def split: option.splits)

text \<open>What moving a node to another block keeps: everything a reader of the node sees.\<close>

definition node_kept :: "('a, 'b) node_scheme \<Rightarrow> ('a, 'b) node_scheme \<Rightarrow> bool" where
  "node_kept n n' \<longleftrightarrow>
     header_kind (m_block n') = header_kind (m_block n) \<and>
     get_width_from_header (m_block n') = get_width_from_header (m_block n) \<and>
     m_size n' = m_size n \<and> node.more n' = node.more n \<and>
     (\<forall>i < payload_bytes (m_size n) (get_width_from_header (m_block n)). node_data n' i = node_data n i)"

lemma node_kept_refl [simp]: "node_kept n n"
  by (simp add: node_kept_def)

lemma node_kept_trans: "node_kept n n' \<Longrightarrow> node_kept n' n'' \<Longrightarrow> node_kept n n''"
  by (simp add: node_kept_def)

text \<open>What an operation on one accessor keeps of the allocator for every other one: their blocks stay
  theirs, and so does the border of the read-only space.\<close>

definition others_kept ::
  "'a alloc_class \<Rightarrow> ('a \<Rightarrow> nat \<Rightarrow> nat \<Rightarrow> bool) \<Rightarrow> ('a, 'b) node_scheme \<Rightarrow> ('a, 'b) node_scheme \<Rightarrow> bool" where
  "others_kept A owned n n' \<longleftrightarrow>
     baseline A (m_alloc n') = baseline A (m_alloc n) \<and>
     (\<forall>q k. q \<noteq> m_ref n \<longrightarrow> owned (m_alloc n) q k \<longrightarrow> q \<noteq> m_ref n' \<and> owned (m_alloc n') q k)"

lemma others_kept_refl [simp]: "others_kept A owned n n"
  by (simp add: others_kept_def)

lemma others_kept_trans:
  "others_kept A owned n n' \<Longrightarrow> others_kept A owned n' n'' \<Longrightarrow> others_kept A owned n n''"
  unfolding others_kept_def by metis

context allocator
begin

lemma do_copy_on_write_correct:
  assumes inv: "node_inv A ainv owned n" and ok: "do_copy_on_write A min_size n = Inr n'"
  shows "node_inv A ainv owned n'" "\<not> node_is_read_only A n'" "node_kept n n'"
    "others_kept A owned n n'" "min_size \<le> get_capacity_from_header (m_block n')"
proof -
  define h where "h = m_block n"
  have att: "m_attached n" "get_wtype_from_header (m_block n) = wtype_Bits"
    using inv by (simp_all add: node_inv_def)
  obtain array_size new_ref new_mem s nb s' where
    as: "calc_byte_size wtype_Bits (m_size n) (get_width_from_header h) = Inr array_size"
    and al: "alloc A (round_up8 (max array_size min_size) + 64) (m_alloc n) = Inr ((new_ref, new_mem), s)"
    and cap: "set_capacity_in_header (round_up8 (max array_size min_size) + 64)
      (copy_n h array_size new_mem) = Inr nb"
    and fr: "free_mem A (m_ref n) h s = Inr s'"
    and n': "n' = (update_parent (n\<lparr>m_alloc := s, m_ref := new_ref, m_block := nb\<rparr>))\<lparr>m_alloc := s'\<rparr>"
    using ok att by (auto simp: do_copy_on_write_def Let_def result_simps h_def)
  define new_size where "new_size = round_up8 (max array_size min_size) + 64"
  have new8: "new_size mod 8 = 0" "0 < new_size"
    by (simp_all add: new_size_def mod_add_eq [symmetric])
  have a_eq: "array_size = round_up8 (payload_bytes (m_size n) (get_width_from_header h)) + 8"
    using as by (simp add: calc_byte_size_bits payload_bytes_def split: if_splits)
  have big: "array_size \<le> new_size" "min_size \<le> new_size"
    using round_up8_ge [of "max array_size min_size"] by (simp_all add: new_size_def)
  have da: "do_alloc A new_size (m_alloc n) = Inr ((new_ref, new_mem), s)"
    using al by (simp add: alloc_def new_size_def split: if_splits)
  note AL = alloc_law [OF _ da new8(2,1)]
  have ainv: "ainv (m_alloc n)" using inv by (simp add: node_inv_def)
  have df: "do_free A (m_ref n) h s = Inr s'" using fr by (simp add: free_mem_def result_simps)
  have own: "baseline A s \<le> m_ref n \<longrightarrow> owned s (m_ref n) (get_capacity_from_header h)"
  proof
    assume "baseline A s \<le> m_ref n"
    then have "owned (m_alloc n) (m_ref n) (get_capacity_from_header h)"
      using inv AL [OF ainv] by (auto simp: node_inv_def node_is_read_only_def is_read_only_def h_def)
    then show "owned s (m_ref n) (get_capacity_from_header h)" using AL [OF ainv] by metis
  qed
  have "ainv s" using AL [OF ainv] by simp
  note FL = free_law [OF this df own]
  have neq: "new_ref \<noteq> m_ref n"
  proof
    assume "new_ref = m_ref n"
    then show False
      using inv AL [OF ainv] by (auto simp: node_inv_def node_is_read_only_def is_read_only_def)
  qed
  note cf = set_capacity_fields [OF cap [folded new_size_def] new8(1)]
  have hb: "copy_n h array_size new_mem i = h i" if "i < 8" for i
    using that by (simp add: copy_n_def a_eq)
  note hc = header_bytes_cong [of "copy_n h array_size new_mem" h, OF hb]
  have fields: "header_kind nb = header_kind h" "get_width_from_header nb = get_width_from_header h"
    "get_size_from_header nb = get_size_from_header h" "get_capacity_from_header nb = new_size"
    using cf hc set_capacity_kind [OF cap [folded new_size_def] new8(1)] by simp_all
  have data: "get_data_from_header nb i = get_data_from_header h i"
    if "i < payload_bytes (m_size n) (get_width_from_header h)" for i
    using cf(8) that round_up8_ge [of "payload_bytes (m_size n) (get_width_from_header h)"]
    by (simp add: get_data_from_header_def copy_n_def a_eq header_size_def)
  show "node_kept n n'" "min_size \<le> get_capacity_from_header (m_block n')"
    using fields big data by (simp_all add: node_kept_def n' h_def node_data_def)
  show ro: "\<not> node_is_read_only A n'"
    using AL [OF ainv] FL by (simp add: node_is_read_only_def is_read_only_def n')
  show "others_kept A owned n n'"
    using AL [OF ainv] FL by (auto simp: others_kept_def n')
  have "owned s' new_ref new_size" using AL [OF ainv] FL neq by simp
  then show "node_inv A ainv owned n'"
    using inv FL fields big a_eq new8 header_kind_wtype [OF fields(1)]
      round_up8_ge [of "payload_bytes (m_size n) (get_width_from_header h)"]
    by (simp add: node_inv_def n' h_def header_size_def)
qed

lemma copy_on_write_correct:
  assumes "node_inv A ainv owned n" "copy_on_write A n = Inr n'"
  shows "node_inv A ainv owned n'" "\<not> node_is_read_only A n'" "node_kept n n'" "others_kept A owned n n'"
  using assms do_copy_on_write_correct [OF assms(1)]
  by (auto simp: copy_on_write_def split: if_splits)

lemma realloc_node_correct:
  assumes inv: "node_inv A ainv owned n" and ro: "\<not> node_is_read_only A n"
    and ra: "realloc_mem A (m_ref n) (m_block n) (get_capacity_from_header (m_block n)) new_cap (m_alloc n)
      = Inr ((ref, header), s)"
    and sc: "set_capacity_in_header new_cap header = Inr header'"
    and new: "get_capacity_from_header (m_block n) < new_cap" "new_cap mod 8 = 0"
    and n': "n' = update_parent (n\<lparr>m_alloc := s, m_ref := ref, m_block := header'\<rparr>)"
  shows "node_inv A ainv owned n'" "\<not> node_is_read_only A n'" "node_kept n n'"
    "others_kept A owned n n'" "get_capacity_from_header (m_block n') = new_cap"
proof -
  have dr: "do_realloc A (m_ref n) (m_block n) (get_capacity_from_header (m_block n)) new_cap (m_alloc n)
      = Inr ((ref, header), s)"
    using ra by (simp add: realloc_mem_def split: if_splits)
  have ni: "ainv (m_alloc n)" "baseline A (m_alloc n) \<le> m_ref n"
    "owned (m_alloc n) (m_ref n) (get_capacity_from_header (m_block n))"
    "8 + payload_bytes (m_size n) (get_width_from_header (m_block n)) \<le> get_capacity_from_header (m_block n)"
    using inv ro by (auto simp: node_inv_def node_is_read_only_def is_read_only_def header_size_def)
  note RL = realloc_law [OF ni(1) dr ni(2,3) refl new]
  have eq: "header i = m_block n i" if "i < get_capacity_from_header (m_block n)" for i
    using RL that by simp
  have hb: "header i = m_block n i" if "i < 8" for i
    using eq [of i] that ni(4) by simp
  note hc = header_bytes_cong [of header "m_block n", OF hb]
  note cf = set_capacity_fields [OF sc new(2)]
  have fields: "header_kind header' = header_kind (m_block n)"
    "get_width_from_header header' = get_width_from_header (m_block n)"
    "get_size_from_header header' = get_size_from_header (m_block n)"
    "get_capacity_from_header header' = new_cap"
    using hc cf set_capacity_kind [OF sc new(2)] by simp_all
  have data: "get_data_from_header header' i = get_data_from_header (m_block n) i"
    if "i < payload_bytes (m_size n) (get_width_from_header (m_block n))" for i
    using cf(8) that eq [of "i + 8"] ni(4)
    by (simp add: get_data_from_header_def header_size_def add.commute)
  show "node_kept n n'" "get_capacity_from_header (m_block n') = new_cap"
    using fields data by (simp_all add: node_kept_def n' node_data_def)
  show "\<not> node_is_read_only A n'" "others_kept A owned n n'"
    using RL by (auto simp: node_is_read_only_def is_read_only_def n' others_kept_def)
  show "node_inv A ainv owned n'"
    using inv RL fields new ni(4) header_kind_wtype [OF fields(1)]
    by (simp add: node_inv_def n' header_size_def)
qed

lemma grow_block_correct:
  assumes inv: "node_inv A ainv owned n" and ro: "\<not> node_is_read_only A n"
    and ok: "grow_block A needed n = Inr n'"
  shows "node_inv A ainv owned n'" "\<not> node_is_read_only A n'" "node_kept n n'"
    "others_kept A owned n n'" "needed \<le> get_capacity_from_header (m_block n')"
proof -
  define cap where "cap = get_capacity_from_header (m_block n)"
  have cap8: "cap mod 8 = 0" using inv ro by (simp add: node_inv_def cap_def)
  have "node_inv A ainv owned n' \<and> \<not> node_is_read_only A n' \<and> node_kept n n' \<and>
      others_kept A owned n n' \<and> needed \<le> get_capacity_from_header (m_block n')"
  proof (cases "cap < needed")
    case False
    then show ?thesis using ok inv ro by (simp add: grow_block_def cap_def)
  next
    case True
    from ok True obtain ref header s header' where
      "realloc_mem A (m_ref n) (m_block n) cap (grown_capacity cap needed) (m_alloc n) = Inr ((ref, header), s)"
      "set_capacity_in_header (grown_capacity cap needed) header = Inr header'"
      "n' = update_parent (n\<lparr>m_alloc := s, m_ref := ref, m_block := header'\<rparr>)"
      by (auto simp: grow_block_def Let_def cap_def result_simps)
    from realloc_node_correct [OF inv ro this(1) [unfolded cap_def] this(2) [unfolded cap_def] _
        grown_capacity_mod8 [OF cap8 [unfolded cap_def]] this(3)]
    show ?thesis using True grown_capacity_ge [of needed cap] by (simp add: cap_def)
  qed
  then show "node_inv A ainv owned n'" "\<not> node_is_read_only A n'" "node_kept n n'"
    "others_kept A owned n n'" "needed \<le> get_capacity_from_header (m_block n')" by simp_all
qed

lemma node_alloc_correct:
  assumes inv: "node_inv A ainv owned n" and ok: "node_alloc A init_size new_width n = Inr n'"
    and w: "valid_width new_width"
  shows "node_inv A ainv owned n'" "\<not> node_is_read_only A n'"
    "header_kind (m_block n') = header_kind (m_block n)"
    "get_width_from_header (m_block n') = new_width" "m_size n' = init_size"
    "node.more n' = node.more n" "others_kept A owned n n'"
    "\<forall>i < payload_bytes (m_size n) (get_width_from_header (m_block n)). node_data n' i = node_data n i"
proof -
  define needed where "needed = payload_bytes init_size new_width + header_size"
  have att: "m_attached n" "get_wtype_from_header (m_block n) = wtype_Bits"
    using inv by (simp_all add: node_inv_def)
  obtain n1 n2 h2 h3 where
    n1: "(if node_is_read_only A n then do_copy_on_write A needed n else Inr n) = Inr n1"
    and ro1: "\<not> node_is_read_only A n1" and n2: "grow_block A needed n1 = Inr n2"
    and h2: "(if new_width \<noteq> get_width_from_header (m_block n1) then set_width_in_header new_width (m_block n2)
                else Inr (m_block n2)) = Inr h2"
    and h3: "set_size_in_header init_size h2 = Inr h3"
    and n': "n' = n2\<lparr>m_block := h3, m_size := init_size\<rparr>"
    using ok att unfolding node_alloc_def Let_def calc_byte_len_def rbind_eq_Inr rassert_eq_Inr needed_def
      payload_bytes_def
    by auto
  have N1: "node_inv A ainv owned n1" "node_kept n n1" "others_kept A owned n n1"
    using n1 inv do_copy_on_write_correct [OF inv] by (auto split: if_splits)
  note N2 = grow_block_correct [OF N1(1) ro1 n2]
  have K: "node_kept n n2" using N1(2) N2(3) node_kept_trans by blast
  have F2: "header_kind h2 = header_kind (m_block n2)" "get_width_from_header h2 = new_width"
    "get_capacity_from_header h2 = get_capacity_from_header (m_block n2)"
    "get_data_from_header h2 = get_data_from_header (m_block n2)"
    using h2 set_width_fields [of new_width "m_block n2" h2] width_ndx_valid [OF w] N2
      set_width_kind [of new_width "m_block n2" h2]
    by (auto split: if_splits simp: node_kept_def)
  note F3 = set_size_fields [OF h3] set_size_kind [OF h3]
  show "header_kind (m_block n') = header_kind (m_block n)"
    "get_width_from_header (m_block n') = new_width" "m_size n' = init_size"
    "node.more n' = node.more n"
    "\<forall>i < payload_bytes (m_size n) (get_width_from_header (m_block n)). node_data n' i = node_data n i"
    using K F2 F3 by (simp_all add: n' node_kept_def node_data_def)
  show "\<not> node_is_read_only A n'" using N2 by (simp add: n' node_is_read_only_def)
  show "others_kept A owned n n'"
    using others_kept_trans [OF N1(3) N2(4)] by (simp add: n' others_kept_def)
  show "node_inv A ainv owned n'"
    using N2 F2 F3 header_kind_wtype [OF F2(1)]
    by (auto simp: n' node_inv_def parent_ok_def node_is_read_only_def needed_def)
qed

end

end
