(* ===== verification/Barq_Array.thy ===== *)
theory Barq_Array
  imports Array_Moves Node
begin

text \<open>
  \<^verbatim>\<open>Array\<close> (\<open>array.hpp\<close>, \<open>array.cpp\<close>): the accessor of an integer array, a node whose elements all have
  the width of its header. The accessor caches the width, the bounds of the width and the header
  flags. An operation that needs a wider element or a larger block reallocates the node and widens
  the elements in place. The abstraction of an accessor is the list of its elements; the lemmas show
  that every operation is the list operation of its name.
\<close>

record 'a barq_array = "'a node" +
  m_width :: nat
  m_lbound :: int
  m_ubound :: int
  m_is_inner_bptree_node :: bool
  m_has_refs :: bool
  m_context_flag :: bool

subsection \<open>Attaching and header fields\<close>

definition update_width_cache_from_header :: "('a, 'b) barq_array_scheme \<Rightarrow> ('a, 'b) barq_array_scheme" where
  "update_width_cache_from_header a =
     (let width = get_width_from_header (m_block a)
      in a\<lparr>m_lbound := lbound_for_width width, m_ubound := ubound_for_width width, m_width := width\<rparr>)"

definition array_init_from_mem :: "mem_ref \<Rightarrow> ('a, 'b) barq_array_scheme \<Rightarrow> ('a, 'b) barq_array_scheme" where
  "array_init_from_mem mem a =
     (let a1 = init_from_mem mem a; header = snd mem
      in update_width_cache_from_header
           (a1\<lparr>m_is_inner_bptree_node := get_is_inner_bptree_node_from_header header,
               m_has_refs := get_hasrefs_from_header header,
               m_context_flag := get_context_flag_from_header header\<rparr>))"

definition set_type ::
  "'a alloc_class \<Rightarrow> node_type \<Rightarrow> ('a, 'b) barq_array_scheme \<Rightarrow> ('a, 'b) barq_array_scheme result" where
  "set_type A type a =
     rbind (rassert (m_attached a)) (\<lambda>_.
     rbind (copy_on_write A a) (\<lambda>a1.
       let (init_is_inner_bptree_node, init_has_refs) =
             (case type of type_Normal \<Rightarrow> (False, False) | type_InnerBptreeNode \<Rightarrow> (True, True)
              | type_HasRefs \<Rightarrow> (False, True));
           header = set_hasrefs_in_header init_has_refs
             (set_is_inner_bptree_node_in_header init_is_inner_bptree_node (m_block a1))
       in Inr (a1\<lparr>m_is_inner_bptree_node := init_is_inner_bptree_node, m_has_refs := init_has_refs,
                 m_block := header\<rparr>)))"

definition get_type :: "('a, 'b) barq_array_scheme \<Rightarrow> node_type" where
  "get_type a =
     (if m_is_inner_bptree_node a then type_InnerBptreeNode
      else if m_has_refs a then type_HasRefs else type_Normal)"

definition set_has_refs ::
  "'a alloc_class \<Rightarrow> bool \<Rightarrow> ('a, 'b) barq_array_scheme \<Rightarrow> ('a, 'b) barq_array_scheme result" where
  "set_has_refs A value a =
     (if m_has_refs a \<noteq> value
      then rbind (rassert (\<not> node_is_read_only A a)) (\<lambda>_.
        Inr (a\<lparr>m_has_refs := value, m_block := set_hasrefs_in_header value (m_block a)\<rparr>))
      else Inr a)"

definition set_context_flag ::
  "'a alloc_class \<Rightarrow> bool \<Rightarrow> ('a, 'b) barq_array_scheme \<Rightarrow> ('a, 'b) barq_array_scheme result" where
  "set_context_flag A value a =
     (if m_context_flag a \<noteq> value
      then rbind (copy_on_write A a) (\<lambda>a1.
        Inr (a1\<lparr>m_context_flag := value, m_block := set_context_flag_in_header value (m_block a1)\<rparr>))
      else Inr a)"

definition set_header_size :: "nat \<Rightarrow> ('a, 'b) node_scheme \<Rightarrow> ('a, 'b) node_scheme result" where
  "set_header_size value n =
     rbind (set_size_in_header value (m_block n)) (\<lambda>header. Inr (n\<lparr>m_block := header\<rparr>))"

subsection \<open>Elements\<close>

definition array_get :: "('a, 'b) barq_array_scheme \<Rightarrow> nat \<Rightarrow> int" where
  "array_get a ndx = get_universal (m_width a) (node_data a) ndx"

definition array_front :: "('a, 'b) barq_array_scheme \<Rightarrow> int" where
  "array_front a = array_get a 0"

definition array_back :: "('a, 'b) barq_array_scheme \<Rightarrow> int" where
  "array_back a = array_get a (m_size a - 1)"

text \<open>The setter of the current width, \<^verbatim>\<open>m_vtable->setter\<close>.\<close>

definition array_setter :: "nat \<Rightarrow> int \<Rightarrow> ('a, 'b) barq_array_scheme \<Rightarrow> ('a, 'b) barq_array_scheme" where
  "array_setter ndx value a = set_node_data (set_direct (m_width a) (node_data a) ndx value) a"

definition array_alloc ::
  "'a alloc_class \<Rightarrow> nat \<Rightarrow> nat \<Rightarrow> ('a, 'b) barq_array_scheme \<Rightarrow> ('a, 'b) barq_array_scheme result" where
  "array_alloc A init_size new_width a =
     rbind (rassert (m_width a = get_width_from_header (m_block a))) (\<lambda>_.
     rbind (rassert (m_size a = get_size_from_header (m_block a))) (\<lambda>_.
     rbind (node_alloc A init_size new_width a) (\<lambda>a1.
     Inr (update_width_cache_from_header a1))))"

definition do_ensure_minimum_width ::
  "'a alloc_class \<Rightarrow> int \<Rightarrow> ('a, 'b) barq_array_scheme \<Rightarrow> ('a, 'b) barq_array_scheme result" where
  "do_ensure_minimum_width A value a =
     (let width = bit_width value; old_width = m_width a
      in rbind (rassert (m_width a < width)) (\<lambda>_.
         rbind (array_alloc A (m_size a) width a) (\<lambda>a1.
         Inr (set_node_data (expand_down old_width (m_width a1) 0 0 (m_size a1) (node_data a1)) a1))))"

definition ensure_minimum_width ::
  "'a alloc_class \<Rightarrow> int \<Rightarrow> ('a, 'b) barq_array_scheme \<Rightarrow> ('a, 'b) barq_array_scheme result" where
  "ensure_minimum_width A value a =
     (if m_lbound a \<le> value \<and> value \<le> m_ubound a then Inr a else do_ensure_minimum_width A value a)"

definition array_set ::
  "'a alloc_class \<Rightarrow> nat \<Rightarrow> int \<Rightarrow> ('a, 'b) barq_array_scheme \<Rightarrow> ('a, 'b) barq_array_scheme result" where
  "array_set A ndx value a =
     rbind (rassert (ndx < m_size a)) (\<lambda>_.
       if array_get a ndx = value then Inr a
       else rbind (copy_on_write A a) (\<lambda>a1.
            rbind (ensure_minimum_width A value a1) (\<lambda>a2.
            Inr (array_setter ndx value a2))))"

definition array_insert ::
  "'a alloc_class \<Rightarrow> nat \<Rightarrow> int \<Rightarrow> ('a, 'b) barq_array_scheme \<Rightarrow> ('a, 'b) barq_array_scheme result" where
  "array_insert A ndx value a =
     (let old_width = m_width a; old_size = m_size a;
          do_expand = (value < m_lbound a \<or> m_ubound a < value)
      in rbind (if do_expand then array_alloc A (m_size a + 1) (bit_width value) a
                else array_alloc A (m_size a + 1) (m_width a) a) (\<lambda>a1.
         Inr (set_node_data (insert_data do_expand old_width (m_width a1) old_size ndx value (node_data a1)) a1)))"

definition array_add ::
  "'a alloc_class \<Rightarrow> int \<Rightarrow> ('a, 'b) barq_array_scheme \<Rightarrow> ('a, 'b) barq_array_scheme result" where
  "array_add A value a = array_insert A (m_size a) value a"

text \<open>\<^verbatim>\<open>Array::move\<close>. Only arrays with \<^verbatim>\<open>wtype_Multiply\<close> headers scale the element width.\<close>

definition array_move ::
  "'a alloc_class \<Rightarrow> nat \<Rightarrow> nat \<Rightarrow> nat \<Rightarrow> ('a, 'b) barq_array_scheme \<Rightarrow> ('a, 'b) barq_array_scheme result" where
  "array_move A first fin dest_begin a =
     rbind (rassert (first \<le> fin)) (\<lambda>_.
     rbind (rassert (fin \<le> m_size a)) (\<lambda>_.
     rbind (rassert (dest_begin \<le> m_size a)) (\<lambda>_.
     rbind (rassert (fin - first \<le> m_size a - dest_begin)) (\<lambda>_.
     rbind (rassert (\<not> (dest_begin \<ge> first \<and> dest_begin < fin))) (\<lambda>_.
     rbind (copy_on_write A a) (\<lambda>a1.
       let bits_per_elem = (if get_wtype_from_header (m_block a1) = wtype_Multiply then m_width a1 * 8
                            else m_width a1)
       in Inr (set_node_data (move_data bits_per_elem first fin dest_begin (node_data a1)) a1)))))))"

definition array_erase ::
  "'a alloc_class \<Rightarrow> nat \<Rightarrow> ('a, 'b) barq_array_scheme \<Rightarrow> ('a, 'b) barq_array_scheme result" where
  "array_erase A ndx a =
     rbind (array_move A (ndx + 1) (m_size a) ndx a) (\<lambda>a1.
       let a2 = a1\<lparr>m_size := m_size a1 - 1\<rparr> in set_header_size (m_size a2) a2)"

definition array_erase_range ::
  "'a alloc_class \<Rightarrow> nat \<Rightarrow> nat \<Rightarrow> ('a, 'b) barq_array_scheme \<Rightarrow> ('a, 'b) barq_array_scheme result" where
  "array_erase_range A first fin a =
     (if first \<noteq> fin
      then rbind (array_move A fin (m_size a) first a) (\<lambda>a1.
        let a2 = a1\<lparr>m_size := m_size a1 - (fin - first)\<rparr> in set_header_size (m_size a2) a2)
      else Inr a)"

definition array_truncate ::
  "'a alloc_class \<Rightarrow> nat \<Rightarrow> ('a, 'b) barq_array_scheme \<Rightarrow> ('a, 'b) barq_array_scheme result" where
  "array_truncate A new_size a =
     rbind (rassert (m_attached a)) (\<lambda>_.
     rbind (rassert (new_size \<le> m_size a)) (\<lambda>_.
       if new_size = m_size a then Inr a
       else rbind (copy_on_write A a) (\<lambda>a1.
            rbind (set_header_size new_size (a1\<lparr>m_size := new_size\<rparr>)) (\<lambda>a2.
            if new_size = 0
            then rbind (set_width_in_header 0 (m_block a2)) (\<lambda>header.
                 Inr (update_width_cache_from_header (a2\<lparr>m_block := header\<rparr>)))
            else Inr a2))))"

definition array_clear ::
  "'a alloc_class \<Rightarrow> ('a, 'b) barq_array_scheme \<Rightarrow> ('a, 'b) barq_array_scheme result" where
  "array_clear A a = array_truncate A 0 a"

text \<open>The sum is computed in \<open>int64_t\<close>.\<close>

definition array_adjust ::
  "'a alloc_class \<Rightarrow> nat \<Rightarrow> int \<Rightarrow> ('a, 'b) barq_array_scheme \<Rightarrow> ('a, 'b) barq_array_scheme result" where
  "array_adjust A ndx diff a =
     rbind (rassert (ndx \<le> m_size a)) (\<lambda>_.
       if diff \<noteq> 0 then array_set A ndx (array_get a ndx + diff) a else Inr a)"

function array_adjust_range ::
  "'a alloc_class \<Rightarrow> nat \<Rightarrow> nat \<Rightarrow> int \<Rightarrow> ('a, 'b) barq_array_scheme \<Rightarrow> ('a, 'b) barq_array_scheme result" where
  "array_adjust_range A i fin diff a =
     (if diff \<noteq> 0 \<and> i < fin
      then rbind (array_adjust A i diff a) (\<lambda>a1. array_adjust_range A (Suc i) fin diff a1)
      else Inr a)"
  by pat_completeness auto
termination
  by (relation "measure (\<lambda>(A, i, fin, diff, a). fin - i)") auto

declare array_adjust_range.simps [simp del]

subsection \<open>Abstraction and invariant\<close>

definition array_list :: "('a, 'b) barq_array_scheme \<Rightarrow> int list" where
  "array_list a = map (array_get a) [0..<m_size a]"

definition array_flags :: "('a, 'b) barq_array_scheme \<Rightarrow> bool \<times> bool \<times> bool" where
  "array_flags a = (m_is_inner_bptree_node a, m_has_refs a, m_context_flag a)"

definition array_inv ::
  "'a alloc_class \<Rightarrow> ('a \<Rightarrow> bool) \<Rightarrow> ('a \<Rightarrow> nat \<Rightarrow> nat \<Rightarrow> bool) \<Rightarrow> ('a, 'b) barq_array_scheme \<Rightarrow> bool" where
  "array_inv A ainv owned a \<longleftrightarrow>
     node_inv A ainv owned a \<and> m_width a = get_width_from_header (m_block a) \<and>
     m_lbound a = lbound_for_width (m_width a) \<and> m_ubound a = ubound_for_width (m_width a) \<and>
     header_kind (m_block a) = (m_is_inner_bptree_node a, m_has_refs a, m_context_flag a, wtype_Bits)"

lemma array_inv_width [simp]: "array_inv A ainv owned a \<Longrightarrow> valid_width (m_width a)"
  by (simp add: array_inv_def get_width_from_header_valid)

lemma array_get_direct:
  "array_inv A ainv owned a \<Longrightarrow> array_get a i = get_direct (m_width a) (node_data a) i"
  by (simp add: array_get_def get_universal_direct)

lemma array_list_slots:
  "array_inv A ainv owned a \<Longrightarrow> array_list a = slots (m_width a) (m_size a) (node_data a)"
  by (simp add: array_list_def array_get_direct)

lemma length_array_list [simp]: "length (array_list a) = m_size a"
  by (simp add: array_list_def)

lemma nth_array_list: "i < m_size a \<Longrightarrow> array_list a ! i = array_get a i"
  by (simp add: array_list_def)

lemma fits_bounds:
  "array_inv A ainv owned a \<Longrightarrow> fits_width (m_width a) v \<longleftrightarrow> m_lbound a \<le> v \<and> v \<le> m_ubound a"
  using array_inv_width [of A ainv owned a] by (simp add: array_inv_def fits_width_def tempex_id)

lemma slots_payload:
  assumes "valid_width w" "\<forall>i < payload_bytes n w. d' i = d i"
  shows "slots w n d' = slots w n d"
proof (rule map_cong [OF refl])
  fix j assume "j \<in> set [0..<n]"
  then have j: "j < n" by simp
  show "get_direct w d' j = get_direct w d j"
  proof (rule get_direct_below [OF assms(1) _ j])
    fix k assume "k < n * w"
    then have "k div 8 < payload_bytes n w"
      unfolding payload_bytes_def by linarith
    then show "mbit d' k = mbit d k" using assms(2) by (simp add: mbit_def)
  qed
qed

lemma more_fields:
  fixes a a' :: "('a, 'b) barq_array_scheme"
  assumes "node.more a' = node.more a"
  shows "m_width a' = m_width a" "m_lbound a' = m_lbound a" "m_ubound a' = m_ubound a"
    "array_flags a' = array_flags a" "barq_array.more a' = barq_array.more a"
proof -
  have "m_width a' = m_width a \<and> m_lbound a' = m_lbound a \<and> m_ubound a' = m_ubound a \<and>
      array_flags a' = array_flags a \<and> barq_array.more a' = barq_array.more a"
    using assms by (cases a; cases a'; simp add: array_flags_def)
  then show "m_width a' = m_width a" "m_lbound a' = m_lbound a" "m_ubound a' = m_ubound a"
    "array_flags a' = array_flags a" "barq_array.more a' = barq_array.more a" by simp_all
qed

lemma set_node_data_simps [simp]:
  "node_data (set_node_data d a) = d" "m_size (set_node_data d a) = m_size a"
  "m_width (set_node_data d a) = m_width a" "m_alloc (set_node_data d a) = m_alloc a"
  "m_ref (set_node_data d a) = m_ref a" "array_flags (set_node_data d a) = array_flags a"
  "node_is_read_only A (set_node_data d a) = node_is_read_only A a"
  "others_kept A owned a (set_node_data d a)"
  "barq_array.more (set_node_data d a) = barq_array.more a"
  by (simp_all add: set_node_data_def node_data_def header_simps array_flags_def node_is_read_only_def
      others_kept_def)

lemma set_node_data_inv [simp]:
  "array_inv A ainv owned (set_node_data d a) = array_inv A ainv owned a"
  by (simp add: array_inv_def node_inv_def set_node_data_def header_simps parent_ok_def
      node_is_read_only_def)

text \<open>What an operation that turns the elements into \<open>xs\<close> promises: the invariant again, the elements,
  the flags and every other accessor's block.\<close>

definition array_to ::
  "'a alloc_class \<Rightarrow> ('a \<Rightarrow> bool) \<Rightarrow> ('a \<Rightarrow> nat \<Rightarrow> nat \<Rightarrow> bool) \<Rightarrow> ('a, 'b) barq_array_scheme \<Rightarrow>
     ('a, 'b) barq_array_scheme \<Rightarrow> int list \<Rightarrow> bool" where
  "array_to A ainv owned a a' xs \<longleftrightarrow>
     array_inv A ainv owned a' \<and> array_list a' = xs \<and> array_flags a' = array_flags a \<and>
     others_kept A owned a a'"

lemma array_to_trans:
  "array_to A ainv owned a a' xs \<Longrightarrow> array_to A ainv owned a' a'' ys \<Longrightarrow> array_to A ainv owned a a'' ys"
  unfolding array_to_def using others_kept_trans by metis

subsection \<open>Every operation is its list operation\<close>

context allocator
begin

lemma array_kept:
  assumes inv: "array_inv A ainv owned a" and n: "node_inv A ainv owned a'" "node_kept a a'"
  shows "array_inv A ainv owned a'" "array_list a' = array_list a" "m_width a' = m_width a"
    "array_flags a' = array_flags a"
proof -
  have k: "header_kind (m_block a') = header_kind (m_block a)" "m_size a' = m_size a"
    "get_width_from_header (m_block a') = get_width_from_header (m_block a)"
    "node.more a' = node.more a"
    "\<forall>i < payload_bytes (m_size a) (get_width_from_header (m_block a)). node_data a' i = node_data a i"
    using n(2) by (simp_all add: node_kept_def)
  note m = more_fields [OF k(4)]
  show inv': "array_inv A ainv owned a'"
    using inv n(1) k m by (simp add: array_inv_def array_flags_def)
  have w: "get_width_from_header (m_block a) = m_width a" using inv by (simp add: array_inv_def)
  show "array_list a' = array_list a"
    using slots_payload [OF array_inv_width [OF inv] k(5) [unfolded w]] k(2) m
    by (simp add: array_list_slots [OF inv] array_list_slots [OF inv'])
  show "m_width a' = m_width a" "array_flags a' = array_flags a" by (rule m)+
qed

lemma copy_on_write_array:
  assumes "array_inv A ainv owned a" "copy_on_write A a = Inr a'"
  shows "array_inv A ainv owned a'" "\<not> node_is_read_only A a'" "array_list a' = array_list a"
    "m_width a' = m_width a" "m_size a' = m_size a" "array_flags a' = array_flags a"
    "others_kept A owned a a'"
proof -
  have "node_inv A ainv owned a" using assms(1) by (simp add: array_inv_def)
  note c = copy_on_write_correct [OF this assms(2)]
  show "array_inv A ainv owned a'" "\<not> node_is_read_only A a'" "array_list a' = array_list a"
    "m_width a' = m_width a" "array_flags a' = array_flags a" "others_kept A owned a a'"
    using array_kept [OF assms(1) c(1,3)] c by simp_all
  show "m_size a' = m_size a" using c(3) by (simp add: node_kept_def)
qed

lemma array_alloc_correct:
  assumes inv: "array_inv A ainv owned a" and w: "valid_width w" and ok: "array_alloc A n w a = Inr a'"
  shows "array_inv A ainv owned a'" "\<not> node_is_read_only A a'" "m_width a' = w" "m_size a' = n"
    "array_flags a' = array_flags a" "others_kept A owned a a'"
    "slots (m_width a) (m_size a) (node_data a') = array_list a"
proof -
  obtain a1 where na: "node_alloc A n w a = Inr a1" and a': "a' = update_width_cache_from_header a1"
    using ok by (auto simp: array_alloc_def result_simps)
  have ni: "node_inv A ainv owned a" and wa: "get_width_from_header (m_block a) = m_width a"
    and hk: "header_kind (m_block a) = (m_is_inner_bptree_node a, m_has_refs a, m_context_flag a, wtype_Bits)"
    using inv by (simp_all add: array_inv_def)
  note N = node_alloc_correct [OF ni na w]
  note m = more_fields [OF N(6)]
  note upd = a' update_width_cache_from_header_def Let_def
  show fields: "\<not> node_is_read_only A a'" "m_width a' = w" "m_size a' = n"
    "array_flags a' = array_flags a" "others_kept A owned a a'"
    using N m by (simp_all add: upd array_flags_def node_is_read_only_def others_kept_def)
  show "array_inv A ainv owned a'"
    using N m hk by (auto simp: array_inv_def upd array_flags_def node_inv_def parent_ok_def
        node_is_read_only_def)
  have "node_data a' = node_data a1" by (simp add: upd node_data_def)
  then show "slots (m_width a) (m_size a) (node_data a') = array_list a"
    using slots_payload [OF array_inv_width [OF inv] N(8) [unfolded wa]]
    by (simp add: array_list_slots [OF inv])
qed

lemma ensure_minimum_width_correct:
  assumes inv: "array_inv A ainv owned a" and v: "int64_range v"
    and ok: "ensure_minimum_width A v a = Inr a'"
  shows "array_inv A ainv owned a'" "array_list a' = array_list a" "m_size a' = m_size a"
    "fits_width (m_width a') v" "m_width a \<le> m_width a'" "array_flags a' = array_flags a"
    "others_kept A owned a a'" "\<not> node_is_read_only A a \<Longrightarrow> \<not> node_is_read_only A a'"
proof -
  note bw = bit_width_correct [OF v]
  have "array_inv A ainv owned a' \<and> array_list a' = array_list a \<and> m_size a' = m_size a \<and>
    fits_width (m_width a') v \<and> m_width a \<le> m_width a' \<and> array_flags a' = array_flags a \<and>
    others_kept A owned a a' \<and> (\<not> node_is_read_only A a \<longrightarrow> \<not> node_is_read_only A a')"
  proof (cases "m_lbound a \<le> v \<and> v \<le> m_ubound a")
    case True
    then show ?thesis using ok inv by (simp add: ensure_minimum_width_def fits_bounds)
  next
    case False
    then obtain a1 where wl: "m_width a < bit_width v"
      and al: "array_alloc A (m_size a) (bit_width v) a = Inr a1"
      and a': "a' = set_node_data (expand_down (m_width a) (m_width a1) 0 0 (m_size a1) (node_data a1)) a1"
      using ok by (auto simp: ensure_minimum_width_def do_ensure_minimum_width_def result_simps Let_def)
    note AC = array_alloc_correct [OF inv bw(1) al]
    have inv': "array_inv A ainv owned a'" using AC by (simp add: a')
    have "array_list a' = slots (bit_width v) (m_size a)
        (expand_down (m_width a) (bit_width v) 0 0 (m_size a) (node_data a1))"
      unfolding array_list_slots [OF inv'] by (simp add: a' AC)
    then have "array_list a' = array_list a"
      unfolding expand_down_slots [OF array_inv_width [OF inv] bw(1) less_imp_le [OF wl]] AC(7) .
    moreover have "others_kept A owned a a'"
      using others_kept_trans [OF AC(6)] by (simp add: a')
    ultimately show ?thesis using inv' AC bw wl by (simp add: a')
  qed
  then show "array_inv A ainv owned a'" "array_list a' = array_list a" "m_size a' = m_size a"
    "fits_width (m_width a') v" "m_width a \<le> m_width a'" "array_flags a' = array_flags a"
    "others_kept A owned a a'" "\<not> node_is_read_only A a \<Longrightarrow> \<not> node_is_read_only A a'" by simp_all
qed

lemma array_setter_to:
  assumes "array_inv A ainv owned a" "fits_width (m_width a) v" "ndx < m_size a"
  shows "array_to A ainv owned a (array_setter ndx v a) ((array_list a)[ndx := v])"
proof -
  have inv': "array_inv A ainv owned (array_setter ndx v a)"
    using assms(1) by (simp add: array_setter_def)
  show ?thesis
    using assms inv' unfolding array_to_def array_list_slots [OF inv'] array_list_slots [OF assms(1)]
    by (simp add: array_setter_def direct.put_list)
qed

lemma array_set_to:
  assumes inv: "array_inv A ainv owned a" and v: "int64_range v" and ok: "array_set A ndx v a = Inr a'"
  shows "ndx < m_size a" "array_to A ainv owned a a' ((array_list a)[ndx := v])"
proof -
  show n: "ndx < m_size a" using ok by (auto simp: array_set_def result_simps)
  show "array_to A ainv owned a a' ((array_list a)[ndx := v])"
  proof (cases "array_get a ndx = v")
    case True
    then show ?thesis using ok inv n
      by (auto simp: array_set_def result_simps array_to_def nth_array_list [symmetric])
  next
    case False
    then obtain a1 a2 where c: "copy_on_write A a = Inr a1" and e: "ensure_minimum_width A v a1 = Inr a2"
      and a': "a' = array_setter ndx v a2"
      using ok by (auto simp: array_set_def result_simps)
    note C = copy_on_write_array [OF inv c]
    note E = ensure_minimum_width_correct [OF C(1) v e]
    have "array_to A ainv owned a a2 (array_list a)"
      using C E others_kept_trans by (simp add: array_to_def) blast
    moreover have "array_to A ainv owned a2 a' ((array_list a2)[ndx := v])"
      unfolding a' using E C n by (intro array_setter_to) simp_all
    ultimately show ?thesis using E(2) C(3) array_to_trans by simp blast
  qed
qed

lemma array_insert_to:
  assumes inv: "array_inv A ainv owned a" and v: "int64_range v" and n: "ndx \<le> m_size a"
    and ok: "array_insert A ndx v a = Inr a'"
  shows "array_to A ainv owned a a' (list_insert ndx v (array_list a))" "\<not> node_is_read_only A a'"
proof -
  define do_expand where "do_expand = (v < m_lbound a \<or> m_ubound a < v)"
  define w where "w = (if do_expand then bit_width v else m_width a)"
  note vw = array_inv_width [OF inv]
  note bw = bit_width_correct [OF v]
  obtain a1 where al: "array_alloc A (Suc (m_size a)) w a = Inr a1"
    and a': "a' = set_node_data (insert_data do_expand (m_width a) (m_width a1) (m_size a) ndx v (node_data a1)) a1"
    using ok by (auto simp: array_insert_def result_simps do_expand_def w_def Let_def split: if_splits)
  have fit: "fits_width (m_width a) v \<longleftrightarrow> \<not> do_expand"
    using fits_bounds [OF inv, of v] by (auto simp: do_expand_def)
  have w: "valid_width w" "fits_width w v" using bw vw fit by (auto simp: w_def)
  have le: "m_width a \<le> w"
    using fits_width_mono [OF bw(2) _ bw(1) vw] fit by (auto simp: w_def)
  note AC = array_alloc_correct [OF inv w(1) al]
  have inv': "array_inv A ainv owned a'" using AC by (simp add: a')
  have "array_list a' = slots w (Suc (m_size a))
      (insert_data do_expand (m_width a) w (m_size a) ndx v (node_data a1))"
    unfolding array_list_slots [OF inv'] by (simp add: a' AC del: upt_Suc)
  also have "\<dots> = list_insert ndx v (array_list a)"
    unfolding AC(7) [symmetric] using w le n vw by (intro insert_data_slots) (simp_all add: w_def)
  finally show "array_to A ainv owned a a' (list_insert ndx v (array_list a))"
    using AC inv' others_kept_trans [OF AC(6)] by (simp add: array_to_def a')
  show "\<not> node_is_read_only A a'" using AC by (simp add: a')
qed

lemma array_move_to:
  assumes inv: "array_inv A ainv owned a" and ok: "array_move A b e dest a = Inr a'"
  shows "array_to A ainv owned a a' (list_move b e dest (array_list a))" "m_size a' = m_size a"
    "b \<le> e" "e \<le> m_size a" "dest + (e - b) \<le> m_size a" "\<not> node_is_read_only A a'"
proof -
  obtain a1 where g: "b \<le> e" "e \<le> m_size a" "dest \<le> m_size a" "e - b \<le> m_size a - dest"
      "\<not> (b \<le> dest \<and> dest < e)" and c: "copy_on_write A a = Inr a1"
    and a': "a' = set_node_data (move_data (if get_wtype_from_header (m_block a1) = wtype_Multiply
        then m_width a1 * 8 else m_width a1) b e dest (node_data a1)) a1"
    using ok by (auto simp: array_move_def result_simps Let_def)
  note C = copy_on_write_array [OF inv c]
  have bits: "get_wtype_from_header (m_block a1) = wtype_Bits"
    using C(1) by (simp add: array_inv_def node_inv_def)
  show "b \<le> e" "e \<le> m_size a" "dest + (e - b) \<le> m_size a" "m_size a' = m_size a"
    using g C by (simp_all add: a')
  have inv': "array_inv A ainv owned a'" using C by (simp add: a')
  have "array_list a' = slots (m_width a1) (m_size a1) (move_data (m_width a1) b e dest (node_data a1))"
    unfolding array_list_slots [OF inv'] by (simp add: a' bits)
  also have "\<dots> = list_move b e dest (array_list a1)"
    unfolding array_list_slots [OF C(1)] using array_inv_width [OF C(1)] C g
    by (intro move_data_slots) simp_all
  finally show "array_to A ainv owned a a' (list_move b e dest (array_list a))"
    using C inv' others_kept_trans [OF C(7)] by (simp add: array_to_def a')
  show "\<not> node_is_read_only A a'" using C by (simp add: a')
qed

lemma set_header_size_to:
  assumes inv: "array_inv A ainv owned a" and k: "k \<le> m_size a"
    and ok: "set_header_size k (a\<lparr>m_size := k\<rparr>) = Inr a'"
  shows "array_to A ainv owned a a' (take k (array_list a))" "m_size a' = k"
    "node_is_read_only A a' = node_is_read_only A a"
proof -
  obtain h where sh: "set_size_in_header k (m_block a) = Inr h" and a': "a' = a\<lparr>m_size := k, m_block := h\<rparr>"
    using ok by (auto simp: set_header_size_def result_simps)
  note F = set_size_fields [OF sh] set_size_kind [OF sh]
  have pb: "payload_bytes k w \<le> payload_bytes (m_size a) w" for w
    unfolding payload_bytes_def using k by (intro div_le_mono add_le_mono1 mult_le_mono1)
  have inv': "array_inv A ainv owned a'"
    using inv F pb [of "get_width_from_header (m_block a)"] header_kind_wtype [OF F(9)]
    by (auto simp: array_inv_def node_inv_def a' parent_ok_def node_is_read_only_def)
  show "m_size a' = k" "node_is_read_only A a' = node_is_read_only A a"
    by (simp_all add: a' node_is_read_only_def)
  have "array_list a' = take k (array_list a)"
    using k F(8) unfolding array_list_slots [OF inv'] array_list_slots [OF inv]
    by (simp add: a' node_data_def take_map take_upt)
  then show "array_to A ainv owned a a' (take k (array_list a))"
    using inv' by (simp add: array_to_def array_flags_def others_kept_def a')
qed

lemma array_erase_to:
  assumes inv: "array_inv A ainv owned a" and ok: "array_erase A ndx a = Inr a'"
  shows "ndx < m_size a" "array_to A ainv owned a a' (list_erase ndx (Suc ndx) (array_list a))"
proof -
  obtain a1 where m: "array_move A (Suc ndx) (m_size a) ndx a = Inr a1"
    and s: "set_header_size (m_size a1 - 1) (a1\<lparr>m_size := m_size a1 - 1\<rparr>) = Inr a'"
    using ok by (auto simp: array_erase_def rbind_eq_Inr Let_def)
  note M = array_move_to [OF inv m]
  show n: "ndx < m_size a" using M(3) by simp
  have i1: "array_inv A ainv owned a1" and l1: "array_list a1 = list_move (Suc ndx) (m_size a) ndx (array_list a)"
    using M(1) by (simp_all add: array_to_def)
  note S = set_header_size_to [OF i1 _ s]
  have "take (m_size a1 - 1) (array_list a1) = list_erase ndx (Suc ndx) (array_list a)"
    using list_move_erase [of ndx "Suc ndx" "array_list a"] n M(2) by (simp add: l1)
  then show "array_to A ainv owned a a' (list_erase ndx (Suc ndx) (array_list a))"
    using array_to_trans [OF M(1) S(1)] by simp
qed

lemma array_erase_range_to:
  assumes inv: "array_inv A ainv owned a" and ok: "array_erase_range A b e a = Inr a'"
  shows "b \<noteq> e \<longrightarrow> b < e \<and> e \<le> m_size a" "array_to A ainv owned a a' (if b = e then array_list a
    else list_erase b e (array_list a))"
proof -
  have "(b \<noteq> e \<longrightarrow> b < e \<and> e \<le> m_size a) \<and> array_to A ainv owned a a' (if b = e then array_list a
    else list_erase b e (array_list a))"
  proof (cases "b = e")
    case True
    then show ?thesis using ok inv by (simp add: array_erase_range_def array_to_def)
  next
    case False
    then obtain a1 where m: "array_move A e (m_size a) b a = Inr a1"
      and s: "set_header_size (m_size a1 - (e - b)) (a1\<lparr>m_size := m_size a1 - (e - b)\<rparr>) = Inr a'"
      using ok by (auto simp: array_erase_range_def rbind_eq_Inr Let_def)
    note M = array_move_to [OF inv m]
    have n: "b < e" "e \<le> m_size a" using M(3,5) False by linarith+
    have i1: "array_inv A ainv owned a1" and l1: "array_list a1 = list_move e (m_size a) b (array_list a)"
      using M(1) by (simp_all add: array_to_def)
    note S = set_header_size_to [OF i1 _ s]
    have "take (m_size a1 - (e - b)) (array_list a1) = list_erase b e (array_list a)"
      using list_move_erase [of b e "array_list a"] n M(2) by (simp add: l1)
    then show ?thesis using array_to_trans [OF M(1) S(1)] n by simp
  qed
  then show "b \<noteq> e \<longrightarrow> b < e \<and> e \<le> m_size a" "array_to A ainv owned a a' (if b = e then array_list a
    else list_erase b e (array_list a))" by simp_all
qed

lemma array_truncate_to:
  assumes inv: "array_inv A ainv owned a" and ok: "array_truncate A k a = Inr a'"
  shows "k \<le> m_size a" "array_to A ainv owned a a' (take k (array_list a))"
    "k = 0 \<Longrightarrow> m_size a \<noteq> 0 \<Longrightarrow> m_width a' = 0"
proof -
  show k: "k \<le> m_size a" using ok by (auto simp: array_truncate_def result_simps)
  have "array_to A ainv owned a a' (take k (array_list a)) \<and> (k = 0 \<longrightarrow> m_size a \<noteq> 0 \<longrightarrow> m_width a' = 0)"
  proof (cases "k = m_size a")
    case True
    then show ?thesis using ok inv by (auto simp: array_truncate_def result_simps array_to_def)
  next
    case False
    then obtain a1 a2 where c: "copy_on_write A a = Inr a1"
      and s: "set_header_size k (a1\<lparr>m_size := k\<rparr>) = Inr a2"
      and w: "(if k = 0 then rbind (set_width_in_header 0 (m_block a2)) (\<lambda>header.
                 Inr (update_width_cache_from_header (a2\<lparr>m_block := header\<rparr>))) else Inr a2) = Inr a'"
      using ok by (auto simp: array_truncate_def result_simps)
    note C = copy_on_write_array [OF inv c]
    have k1: "k \<le> m_size a1" using C k by simp
    note S = set_header_size_to [OF C(1) k1 s]
    have "array_to A ainv owned a a1 (array_list a)" using C by (simp add: array_to_def)
    from array_to_trans [OF this S(1)] have t: "array_to A ainv owned a a2 (take k (array_list a))"
      by (simp add: C)
    show ?thesis
    proof (cases "k = 0")
      case True
      then obtain h where h: "set_width_in_header 0 (m_block a2) = Inr h"
        and a': "a' = update_width_cache_from_header (a2\<lparr>m_block := h\<rparr>)"
        using w by (auto simp: rbind_eq_Inr)
      note F = set_width_fields [OF h] set_width_kind [OF h]
      have "array_inv A ainv owned a' \<and> m_width a' = 0"
        using t S(2) F header_kind_wtype [OF F(9)] width_ndx_valid [of 0] True
        by (auto simp: array_to_def array_inv_def node_inv_def a' update_width_cache_from_header_def Let_def
            parent_ok_def node_is_read_only_def valid_width_def payload_bytes_def)
      moreover have "m_size a' = 0" "array_flags a' = array_flags a" "others_kept A owned a a'"
        using t S(2) True by (simp_all add: a' update_width_cache_from_header_def Let_def array_flags_def
            others_kept_def array_to_def)
      ultimately show ?thesis using True by (simp add: array_to_def array_list_def)
    qed (use t w in simp)
  qed
  then show "array_to A ainv owned a a' (take k (array_list a))"
    "k = 0 \<Longrightarrow> m_size a \<noteq> 0 \<Longrightarrow> m_width a' = 0" by simp_all
qed

end

end
