(* ===== verification/Array_Create.thy ===== *)
theory Array_Create
  imports Barq_Array
begin

text \<open>
  The operations of \<^verbatim>\<open>Array\<close> that make a node or work on more than one: \<^verbatim>\<open>Array::create\<close> with its byte
  size computation, \<^verbatim>\<open>Array::move\<close> into another array, and the range version of \<^verbatim>\<open>Array::adjust\<close>. Two
  accessors share one allocator, so its state is passed from the one to the other.
\<close>

subsection \<open>Creation\<close>

definition calc_aligned_byte_size :: "nat \<Rightarrow> nat \<Rightarrow> nat result" where
  "calc_aligned_byte_size sz width =
     rbind (rassert (width \<noteq> 0 \<and> width AND (width - 1) = 0)) (\<lambda>_.
       let max_2 = 2 ^ 64 - 8;
           (overflow, byte_size) =
             (if width < 8
              then let elems_per_byte = 8 div width;
                       byte_size_0 = sz div elems_per_byte + (if sz mod elems_per_byte \<noteq> 0 then 1 else 0)
                   in (max_2 - header_size < byte_size_0, header_size + byte_size_0)
              else let bytes_per_elem = width div 8
                   in ((max_2 - header_size) div bytes_per_elem < sz, header_size + sz * bytes_per_elem))
       in if overflow then Inl OverflowError
          else rbind (rassert (0 < byte_size)) (\<lambda>_. Inr (((byte_size - 1) OR 7) + 1)))"

definition array_create_mem ::
  "'a alloc_class \<Rightarrow> node_type \<Rightarrow> bool \<Rightarrow> width_type \<Rightarrow> nat \<Rightarrow> int \<Rightarrow> 'a \<Rightarrow> (mem_ref \<times> 'a) result" where
  "array_create_mem A type context_flag width_type sz value s =
     rbind (rassert (value = 0 \<or> width_type = wtype_Bits)) (\<lambda>_.
     rbind (rassert (sz = 0 \<or> width_type \<noteq> wtype_Ignore)) (\<lambda>_.
       let (is_inner_bptree_node, has_refs) =
             (case type of type_Normal \<Rightarrow> (False, False) | type_InnerBptreeNode \<Rightarrow> (True, True)
              | type_HasRefs \<Rightarrow> (False, True));
           width = (if value \<noteq> 0 then bit_width value else 0)
       in rbind (if value \<noteq> 0 then calc_aligned_byte_size sz width else Inr header_size) (\<lambda>byte_size_0.
         let byte_size = max byte_size_0 initial_capacity
         in rbind (alloc A byte_size s) (\<lambda>((ref, header), s').
            rbind (init_header header is_inner_bptree_node has_refs context_flag width_type width sz byte_size)
              (\<lambda>header'.
            Inr ((ref, if value \<noteq> 0
                       then with_data header' (fill_direct width (get_data_from_header header') 0 sz value)
                       else header'), s'))))))"

text \<open>\<^verbatim>\<open>Array::create_array\<close> fixes the width type, \<^verbatim>\<open>Array::create_empty_array\<close> the size as well.\<close>

definition create_array ::
  "'a alloc_class \<Rightarrow> node_type \<Rightarrow> bool \<Rightarrow> nat \<Rightarrow> int \<Rightarrow> 'a \<Rightarrow> (mem_ref \<times> 'a) result" where
  "create_array A type context_flag sz value s = array_create_mem A type context_flag wtype_Bits sz value s"

definition create_empty_array ::
  "'a alloc_class \<Rightarrow> node_type \<Rightarrow> bool \<Rightarrow> 'a \<Rightarrow> (mem_ref \<times> 'a) result" where
  "create_empty_array A type context_flag s = create_array A type context_flag 0 0 s"

definition array_create ::
  "'a alloc_class \<Rightarrow> node_type \<Rightarrow> bool \<Rightarrow> nat \<Rightarrow> int \<Rightarrow>
     ('a, 'b) barq_array_scheme \<Rightarrow> ('a, 'b) barq_array_scheme result" where
  "array_create A type context_flag len value a =
     rbind (create_array A type context_flag len value (m_alloc a)) (\<lambda>(mem, s).
     Inr (array_init_from_mem mem (a\<lparr>m_alloc := s\<rparr>)))"

definition array_get_byte_size ::
  "'a alloc_class \<Rightarrow> ('a, 'b) barq_array_scheme \<Rightarrow> nat result" where
  "array_get_byte_size A a =
     rbind (calc_byte_size (get_wtype_from_header (m_block a)) (m_size a) (m_width a)) (\<lambda>num_bytes.
     rbind (rassert (node_is_read_only A a \<or> num_bytes \<le> get_capacity_from_header (m_block a))) (\<lambda>_.
     Inr num_bytes))"

definition get_max_byte_size :: "nat \<Rightarrow> nat" where
  "get_max_byte_size num_elems = header_size + num_elems * 8"

lemma or7_round:
  assumes "0 < n"
  shows "((n - 1) OR 7) + 1 = round_up8 n"
proof -
  have "(n - 1) OR mask 3 = push_bit 3 (drop_bit 3 (n - 1)) OR mask 3"
    by (rule bit_eqI) (auto simp: bit_or_iff bit_push_bit_iff bit_drop_bit_eq bit_mask_iff)
  also have "\<dots> = push_bit 3 (drop_bit 3 (n - 1)) + mask 3"
    by (rule disjunctive_add [symmetric]) (auto simp: bit_push_bit_iff bit_mask_iff)
  finally have "(n - 1) OR 7 = (n - 1) div 8 * 8 + 7"
    by (simp add: push_bit_eq_mult drop_bit_eq_div mask_eq_exp_minus_1)
  moreover have "(n + 7) div 8 = (n - 1) div 8 + 1"
    using assms div_add_self2 [of 8 "n - 1"] by simp
  ultimately show ?thesis by (simp add: round_up8_div)
qed

lemma ceil_div:
  fixes k :: nat
  assumes "0 < k"
  shows "n div k + (if n mod k \<noteq> 0 then 1 else 0) = (n + (k - 1)) div k"
proof -
  have "(n mod k + (k - 1)) div k = (if n mod k \<noteq> 0 then 1 else 0)"
    using assms mod_less_divisor [OF assms, of n] by (auto intro: div_nat_eqI)
  moreover have "(k - 1) div k = 0" "(k - 1) mod k = k - 1" using assms by simp_all
  ultimately show ?thesis by (simp only: div_add1_eq [of n "k - 1" k] add_0_right)
qed

lemma aligned_payload:
  assumes "valid_width w" "w \<noteq> 0"
  shows "payload_bytes sz w =
    (if w < 8 then sz div (8 div w) + (if sz mod (8 div w) \<noteq> 0 then 1 else 0) else sz * (w div 8))"
proof -
  have "(sz * 2 + 7) div 8 = (sz + 3) div 4" "(sz * 4 + 7) div 8 = (sz + 1) div 2"
    using div_mult2_eq [of "sz * 2 + 7" 2 4] div_mult2_eq [of "sz * 4 + 7" 4 2] by simp_all
  then have g: "sz div 8 + (if sz mod 8 \<noteq> 0 then 1 else 0) = (sz + 7) div 8"
    "sz div 4 + (if sz mod 4 \<noteq> 0 then 1 else 0) = (sz * 2 + 7) div 8"
    "sz div 2 + (if sz mod 2 \<noteq> 0 then 1 else 0) = (sz * 4 + 7) div 8"
    using ceil_div [of 8 sz] ceil_div [of 4 sz] ceil_div [of 2 sz] by simp_all
  consider "w = 1" | "w = 2" | "w = 4" | "byte_width w"
    using assms by (auto simp: valid_width_cases small_width_def)
  then show ?thesis
  proof cases
    case 1 then show ?thesis using g(1) by (simp add: payload_bytes_def)
  next
    case 2 then show ?thesis using g(2) by (simp add: payload_bytes_def)
  next
    case 3 then show ?thesis using g(3) by (simp add: payload_bytes_def)
  next
    case 4 then show ?thesis by (auto simp: payload_bytes_def byte_width_def)
  qed
qed

lemma calc_aligned_byte_size_eq:
  assumes "valid_width w" "calc_aligned_byte_size sz w = Inr n"
  shows "n = round_up8 (header_size + payload_bytes sz w)"
proof -
  have w: "w \<noteq> 0" using assms(2) by (auto simp: calc_aligned_byte_size_def rbind_eq_Inr rassert_eq_Inr)
  have "0 < header_size + x" for x by (simp add: header_size_def)
  then show ?thesis
    using assms(2) unfolding calc_aligned_byte_size_def aligned_payload [OF assms(1) w]
    by (auto simp only: rbind_eq_Inr rassert_eq_Inr Let_def or7_round split: if_splits prod.splits)
qed

lemma fits_zero: "fits_width 0 0"
  by (simp add: fits_width_def tempex_def lbound_for_width_def ubound_for_width_def)

lemma get_direct_zero: "get_direct 0 d i = 0"
  by (simp add: get_direct_def tempex_def get_direct_t_def)

context allocator
begin

text \<open>A created array has the given elements and flags, and its block was owned by nobody before.\<close>

lemma array_create_correct:
  assumes s: "ainv (m_alloc a)" and v: "int64_range v" and p: "m_parent_ref a = None"
    and ok: "array_create A type ctx n v a = Inr a'"
  shows "array_inv A ainv owned a'" "array_list a' = replicate n v" "m_context_flag a' = ctx"
    "get_type a' = type" "\<forall>k. \<not> owned (m_alloc a) (m_ref a') k" "\<not> node_is_read_only A a'"
    "\<forall>q k. q \<noteq> m_ref a' \<longrightarrow> owned (m_alloc a') q k = owned (m_alloc a) q k"
proof -
  define w where "w = (if v \<noteq> 0 then bit_width v else 0)"
  define inner where "inner = (type = type_InnerBptreeNode)"
  define refs where "refs = (type \<noteq> type_Normal)"
  have w: "valid_width w" "fits_width w v"
    using bit_width_correct [OF v] fits_zero by (simp_all add: w_def valid_width_def [of 0])
  have fl: "(case type of type_Normal \<Rightarrow> (False, False) | type_InnerBptreeNode \<Rightarrow> (True, True)
              | type_HasRefs \<Rightarrow> (False, True)) = (inner, refs)"
    by (simp add: inner_def refs_def split: node_type.splits)
  obtain b0 ref header s' h' where
    b0: "(if v \<noteq> 0 then calc_aligned_byte_size n w else Inr header_size) = Inr b0"
    and al: "alloc A (max b0 initial_capacity) (m_alloc a) = Inr ((ref, header), s')"
    and ih: "init_header header inner refs ctx wtype_Bits w n (max b0 initial_capacity) = Inr h'"
    and a': "a' = array_init_from_mem (ref, if v \<noteq> 0
        then with_data h' (fill_direct w (get_data_from_header h') 0 n v) else h') (a\<lparr>m_alloc := s'\<rparr>)"
    using ok unfolding array_create_def create_array_def array_create_mem_def fl Let_def prod.case
      w_def [symmetric]
    by (auto simp: result_simps)
  define cap where "cap = max b0 initial_capacity"
  have "b0 = (if v \<noteq> 0 then round_up8 (header_size + payload_bytes n w) else header_size)"
    using b0 calc_aligned_byte_size_eq [OF w(1), of n b0] by (auto split: if_splits)
  then have cap: "cap mod 8 = 0" "0 < cap" "header_size + payload_bytes n w \<le> cap"
    using round_up8_ge [of "header_size + payload_bytes n w"]
    by (auto simp: cap_def max_def initial_capacity_def header_size_def w_def payload_bytes_def)
  have da: "do_alloc A cap (m_alloc a) = Inr ((ref, header), s')"
    using al by (simp add: alloc_def cap_def split: if_splits)
  note AL = alloc_law [OF s da cap(2,1)]
  note F = init_header_fields [OF ih [folded cap_def] w(1) cap(1)]
  define h where "h = (if v \<noteq> 0 then with_data h' (fill_direct w (get_data_from_header h') 0 n v) else h')"
  have hf: "header_kind h = (inner, refs, ctx, wtype_Bits)" "get_width_from_header h = w"
    "get_size_from_header h = n" "get_capacity_from_header h = cap"
    by (simp_all add: h_def F header_kind_def header_simps)
  have fields: "m_block a' = h" "m_alloc a' = s'" "m_ref a' = ref" "m_attached a'" "m_size a' = n"
    "m_parent_ref a' = None" "m_width a' = w" "m_lbound a' = lbound_for_width w"
    "m_ubound a' = ubound_for_width w" "m_is_inner_bptree_node a' = inner" "m_has_refs a' = refs"
    "m_context_flag a' = ctx"
    using hf p by (simp_all add: a' array_init_from_mem_def init_from_mem_def Let_def
        update_width_cache_from_header_def h_def [symmetric] header_kind_def)
  show inv': "array_inv A ainv owned a'"
    using hf AL cap by (simp add: array_inv_def node_inv_def fields parent_ok_def header_kind_def)
  have "get_direct w (get_data_from_header h) i = v" if "i < n" for i
    using that get_fill_direct [OF w(2)] by (cases "v = 0") (simp_all add: h_def header_simps w_def get_direct_zero)
  then show "array_list a' = replicate n v"
    unfolding array_list_slots [OF inv'] by (intro nth_equalityI) (simp_all add: fields node_data_def)
  show "m_context_flag a' = ctx" "\<forall>k. \<not> owned (m_alloc a) (m_ref a') k" "\<not> node_is_read_only A a'"
    "\<forall>q k. q \<noteq> m_ref a' \<longrightarrow> owned (m_alloc a') q k = owned (m_alloc a) q k"
    using AL by (simp_all add: fields node_is_read_only_def is_read_only_def)
  show "get_type a' = type"
    by (cases type) (simp_all add: get_type_def fields inner_def refs_def)
qed

lemma array_get_byte_size_ok:
  assumes "array_inv A ainv owned a" "m_size a < 0x1000000"
    and "\<not> node_is_read_only A a" "array_get_byte_size A a = Inr n"
  shows "header_size + payload_bytes (m_size a) (m_width a) \<le> n"
    "n \<le> get_capacity_from_header (m_block a)"
  using assms round_up8_ge [of "payload_bytes (m_size a) (m_width a)"]
  by (auto simp: array_get_byte_size_def result_simps array_inv_def node_inv_def calc_byte_size_bits
      payload_bytes_def header_size_def)

end

subsection \<open>Moving the tail of one array to the end of another\<close>

function copy_elems :: "nat \<Rightarrow> mem \<Rightarrow> nat \<Rightarrow> nat \<Rightarrow> nat \<Rightarrow> nat \<Rightarrow> mem \<Rightarrow> mem" where
  "copy_elems src_width src i sz width dest d =
     (if i < sz
      then copy_elems src_width src (Suc i) sz width (Suc dest)
             (set_direct width d dest (get_universal src_width src i))
      else d)"
  by pat_completeness auto
termination
  by (relation "measure (\<lambda>(sw, src, i, sz, w, dest, d). sz - i)") auto

declare copy_elems.simps [simp del]

definition array_move_into ::
  "'a alloc_class \<Rightarrow> nat \<Rightarrow> ('a, 'b) barq_array_scheme \<Rightarrow> ('a, 'b) barq_array_scheme \<Rightarrow>
     (('a, 'b) barq_array_scheme \<times> ('a, 'b) barq_array_scheme) result" where
  "array_move_into A ndx a dst =
     (let dest_begin = m_size dst;
          nb_to_move = (m_size a + 2 ^ 64 - ndx) mod 2 ^ 64
      in rbind (copy_on_write A dst) (\<lambda>dst1.
         rbind (ensure_minimum_width A (m_ubound a) dst1) (\<lambda>dst2.
         rbind (array_alloc A ((m_size dst2 + nb_to_move) mod 2 ^ 64) (m_width dst2) dst2) (\<lambda>dst3.
           let dst4 = set_node_data
                 (copy_elems (m_width a) (node_data a) ndx (m_size a) (m_width dst3) dest_begin (node_data dst3)) dst3
           in rbind (array_truncate A ndx (a\<lparr>m_alloc := m_alloc dst4\<rparr>)) (\<lambda>a1.
              Inr (a1, dst4\<lparr>m_alloc := m_alloc a1\<rparr>))))))"

lemma get_copy_elems:
  assumes "valid_width sw" "valid_width w" "sw \<le> w"
  shows "get_direct w (copy_elems sw src i sz w dest d) j =
    (if dest \<le> j \<and> j < dest + (sz - i) then get_direct sw src (j - dest + i) else get_direct w d j)"
proof (induction "sz - i" arbitrary: i dest d)
  case 0
  then show ?case by (simp add: copy_elems.simps)
next
  case (Suc m)
  have i: "i < sz" "m = sz - Suc i" using Suc.hyps(2) by simp_all
  have fit: "fits_width w (get_direct sw src i)"
    using fits_width_mono [OF get_direct_fits assms(3,1,2)] .
  define d1 where "d1 = set_direct w d dest (get_direct sw src i)"
  have "copy_elems sw src i sz w dest d = copy_elems sw src (Suc i) sz w (Suc dest) d1"
    using i by (simp add: copy_elems.simps [of _ _ i] get_universal_direct assms(1) d1_def)
  moreover have "get_direct w d1 k = (if k = dest then get_direct sw src i else get_direct w d k)" for k
    by (simp add: d1_def direct.get_put fit)
  moreover have "j - Suc dest + Suc i = j - dest + i" if "Suc dest \<le> j" using that by simp
  ultimately show ?case
    using i(1) Suc.hyps(1) [OF i(2), of "Suc dest" d1] by auto
qed

lemma copy_elems_slots:
  assumes "valid_width sw" "valid_width w" "sw \<le> w" "i \<le> sz"
  shows "slots w (n + (sz - i)) (copy_elems sw src i sz w n d) = slots w n d @ drop i (slots sw sz src)"
  using assms(4) by (intro nth_equalityI) (auto simp: get_copy_elems [OF assms(1-3)] nth_append add.commute)

lemma sub_mod64: "k \<le> (n :: nat) \<Longrightarrow> n < 2 ^ 24 \<Longrightarrow> (n + 2 ^ 64 - k) mod 2 ^ 64 = n - k"
  using mod_add_self2 [of "n - k" "2 ^ 64 :: nat"] by simp

lemma ubound_width:
  assumes "valid_width sw" "valid_width w" "fits_width w (ubound_for_width sw)"
  shows "sw \<le> w"
  using assms(1,2,3) unfolding fits_width_def tempex_id [OF assms(2)] valid_width_def insert_iff empty_iff
  by (elim disjE FalseE; hypsubst) (simp_all add: lbound_for_width_def ubound_for_width_def)

lemma ubound_int64: "int64_range (ubound_for_width w)"
  by (simp add: ubound_for_width_def int64_range_def)

context allocator
begin

text \<open>An operation on one accessor leaves the other one valid on the new allocator state.\<close>

lemma array_inv_other:
  assumes a: "array_inv A ainv owned a" and b': "array_inv A ainv owned b'" and ok: "others_kept A owned b b'"
    and s: "m_alloc a = m_alloc b" and r: "\<not> node_is_read_only A a \<longrightarrow> m_ref a \<noteq> m_ref b"
  shows "array_inv A ainv owned (a\<lparr>m_alloc := m_alloc b'\<rparr>)"
    "\<not> node_is_read_only A a \<Longrightarrow> m_ref a \<noteq> m_ref b'"
  using assms by (auto simp: array_inv_def node_inv_def parent_ok_def others_kept_def node_is_read_only_def
      is_read_only_def)

lemma array_list_alloc [simp]: "array_list (a\<lparr>m_alloc := s\<rparr>) = array_list a"
  by (simp add: array_list_def array_get_def [abs_def] node_data_def)

lemma array_move_into_correct:
  assumes a: "array_inv A ainv owned a" and d: "array_inv A ainv owned dst"
    and s: "m_alloc a = m_alloc dst" and r: "m_ref a \<noteq> m_ref dst"
    and ok: "array_move_into A ndx a dst = Inr (a', dst')"
  shows "array_inv A ainv owned a'" "array_inv A ainv owned dst'" "m_alloc a' = m_alloc dst'"
    "ndx \<le> m_size a" "array_list a' = take ndx (array_list a)"
    "array_list dst' = array_list dst @ drop ndx (array_list a)"
proof -
  obtain dst1 dst2 dst3 where c: "copy_on_write A dst = Inr dst1"
    and e: "ensure_minimum_width A (m_ubound a) dst1 = Inr dst2"
    and l: "array_alloc A ((m_size dst2 + (m_size a + 2 ^ 64 - ndx) mod 2 ^ 64) mod 2 ^ 64) (m_width dst2) dst2 = Inr dst3"
    and t: "array_truncate A ndx (a\<lparr>m_alloc := m_alloc dst3\<rparr>) = Inr a'"
    and dst': "dst' = (set_node_data (copy_elems (m_width a) (node_data a) ndx (m_size a) (m_width dst3)
        (m_size dst) (node_data dst3)) dst3)\<lparr>m_alloc := m_alloc a'\<rparr>"
    using ok by (auto simp: array_move_into_def Let_def rbind_eq_Inr)
  have ub: "m_ubound a = ubound_for_width (m_width a)" using a by (simp add: array_inv_def)
  note C = copy_on_write_array [OF d c]
  note E = ensure_minimum_width_correct [OF C(1) ubound_int64 e [unfolded ub]]
  note vw = array_inv_width [OF a] array_inv_width [OF E(1)]
  have le: "m_width a \<le> m_width dst2" by (rule ubound_width [OF vw E(4)])
  show n: "ndx \<le> m_size a" using t by (auto simp: array_truncate_def result_simps)
  have "m_size a < 2 ^ 24" "m_size dst2 < 2 ^ 24"
    using a E(1) get_size_from_header_less by (simp_all add: array_inv_def node_inv_def)
  then have "(m_size dst2 + (m_size a + 2 ^ 64 - ndx) mod 2 ^ 64) mod 2 ^ 64 = m_size dst2 + (m_size a - ndx)"
    using sub_mod64 [OF n] by simp
  note L = array_alloc_correct [OF E(1) vw(2) l [unfolded this]]
  have ok3: "others_kept A owned dst dst3"
    using others_kept_trans [OF others_kept_trans [OF C(7) E(7)] L(6)] .
  note I = array_inv_other [OF a L(1) ok3 s]
  note T = array_truncate_to [OF I(1) [OF impI] t]
  define dst4 where "dst4 = set_node_data (copy_elems (m_width a) (node_data a) ndx (m_size a)
    (m_width dst2) (m_size dst) (node_data dst3)) dst3"
  have d4: "array_inv A ainv owned dst4" "dst' = dst4\<lparr>m_alloc := m_alloc a'\<rparr>"
    using L by (simp_all add: dst4_def dst')
  have "array_list dst4 = slots (m_width dst2) (m_size dst + (m_size a - ndx)) (copy_elems (m_width a)
      (node_data a) ndx (m_size a) (m_width dst2) (m_size dst) (node_data dst3))"
    unfolding array_list_slots [OF d4(1)] by (simp add: dst4_def L E C)
  also have "\<dots> = array_list dst @ drop ndx (array_list a)"
    unfolding copy_elems_slots [OF vw le n] array_list_slots [OF a, symmetric]
    using L(7) E(2,3) C(3,5) by simp
  finally show "array_list dst' = array_list dst @ drop ndx (array_list a)" by (simp add: d4(2))
  have "m_ref a \<noteq> m_ref dst4"
    using L(2) I(2) r ok3 s by (auto simp: dst4_def node_is_read_only_def is_read_only_def others_kept_def)
  then show "array_inv A ainv owned dst'"
    unfolding d4(2) using T(2) r
    by (intro array_inv_other(1) [OF d4(1), of a' "a\<lparr>m_alloc := m_alloc dst3\<rparr>"])
      (auto simp: array_to_def dst4_def)
  show "array_inv A ainv owned a'" "array_list a' = take ndx (array_list a)" "m_alloc a' = m_alloc dst'"
    using T(2) r by (auto simp: array_to_def d4(2))
qed

end

end
