(* ===== verification/Slab_Alloc.thy ===== *)
theory Slab_Alloc
  imports Allocator
begin

text \<open>
  \<^verbatim>\<open>SlabAlloc\<close> (\<open>alloc_slab.hpp\<close>, \<open>alloc_slab.cpp\<close>): the allocator of the mutable part of the ref space.
  Memory comes in slabs. A slab is tiled by blocks, with a \<^verbatim>\<open>BetweenBlocks\<close> record before the first, between
  any two and after the last one; the record holds the size of the block before and of the block after it,
  positive for a free block, negative for one in use, zero at the ends of the slab. Free blocks are kept in
  one list per size. Freed space of the read-only file is collected in a map of disjoint ranges.

  A block is named by its ref, since addresses inside a slab and refs differ by a constant. The
  \<^verbatim>\<open>BetweenBlocks\<close> records are a store indexed by the ref of the record. The circular list of the free
  blocks of one size is the list of its refs, starting with the entry that the map points to. The contents
  of a freshly allocated block are a parameter.
\<close>

datatype free_space_state = free_space_Clean | free_space_Dirty | free_space_Invalid

record slab_alloc =
  m_slabs :: "(nat \<times> nat) list"
  m_bb :: "nat \<Rightarrow> int \<times> int"
  m_block_map :: "(int \<times> nat list) list"
  m_free_read_only :: "(nat \<times> nat) list"
  m_free_space_state :: free_space_state
  m_commit_size :: nat
  m_baseline :: nat
  m_slab_attached :: bool
  m_is_read_only :: bool

definition sizeof_FreeBlock :: int where
  "sizeof_FreeBlock = 24"

definition sizeof_BetweenBlocks :: int where
  "sizeof_BetweenBlocks = 8"

definition section_shift :: nat where
  "section_shift = 26"

definition minimal_alloc :: nat where
  "minimal_alloc = 128 * 1024"

definition maximal_alloc :: nat where
  "maximal_alloc = push_bit section_shift 1"

lemmas slab_consts = sizeof_FreeBlock_def sizeof_BetweenBlocks_def section_shift_def minimal_alloc_def
  maximal_alloc_def

subsection \<open>Sections\<close>

definition get_section_base :: "nat \<Rightarrow> nat" where
  "get_section_base index = push_bit section_shift index"

definition get_section_index :: "nat \<Rightarrow> nat" where
  "get_section_index pos = drop_bit section_shift pos"

definition get_upper_section_boundary :: "nat \<Rightarrow> nat" where
  "get_upper_section_boundary start_pos = get_section_base (1 + get_section_index start_pos)"

definition get_lower_section_boundary :: "nat \<Rightarrow> nat" where
  "get_lower_section_boundary start_pos = get_section_base (get_section_index start_pos)"

definition matches_section_boundary :: "nat \<Rightarrow> bool" where
  "matches_section_boundary pos \<longleftrightarrow> pos = get_lower_section_boundary pos"

definition align_size_to_section_boundary :: "nat \<Rightarrow> nat" where
  "align_size_to_section_boundary sz =
     (if matches_section_boundary sz then sz else get_upper_section_boundary sz)"

subsection \<open>Navigating between blocks\<close>

definition bb_before :: "nat \<Rightarrow> nat" where
  "bb_before entry = entry - 8"

definition size_from_block :: "slab_alloc \<Rightarrow> nat \<Rightarrow> int" where
  "size_from_block s entry = snd (m_bb s (bb_before entry))"

definition bb_after :: "slab_alloc \<Rightarrow> nat \<Rightarrow> nat" where
  "bb_after s entry = nat (int entry + size_from_block s entry)"

text \<open>\<^verbatim>\<open>block_before\<close> compares the size after its conversion to \<open>size_t\<close>, so a negative size passes the test.\<close>

definition block_before :: "slab_alloc \<Rightarrow> nat \<Rightarrow> nat option" where
  "block_before s bb = (let sz = fst (m_bb s bb) in if sz = 0 then None else Some (nat (int bb - sz)))"

definition block_after :: "slab_alloc \<Rightarrow> nat \<Rightarrow> nat option" where
  "block_after s bb = (if snd (m_bb s bb) \<le> 0 then None else Some (bb + 8))"

definition get_prev_block_if_mergeable :: "slab_alloc \<Rightarrow> nat \<Rightarrow> nat option" where
  "get_prev_block_if_mergeable s entry =
     (let bb = bb_before entry
      in if fst (m_bb s bb) \<le> 0 then None else block_before s bb)"

definition get_next_block_if_mergeable :: "slab_alloc \<Rightarrow> nat \<Rightarrow> nat option" where
  "get_next_block_if_mergeable s entry =
     (let bb = bb_after s entry
      in if snd (m_bb s bb) \<le> 0 then None else block_after s bb)"

definition set_before :: "nat \<Rightarrow> int \<Rightarrow> slab_alloc \<Rightarrow> slab_alloc" where
  "set_before bb v s = s\<lparr>m_bb := (m_bb s)(bb := (v, snd (m_bb s bb)))\<rparr>"

definition set_after :: "nat \<Rightarrow> int \<Rightarrow> slab_alloc \<Rightarrow> slab_alloc" where
  "set_after bb v s = s\<lparr>m_bb := (m_bb s)(bb := (fst (m_bb s bb), v))\<rparr>"

subsection \<open>The free lists\<close>

text \<open>\<^verbatim>\<open>std::map<int, FreeBlock*>\<close>: an association list sorted by size.\<close>

fun fl_update :: "int \<Rightarrow> nat list \<Rightarrow> (int \<times> nat list) list \<Rightarrow> (int \<times> nat list) list" where
  "fl_update k l [] = [(k, l)]"
| "fl_update k l ((k', l') # m) =
     (if k < k' then (k, l) # (k', l') # m
      else if k = k' then (k, l) # m
      else (k', l') # fl_update k l m)"

definition fl_erase :: "int \<Rightarrow> (int \<times> nat list) list \<Rightarrow> (int \<times> nat list) list" where
  "fl_erase k m = filter (\<lambda>e. fst e \<noteq> k) m"

definition fl_store :: "int \<Rightarrow> nat list \<Rightarrow> (int \<times> nat list) list \<Rightarrow> (int \<times> nat list) list" where
  "fl_store k l m = (if l = [] then fl_erase k m else fl_update k l m)"

text \<open>A \<^verbatim>\<open>FreeList\<close>: the size of the list found (0 when none was) and the rest of the map from its iterator on.\<close>

type_synonym free_list = "int \<times> (int \<times> nat list) list"

definition found_something :: "free_list \<Rightarrow> bool" where
  "found_something l \<longleftrightarrow> fst l \<noteq> 0"

definition found_exact :: "free_list \<Rightarrow> int \<Rightarrow> bool" where
  "found_exact l sz \<longleftrightarrow> fst l = sz"

definition fl_find :: "slab_alloc \<Rightarrow> int \<Rightarrow> free_list" where
  "fl_find s sz =
     (let it = dropWhile (\<lambda>e. fst e < sz) (m_block_map s)
      in (case it of [] \<Rightarrow> 0 | e # _ \<Rightarrow> fst e, it))"

definition find_larger :: "free_list \<Rightarrow> int \<Rightarrow> free_list" where
  "find_larger hint sz =
     (let needed_size = sz + sizeof_BetweenBlocks + sizeof_FreeBlock;
          it = dropWhile (\<lambda>e. fst e < needed_size) (snd hint)
      in (if it = [] then 0 else fst hint, it))"

text \<open>Only called on a list that was found, whose iterator is valid.\<close>

definition pop_freelist_entry :: "free_list \<Rightarrow> slab_alloc \<Rightarrow> (nat \<times> slab_alloc) result" where
  "pop_freelist_entry l s =
     (case snd l of
        (k, r # rs) # _ \<Rightarrow> Inr (r, s\<lparr>m_block_map := fl_store k rs (m_block_map s)\<rparr>)
      | _ \<Rightarrow> Inl AssertFailed)"

definition remove_freelist_entry :: "nat \<Rightarrow> slab_alloc \<Rightarrow> slab_alloc result" where
  "remove_freelist_entry entry s =
     (let sz = size_from_block s entry
      in case map_of (m_block_map s) sz of
           None \<Rightarrow> Inl AssertFailed
         | Some l \<Rightarrow> Inr (s\<lparr>m_block_map := fl_store sz (remove1 entry l) (m_block_map s)\<rparr>))"

definition push_freelist_entry :: "nat \<Rightarrow> slab_alloc \<Rightarrow> slab_alloc" where
  "push_freelist_entry entry s =
     (let sz = size_from_block s entry
      in case map_of (m_block_map s) sz of
           Some l \<Rightarrow> s\<lparr>m_block_map := fl_update sz (entry # l) (m_block_map s)\<rparr>
         | None \<Rightarrow> s\<lparr>m_block_map := fl_update sz [entry] (m_block_map s)\<rparr>)"

subsection \<open>Marking, breaking and merging blocks\<close>

definition mark_freed :: "nat \<Rightarrow> int \<Rightarrow> slab_alloc \<Rightarrow> slab_alloc result" where
  "mark_freed entry sz s =
     (let bb = bb_before entry
      in rbind (rassert (snd (m_bb s bb) < 0)) (\<lambda>_.
        let alloc_size = - snd (m_bb s bb);
            max_waste = sizeof_FreeBlock + sizeof_BetweenBlocks
        in rbind (rassert (sz \<le> alloc_size \<and> alloc_size \<le> sz + max_waste)) (\<lambda>_.
          let s1 = set_after bb alloc_size s; bb2 = bb_after s1 entry
          in rbind (rassert (fst (m_bb s1 bb2) < 0)) (\<lambda>_.
             rbind (rassert (- fst (m_bb s1 bb2) = alloc_size)) (\<lambda>_.
             Inr (set_before bb2 alloc_size s1))))))"

definition mark_allocated :: "nat \<Rightarrow> slab_alloc \<Rightarrow> slab_alloc result" where
  "mark_allocated entry s =
     (let bb = bb_before entry
      in rbind (rassert (0 < snd (m_bb s bb))) (\<lambda>_.
        let bb2 = bb_after s entry;
            s1 = set_after bb (0 - snd (m_bb s bb)) s
        in rbind (rassert (0 < fst (m_bb s1 bb2))) (\<lambda>_.
           Inr (set_before bb2 (0 - fst (m_bb s1 bb2)) s1))))"

definition break_block :: "nat \<Rightarrow> int \<Rightarrow> slab_alloc \<Rightarrow> nat option \<times> slab_alloc" where
  "break_block block new_size s =
     (let sz = size_from_block s block;
          remaining_size = sz - (new_size + sizeof_BetweenBlocks)
      in if remaining_size < sizeof_FreeBlock then (None, s)
         else let s1 = set_before (bb_after s block) remaining_size s;
                  s2 = set_after (bb_before block) new_size s1;
                  bb_between = bb_after s2 block;
                  s3 = set_before bb_between new_size s2;
                  s4 = set_after bb_between remaining_size s3
              in (block_after s4 bb_between, s4))"

definition merge_blocks :: "nat \<Rightarrow> nat \<Rightarrow> slab_alloc \<Rightarrow> nat \<times> slab_alloc" where
  "merge_blocks block1 block2 s =
     (let size_first = size_from_block s block1;
          size_last = size_from_block s block2;
          new_size = size_first + size_last + sizeof_BetweenBlocks;
          s1 = set_after (bb_before block1) new_size s
      in (block1, set_before (bb_after s1 block2) new_size s1))"

subsection \<open>Growing\<close>

definition get_allocated_size :: "slab_alloc \<Rightarrow> nat" where
  "get_allocated_size s = sum_list (map snd (m_slabs s))"

definition slab_to_entry :: "nat \<times> nat \<Rightarrow> nat \<Rightarrow> slab_alloc \<Rightarrow> nat \<times> slab_alloc" where
  "slab_to_entry slab ref_start s =
     (let block_size = int (fst slab) - int ref_start - 2 * sizeof_BetweenBlocks;
          s1 = s\<lparr>m_bb := (m_bb s)(ref_start := (0, block_size))\<rparr>;
          entry = ref_start + 8;
          bb = bb_after s1 entry
      in (entry, s1\<lparr>m_bb := (m_bb s1)(bb := (block_size, 0))\<rparr>))"

function slab_size_loop :: "nat \<Rightarrow> int \<Rightarrow> nat" where
  "slab_size_loop new_size sz =
     (if int new_size < sz then slab_size_loop (new_size + minimal_alloc) sz else new_size)"
  by pat_completeness auto
termination
  by (relation "measure (\<lambda>(n, sz). nat (sz - int n))") (auto simp: minimal_alloc_def)

declare slab_size_loop.simps [simp del]

definition grow_slab :: "int \<Rightarrow> slab_alloc \<Rightarrow> (nat \<times> slab_alloc) result" where
  "grow_slab sz0 s =
     (let sz = sz0 + 2 * sizeof_BetweenBlocks;
          new_size0 = slab_size_loop minimal_alloc sz;
          already_allocated = get_allocated_size s;
          new_size1 = (if new_size0 < already_allocated then already_allocated else new_size0);
          new_size = (if maximal_alloc < new_size1 then maximal_alloc else new_size1);
          ref0 = (if m_slabs s = [] then m_baseline s else fst (last (m_slabs s)));
          ref = align_size_to_section_boundary ref0;
          ref_end = ref + new_size
      in if 2 ^ 64 \<le> ref_end then Inl MaximumFileSizeExceeded
         else rbind (rassert (matches_section_boundary ref)) (\<lambda>_.
           let slab = (ref_end, new_size)
           in Inr (slab_to_entry slab ref (s\<lparr>m_slabs := m_slabs s @ [slab]\<rparr>))))"

definition allocate_block :: "int \<Rightarrow> slab_alloc \<Rightarrow> (nat \<times> slab_alloc) result" where
  "allocate_block sz s =
     (let lst = fl_find s sz
      in if found_exact lst sz then pop_freelist_entry lst s
         else let lst' = find_larger lst sz
           in rbind (if found_something lst' then pop_freelist_entry lst' s else grow_slab sz s)
                (\<lambda>(block, s1).
              let (remaining, s2) = break_block block sz s1;
                  s3 = (case remaining of None \<Rightarrow> s2 | Some r \<Rightarrow> push_freelist_entry r s2)
              in rbind (rassert (sz \<le> size_from_block s3 block)) (\<lambda>_. Inr (block, s3))))"

definition clear_freelists :: "slab_alloc \<Rightarrow> slab_alloc" where
  "clear_freelists s = s\<lparr>m_block_map := []\<rparr>"

fun rebuild_slabs :: "(nat \<times> nat) list \<Rightarrow> nat \<Rightarrow> slab_alloc \<Rightarrow> slab_alloc" where
  "rebuild_slabs [] ref_start s = s"
| "rebuild_slabs (e # es) ref_start s =
     (let (entry, s1) = slab_to_entry e ref_start s
      in rebuild_slabs es (align_size_to_section_boundary (fst e)) (push_freelist_entry entry s1))"

definition rebuild_freelists_from_slab :: "slab_alloc \<Rightarrow> slab_alloc" where
  "rebuild_freelists_from_slab s =
     rebuild_slabs (m_slabs s) (align_size_to_section_boundary (m_baseline s)) (clear_freelists s)"

subsection \<open>The allocator operations\<close>

text \<open>A block holds at least a \<^verbatim>\<open>FreeBlock\<close> and its size is a multiple of 8.\<close>

definition fix_size :: "nat \<Rightarrow> int" where
  "fix_size sz0 =
     (let sz = (if int sz0 < sizeof_FreeBlock then nat sizeof_FreeBlock else sz0)
      in int (if sz AND 0x7 \<noteq> 0 then push_bit 3 (drop_bit 3 (sz + 7)) else sz))"

definition slab_do_alloc :: "(nat \<Rightarrow> mem) \<Rightarrow> nat \<Rightarrow> slab_alloc \<Rightarrow> (mem_ref \<times> slab_alloc) result" where
  "slab_do_alloc fresh sz s =
     rbind (rassert (0 < sz)) (\<lambda>_.
     rbind (rassert (sz AND 0x7 = 0)) (\<lambda>_.
     rbind (rassert (m_slab_attached s)) (\<lambda>_.
     rbind (rassert (sz < push_bit section_shift 1)) (\<lambda>_.
       if m_free_space_state s = free_space_Invalid then Inl InvalidFreeSpace
       else let s1 = s\<lparr>m_free_space_state := free_space_Dirty,
                       m_commit_size := (m_commit_size s + sz) mod 2 ^ 64\<rparr>
         in rbind (allocate_block (fix_size sz) s1) (\<lambda>(entry, s2).
            rbind (mark_allocated entry s2) (\<lambda>s3.
            rbind (rassert (m_baseline s3 \<le> entry)) (\<lambda>_.
            Inr ((entry, fresh entry), s3))))))))"

definition free_block :: "nat \<Rightarrow> slab_alloc \<Rightarrow> slab_alloc result" where
  "free_block ref s =
     rbind (case get_prev_block_if_mergeable s ref of
              None \<Rightarrow> Inr (ref, s)
            | Some prev \<Rightarrow> rbind (remove_freelist_entry prev s) (\<lambda>s1. Inr (merge_blocks prev ref s1)))
       (\<lambda>(block, s1).
     rbind (case get_next_block_if_mergeable s1 block of
              None \<Rightarrow> Inr (block, s1)
            | Some nxt \<Rightarrow> rbind (remove_freelist_entry nxt s1) (\<lambda>s2. Inr (merge_blocks block nxt s2)))
       (\<lambda>(block', s2).
     Inr (push_freelist_entry block' s2)))"

text \<open>Recording a freed range of the read-only file: \<open>before\<close> and \<open>after\<close> are the parts of the map on both
  sides of the iterator that \<^verbatim>\<open>lower_bound\<close> returns.\<close>

definition free_read_only :: "nat \<Rightarrow> nat \<Rightarrow> (nat \<times> nat) list \<Rightarrow> (nat \<times> nat) list result" where
  "free_read_only ref sz m =
     rbind (rassert (ref \<noteq> 0)) (\<lambda>_.
     rbind (rassert (ref AND 7 = 0)) (\<lambda>_.
       let before = takeWhile (\<lambda>e. fst e < ref) m; after = dropWhile (\<lambda>e. fst e < ref) m
       in rbind (case after of
                   [] \<Rightarrow> Inr (sz, [])
                 | (nr, ns) # after' \<Rightarrow>
                     rbind (rassert (ref + sz \<le> nr)) (\<lambda>_.
                       if ref + sz = nr then Inr (sz + ns, after') else Inr (sz, after)))
            (\<lambda>(sz', after').
          if before \<noteq> []
          then let (pr, ps) = last before
            in rbind (rassert (pr + ps \<le> ref)) (\<lambda>_.
                 if pr + ps = ref then Inr (butlast before @ (pr, ps + sz') # after')
                 else Inr (before @ (ref, sz') # after'))
          else Inr ((ref, sz') # after'))))"

definition slab_do_free :: "nat \<Rightarrow> mem \<Rightarrow> slab_alloc \<Rightarrow> slab_alloc result" where
  "slab_do_free ref addr s =
     (let read_only = ref < m_baseline s
      in rbind (if read_only then get_byte_size_from_header addr else Inr (get_capacity_from_header addr))
           (\<lambda>sz.
         if m_free_space_state s = free_space_Invalid then Inr s
         else rbind (rassert (read_only \<or> m_free_space_state s = free_space_Dirty)) (\<lambda>_.
           let s1 = s\<lparr>m_free_space_state := free_space_Dirty\<rparr>
           in if read_only
              then rbind (free_read_only ref sz (m_free_read_only s1)) (\<lambda>m.
                   Inr (s1\<lparr>m_free_read_only := m\<rparr>))
              else let s2 = s1\<lparr>m_commit_size := (m_commit_size s1 + 2 ^ 64 - sz) mod 2 ^ 64\<rparr>
                in rbind (rassert (fix_size sz < 2 * 1024 * 1024 * 1024)) (\<lambda>_.
                   rbind (mark_freed ref (fix_size sz) s2) (\<lambda>s3.
                   free_block ref s3)))))"

definition slab_do_realloc ::
  "(nat \<Rightarrow> mem) \<Rightarrow> nat \<Rightarrow> mem \<Rightarrow> nat \<Rightarrow> nat \<Rightarrow> slab_alloc \<Rightarrow> (mem_ref \<times> slab_alloc) result" where
  "slab_do_realloc fresh ref addr old_size new_size s =
     rbind (rassert (0 < new_size)) (\<lambda>_.
     rbind (rassert (new_size AND 0x7 = 0)) (\<lambda>_.
     rbind (slab_do_alloc fresh new_size s) (\<lambda>((new_ref, new_addr), s1).
     rbind (slab_do_free ref addr s1) (\<lambda>s2.
     Inr ((new_ref, copy_n addr old_size new_addr), s2)))))"

definition consolidate_free_read_only :: "slab_alloc \<Rightarrow> nat result" where
  "consolidate_free_read_only s =
     (if m_free_space_state s = free_space_Invalid then Inl InvalidFreeSpace
      else Inr (length (m_free_read_only s)))"

definition release_slabs :: "(nat \<times> nat) list \<Rightarrow> (nat \<times> nat) list" where
  "release_slabs slabs =
     (case slabs of [] \<Rightarrow> [] | sl # _ \<Rightarrow> if minimal_alloc < snd sl then [] else [sl])"

definition reset_free_space_tracking :: "slab_alloc \<Rightarrow> slab_alloc" where
  "reset_free_space_tracking s =
     (if m_free_space_state s = free_space_Clean then s
      else (rebuild_freelists_from_slab (s\<lparr>m_free_read_only := [], m_slabs := release_slabs (m_slabs s)\<rparr>))
             \<lparr>m_free_space_state := free_space_Clean, m_commit_size := 0\<rparr>)"

definition slab_class :: "(nat \<Rightarrow> mem) \<Rightarrow> slab_alloc alloc_class" where
  "slab_class fresh =
     \<lparr>do_alloc = slab_do_alloc fresh, do_realloc = slab_do_realloc fresh, do_free = slab_do_free,
      baseline = m_baseline, is_read_only_mode = m_is_read_only\<rparr>"

end
