(* ===== verification/Slab_Tiles.thy ===== *)
theory Slab_Tiles
  imports Slab_Alloc
begin

text \<open>
  The tiling of a slab. \<open>walk_slab\<close> follows the \<^verbatim>\<open>BetweenBlocks\<close> records from the start of a slab the way
  \<^verbatim>\<open>SlabAlloc::for_all_free_entries\<close> does; \<open>tiling\<close> says that the records form a well-formed slab. The lemmas
  say how a change of some records changes the tiling, for the four things the allocator does to blocks:
  marking, breaking, merging and adding a slab.
\<close>

type_synonym tile = "nat \<times> int"

function walk_slab :: "(nat \<Rightarrow> int \<times> int) \<Rightarrow> nat \<Rightarrow> nat \<Rightarrow> tile list" where
  "walk_slab bb p e =
     (let k = snd (bb p)
      in if k = 0 \<or> e \<le> p then [(p + 8, 0)] else (p + 8, k) # walk_slab bb (p + 8 + nat \<bar>k\<bar>) e)"
  by pat_completeness auto
termination
  by (relation "measure (\<lambda>(bb, p, e). e - p)") auto

declare walk_slab.simps [simp del]

text \<open>The size of a block in use is its negated entry.\<close>

definition block_ok :: "int \<Rightarrow> bool" where
  "block_ok k \<longleftrightarrow> sizeof_FreeBlock \<le> \<bar>k\<bar> \<and> \<bar>k\<bar> mod 8 = 0"

fun tiling :: "(nat \<Rightarrow> int \<times> int) \<Rightarrow> int \<Rightarrow> nat \<Rightarrow> nat \<Rightarrow> tile list \<Rightarrow> bool" where
  "tiling bb b p e [] \<longleftrightarrow> False"
| "tiling bb b p e [(r, k)] \<longleftrightarrow> bb p = (b, k) \<and> k = 0 \<and> r = p + 8 \<and> e = p + 8"
| "tiling bb b p e ((r, k) # t # ts) \<longleftrightarrow>
     bb p = (b, k) \<and> block_ok k \<and> r = p + 8 \<and> tiling bb k (p + 8 + nat \<bar>k\<bar>) e (t # ts)"

lemma block_ok_nonzero: "block_ok k \<Longrightarrow> k \<noteq> 0"
  by (auto simp: block_ok_def slab_consts)

lemma block_ok_dvd: "block_ok k \<longleftrightarrow> 24 \<le> \<bar>k\<bar> \<and> 8 dvd k"
  by (simp add: block_ok_def slab_consts dvd_eq_mod_eq_0 [symmetric])

lemma tiling_end: "tiling bb b p e ts \<Longrightarrow> p < e"
  by (induction bb b p e ts rule: tiling.induct) auto

lemma walk_tiling: "tiling bb b p e ts \<Longrightarrow> walk_slab bb p e = ts"
proof (induction bb b p e ts rule: tiling.induct)
  case (3 bb b p e r k t ts)
  then show ?case
    using tiling_end [of bb k "p + 8 + nat \<bar>k\<bar>" e "t # ts"] block_ok_nonzero [of k]
    by (subst walk_slab.simps) (simp add: Let_def)
qed (simp_all add: walk_slab.simps)

lemma tiling_cong:
  assumes "\<And>q. p \<le> q \<Longrightarrow> q < e \<Longrightarrow> bb q = bb' q"
  shows "tiling bb b p e ts = tiling bb' b p e ts"
  using assms
proof (induction bb b p e ts rule: tiling.induct)
  case (3 bb b p e r k t ts)
  have "tiling bb k (p + 8 + nat \<bar>k\<bar>) e (t # ts) = tiling bb' k (p + 8 + nat \<bar>k\<bar>) e (t # ts)"
    using "3.prems" by (intro "3.IH") auto
  moreover have "bb p = bb' p" if "tiling bb' k (p + 8 + nat \<bar>k\<bar>) e (t # ts)"
    using tiling_end [OF that] "3.prems" by simp
  ultimately show ?case by auto
qed auto

subsection \<open>Cutting a tiling\<close>

fun seg :: "(nat \<Rightarrow> int \<times> int) \<Rightarrow> int \<Rightarrow> nat \<Rightarrow> tile list \<Rightarrow> bool" where
  "seg bb b p [] \<longleftrightarrow> True"
| "seg bb b p ((r, k) # ts) \<longleftrightarrow>
     bb p = (b, k) \<and> block_ok k \<and> r = p + 8 \<and> seg bb k (p + 8 + nat \<bar>k\<bar>) ts"

fun span :: "tile list \<Rightarrow> nat" where
  "span [] = 0"
| "span ((r, k) # ts) = 8 + nat \<bar>k\<bar> + span ts"

fun last_size :: "int \<Rightarrow> tile list \<Rightarrow> int" where
  "last_size b [] = b"
| "last_size b ((r, k) # ts) = last_size k ts"

lemma tiling_append:
  "tiling bb b p e (xs @ t # ys) \<longleftrightarrow>
     seg bb b p xs \<and> tiling bb (last_size b xs) (p + span xs) e (t # ys)"
proof (induction xs arbitrary: b p)
  case (Cons x xs)
  obtain r k where x: "x = (r, k)" by (cases x)
  have "tiling bb b p e ((r, k) # xs @ t # ys) \<longleftrightarrow> bb p = (b, k) \<and> block_ok k \<and> r = p + 8 \<and>
      tiling bb k (p + 8 + nat \<bar>k\<bar>) e (xs @ t # ys)"
    by (cases "xs @ t # ys") simp_all
  then show ?case by (simp add: x Cons.IH add.assoc)
qed simp

lemma seg_append: "seg bb b p (xs @ ys) \<longleftrightarrow> seg bb b p xs \<and> seg bb (last_size b xs) (p + span xs) ys"
  by (induction bb b p xs rule: seg.induct) (auto simp: add.assoc)

lemma span_append [simp]: "span (xs @ ys) = span xs + span ys"
  by (induction xs rule: span.induct) auto

lemma last_size_append [simp]: "last_size b (xs @ ys) = last_size (last_size b xs) ys"
  by (induction b xs rule: last_size.induct) auto

lemma seg_cong:
  "(\<And>q. p \<le> q \<Longrightarrow> q < p + span ts \<Longrightarrow> bb q = bb' q) \<Longrightarrow> seg bb b p ts = seg bb' b p ts"
proof (induction bb b p ts rule: seg.induct)
  case (2 bb b p r k ts)
  then have "seg bb k (p + 8 + nat \<bar>k\<bar>) ts = seg bb' k (p + 8 + nat \<bar>k\<bar>) ts" by (intro "2.IH") auto
  moreover have "bb p = bb' p" using "2.prems" by simp
  ultimately show ?case by simp
qed simp

lemma tiling_refs: "tiling bb b p e ts \<Longrightarrow> (r, k) \<in> set ts \<Longrightarrow> p + 8 \<le> r \<and> r \<le> e"
proof (induction bb b p e ts rule: tiling.induct)
  case (3 bb b p e r' k' t ts)
  then show ?case using tiling_end [of bb k' "p + 8 + nat \<bar>k'\<bar>" e "t # ts"] by auto
qed auto

text \<open>The blocks between the tiles \<open>xs\<close> and the tile \<open>t\<close> may be replaced by others of the same extent, when the
  records from the first of them to the one before \<open>t\<close> are written accordingly.\<close>

lemma tiling_replace:
  assumes t: "tiling bb b p e (xs @ ms @ (r, k) # ys)"
    and seg': "seg bb' (last_size b xs) (p + span xs) ms'" and sp: "span ms' = span ms"
    and z: "bb' (p + span xs + span ms) = (last_size (last_size b xs) ms', k)"
    and frame: "\<And>q. q < p + span xs \<or> p + span xs + span ms < q \<Longrightarrow> bb' q = bb q"
  shows "tiling bb' b p e (xs @ ms' @ (r, k) # ys)"
proof -
  have T: "seg bb b p xs" "tiling bb (last_size (last_size b xs) ms) (p + span xs + span ms) e ((r, k) # ys)"
    using t tiling_append [of bb b p e "xs @ ms" "(r, k)" ys] by (auto simp: seg_append add.assoc)
  have "seg bb' b p xs" using T(1) seg_cong [of p xs bb bb' b] frame by auto
  moreover have "tiling bb' (last_size (last_size b xs) ms') (p + span xs + span ms) e ((r, k) # ys)"
  proof (cases ys)
    case Nil
    then show ?thesis using T(2) z by simp
  next
    case (Cons y ys')
    have "tiling bb k (p + span xs + span ms + 8 + nat \<bar>k\<bar>) e ys = tiling bb' k (p + span xs + span ms + 8 + nat \<bar>k\<bar>) e ys"
      by (rule tiling_cong) (simp add: frame)
    then show ?thesis using T(2) z by (simp add: Cons)
  qed
  ultimately show ?thesis
    using seg' tiling_append [of bb' b p e "xs @ ms'" "(r, k)" ys] by (simp add: seg_append sp add.assoc)
qed

subsection \<open>The block operations on a tiling\<close>

lemma tiling_block:
  assumes "tiling bb b p e (xs @ (r, k) # (rz, kz) # ys)"
  shows "r = p + span xs + 8" "bb (p + span xs) = (last_size b xs, k)" "block_ok k"
    "bb (p + span xs + 8 + nat \<bar>k\<bar>) = (k, kz)" "rz = r + nat \<bar>k\<bar> + 8" "p + span xs + 8 + nat \<bar>k\<bar> < e"
proof -
  from assms have t: "tiling bb (last_size b xs) (p + span xs) e ((r, k) # (rz, kz) # ys)"
    by (simp only: tiling_append)
  then have t2: "tiling bb k (p + span xs + 8 + nat \<bar>k\<bar>) e ((rz, kz) # ys)" by simp
  then have "bb (p + span xs + 8 + nat \<bar>k\<bar>) = (k, kz) \<and> rz = p + span xs + 8 + nat \<bar>k\<bar> + 8"
    by (cases ys) auto
  with t tiling_end [OF t2] show "r = p + span xs + 8" "bb (p + span xs) = (last_size b xs, k)" "block_ok k"
    "bb (p + span xs + 8 + nat \<bar>k\<bar>) = (k, kz)" "rz = r + nat \<bar>k\<bar> + 8" "p + span xs + 8 + nat \<bar>k\<bar> < e"
    by simp_all
qed

text \<open>The store after an operation: only records of the slab from \<open>p\<close> to \<open>e\<close> have changed.\<close>

definition records_outside_kept :: "nat \<Rightarrow> nat \<Rightarrow> (nat \<Rightarrow> int \<times> int) \<Rightarrow> (nat \<Rightarrow> int \<times> int) \<Rightarrow> bool" where
  "records_outside_kept p e bb bb' \<longleftrightarrow> (\<forall>q. q < p \<or> e \<le> q \<longrightarrow> bb' q = bb q)"

lemma records_outside_kept_trans:
  "records_outside_kept p e bb bb' \<Longrightarrow> records_outside_kept p e bb' bb'' \<Longrightarrow> records_outside_kept p e bb bb''"
  by (simp add: records_outside_kept_def)

lemma set_size_tiling:
  assumes t: "tiling bb b p e (xs @ (r, k) # (rz, kz) # ys)" and k': "\<bar>k'\<bar> = \<bar>k\<bar>"
    and bb': "bb' = bb(p + span xs := (last_size b xs, k'), p + span xs + 8 + nat \<bar>k\<bar> := (k', kz))"
  shows "tiling bb' b p e (xs @ (r, k') # (rz, kz) # ys)" "records_outside_kept p e bb bb'"
proof -
  note B = tiling_block [OF t]
  have sg: "seg bb' (last_size b xs) (p + span xs) [(r, k')]"
    using B(1,3) k' by (simp add: bb' block_ok_def)
  have fr: "bb' q' = bb q'" if "q' < p + span xs \<or> p + span xs + span [(r, k)] < q'" for q'
    using that by (auto simp: bb')
  have zz: "bb' (p + span xs + span [(r, k)]) = (last_size (last_size b xs) [(r, k')], kz)"
    by (simp add: bb')
  have "tiling bb b p e (xs @ [(r, k)] @ (rz, kz) # ys)" using t by simp
  from tiling_replace [OF this sg _ zz fr] have "tiling bb' b p e (xs @ [(r, k')] @ (rz, kz) # ys)"
    by (simp add: k')
  then show "tiling bb' b p e (xs @ (r, k') # (rz, kz) # ys)" by simp
  show "records_outside_kept p e bb bb'" using B(6) by (auto simp: records_outside_kept_def bb')
qed

lemma mark_allocated_tiling:
  assumes t: "tiling (m_bb s) b p e (xs @ (r, k) # z # ys)" and k: "0 < k"
  shows "\<exists>bb'. mark_allocated r s = Inr (s\<lparr>m_bb := bb'\<rparr>) \<and> tiling bb' b p e (xs @ (r, - k) # z # ys) \<and>
    records_outside_kept p e (m_bb s) bb'"
proof -
  obtain rz kz where z: "z = (rz, kz)" by (cases z)
  note B = tiling_block [OF t [unfolded z]]
  define bb' where "bb' = (m_bb s)(p + span xs := (last_size b xs, - k), p + span xs + 8 + nat \<bar>k\<bar> := (- k, kz))"
  have "mark_allocated r s = Inr (s\<lparr>m_bb := bb'\<rparr>)"
    using B k by (simp add: mark_allocated_def bb_before_def Let_def bb_after_def size_from_block_def
        set_after_def set_before_def bb'_def nat_add_distrib)
  with set_size_tiling [OF t [unfolded z], of "- k" bb'] show ?thesis
    by (auto simp: bb'_def z)
qed

lemma mark_freed_tiling:
  assumes t: "tiling (m_bb s) b p e (xs @ (r, - k) # z # ys)" and k: "0 < k" and sz: "sz \<le> k" "k \<le> sz + 32"
  shows "\<exists>bb'. mark_freed r sz s = Inr (s\<lparr>m_bb := bb'\<rparr>) \<and> tiling bb' b p e (xs @ (r, k) # z # ys) \<and>
    records_outside_kept p e (m_bb s) bb'"
proof -
  obtain rz kz where z: "z = (rz, kz)" by (cases z)
  note B = tiling_block [OF t [unfolded z]]
  define bb' where "bb' = (m_bb s)(p + span xs := (last_size b xs, k), p + span xs + 8 + nat \<bar>k\<bar> := (k, kz))"
  have "mark_freed r sz s = Inr (s\<lparr>m_bb := bb'\<rparr>)"
    using B k sz by (simp add: mark_freed_def bb_before_def Let_def bb_after_def size_from_block_def
        set_after_def set_before_def bb'_def nat_add_distrib slab_consts)
  with set_size_tiling [OF t [unfolded z], of k bb'] show ?thesis
    by (auto simp: bb'_def z)
qed

lemma break_block_tiling:
  assumes t: "tiling (m_bb s) b p e (xs @ (r, int k) # z # ys)" and k: "k = n + 8 + m"
    and n: "block_ok (int n)" and m: "24 \<le> m"
  shows "\<exists>bb'. break_block r (int n) s = (Some (r + n + 8), s\<lparr>m_bb := bb'\<rparr>) \<and>
    tiling bb' b p e (xs @ (r, int n) # (r + n + 8, int m) # z # ys) \<and>
    records_outside_kept p e (m_bb s) bb'"
proof -
  obtain rz kz where z: "z = (rz, kz)" by (cases z)
  define q where "q = p + span xs"
  note B = tiling_block [OF t [unfolded z], folded q_def]
  define bb' where "bb' = (m_bb s)(q + 8 + k := (int m, kz), q := (last_size b xs, int n),
    q + 8 + n := (int n, int m))"
  have rem: "int k - (int n + 8) = int m" by (simp add: k)
  have at: "nat (int (q + 8) + int k) = q + 8 + k" "nat (int (q + 8) + int n) = q + 8 + n"
    "q + 8 + k \<noteq> q" "q + 8 + n \<noteq> q" "q + 8 + k \<noteq> q + 8 + n" "0 < m"
    using m by (simp_all add: k)
  have "break_block r (int n) s = (Some (r + n + 8), s\<lparr>m_bb := bb'\<rparr>)"
    using at B(1,2,4) m rem unfolding break_block_def Let_def size_from_block_def bb_before_def slab_consts
    by (simp add: bb_after_def size_from_block_def bb_before_def set_after_def set_before_def
        block_after_def bb'_def)
  moreover have "block_ok (int m)"
    using B(3) n m dvd_diff [of 8 "int k" "int n + 8"] by (simp add: block_ok_dvd rem)
  then have sg: "seg bb' (last_size b xs) q [(r, int n), (r + n + 8, int m)]"
    using B(1) n at by (simp add: bb'_def)
  have fr: "bb' q' = m_bb s q'" if "q' < q \<or> q + span [(r, int k)] < q'" for q'
    using that by (auto simp: bb'_def k)
  have zz: "bb' (q + span [(r, int k)]) = (last_size (last_size b xs) [(r, int n), (r + n + 8, int m)], kz)"
    using at by (simp add: bb'_def)
  have "tiling (m_bb s) b p e (xs @ [(r, int k)] @ (rz, kz) # ys)" using t by (simp add: z)
  from tiling_replace [OF this sg [unfolded q_def] _ zz [unfolded q_def] fr [unfolded q_def]]
  have "tiling bb' b p e (xs @ [(r, int n), (r + n + 8, int m)] @ (rz, kz) # ys)" by (simp add: k)
  moreover have "records_outside_kept p e (m_bb s) bb'"
    using B(6) by (auto simp: records_outside_kept_def bb'_def q_def k)
  ultimately show ?thesis by (auto simp: z)
qed

lemma merge_blocks_tiling:
  assumes t: "tiling (m_bb s) b p e (xs @ (r1, int k1) # (r2, int k2) # z # ys)"
  shows "\<exists>bb'. merge_blocks r1 r2 s = (r1, s\<lparr>m_bb := bb'\<rparr>) \<and>
    tiling bb' b p e (xs @ (r1, int (k1 + k2 + 8)) # z # ys) \<and> records_outside_kept p e (m_bb s) bb'"
proof -
  obtain rz kz where z: "z = (rz, kz)" by (cases z)
  define q where "q = p + span xs"
  note B1 = tiling_block [OF t [unfolded z], folded q_def]
  have t2: "tiling (m_bb s) b p e ((xs @ [(r1, int k1)]) @ (r2, int k2) # (rz, kz) # ys)"
    using t by (simp add: z)
  define q2 where "q2 = p + span (xs @ [(r1, int k1)])"
  note B2 = tiling_block [OF t2, folded q2_def]
  have q2: "q2 = q + 8 + k1" by (simp add: q2_def q_def)
  define bb' where "bb' = (m_bb s)(q := (last_size b xs, int (k1 + k2 + 8)),
    q2 + 8 + k2 := (int (k1 + k2 + 8), kz))"
  have at: "nat (int (q2 + 8) + int k2) = q2 + 8 + k2" "q2 \<noteq> q" "q2 + 8 + k2 \<noteq> q" "q < q2 + 8 + k2"
    by (simp_all add: q2)
  then have "merge_blocks r1 r2 s = (r1, s\<lparr>m_bb := bb'\<rparr>)"
    using B1 B2 unfolding merge_blocks_def Let_def size_from_block_def bb_before_def slab_consts
    by (simp add: bb_after_def size_from_block_def bb_before_def set_after_def set_before_def bb'_def)
  moreover have "block_ok (int (k1 + k2 + 8))"
    using B1(3) B2(3) by (simp add: block_ok_dvd)
  then have sg: "seg bb' (last_size b xs) q [(r1, int (k1 + k2 + 8))]"
    using B1(1) at by (simp add: bb'_def)
  have sp: "q + span [(r1, int k1), (r2, int k2)] = q2 + 8 + k2" by (simp add: q2)
  have fr: "bb' q' = m_bb s q'" if "q' < q \<or> q + span [(r1, int k1), (r2, int k2)] < q'" for q'
    using that at unfolding sp by (auto simp: bb'_def)
  have zz: "bb' (q + span [(r1, int k1), (r2, int k2)]) =
      (last_size (last_size b xs) [(r1, int (k1 + k2 + 8))], kz)"
    unfolding sp by (simp add: bb'_def)
  have "tiling (m_bb s) b p e (xs @ [(r1, int k1), (r2, int k2)] @ (rz, kz) # ys)" using t by (simp add: z)
  from tiling_replace [OF this sg [unfolded q_def] _ zz [unfolded q_def] fr [unfolded q_def]]
  have "tiling bb' b p e (xs @ [(r1, int (k1 + k2 + 8))] @ (rz, kz) # ys)" by simp
  moreover have "records_outside_kept p e (m_bb s) bb'"
    using B2(6) by (auto simp: records_outside_kept_def bb'_def q2 q_def)
  ultimately show ?thesis by (auto simp: z)
qed

end
