(* ===== verification/Slab_Inv.thy ===== *)
theory Slab_Inv
  imports Slab_Tiles
begin

text \<open>
  The invariant of the slab allocator and its preservation. In every reachable state the slabs lie one after
  the other above the baseline, each is tiled by blocks, no two free blocks are neighbours, and the free
  lists hold exactly the free blocks, each in the list of its size. The theory ends with the interpretation
  of the allocator contract.
\<close>

subsection \<open>The free lists as a function\<close>

definition fl_of :: "(int \<times> nat list) list \<Rightarrow> int \<Rightarrow> nat list" where
  "fl_of m k = (case map_of m k of None \<Rightarrow> [] | Some l \<Rightarrow> l)"

definition fl_ok :: "(int \<times> nat list) list \<Rightarrow> bool" where
  "fl_ok m \<longleftrightarrow> sorted_wrt (<) (map fst m) \<and> (\<forall>x \<in> set m. snd x \<noteq> [])"

lemma fl_of_update [simp]: "fl_of (fl_update k l m) = (fl_of m)(k := l)"
  by (induction k l m rule: fl_update.induct) (auto simp: fl_of_def fun_eq_iff)

lemma fl_of_erase [simp]: "fl_of (fl_erase k m) = (fl_of m)(k := [])"
  by (induction m) (auto simp: fl_of_def fl_erase_def fun_eq_iff)

lemma fl_of_store [simp]: "fl_of (fl_store k l m) = (fl_of m)(k := l)"
  by (simp add: fl_store_def)

lemma set_fl_update: "x \<in> set (fl_update k l m) \<Longrightarrow> x = (k, l) \<or> x \<in> set m"
  by (induction k l m rule: fl_update.induct) (auto split: if_splits)

lemma fl_update_ok: "fl_ok m \<Longrightarrow> l \<noteq> [] \<Longrightarrow> fl_ok (fl_update k l m)"
proof (induction k l m rule: fl_update.induct)
  case (2 k l k' l' m)
  then have ok: "fl_ok m" and s: "\<forall>x \<in> set m. k' < fst x" and ne: "l' \<noteq> []"
    by (auto simp: fl_ok_def)
  from 2 ok have "k' < k \<Longrightarrow> fl_ok (fl_update k l m)" by simp
  moreover have "k' < fst x" if "k' < k" "x \<in> set (fl_update k l m)" for x
    using set_fl_update [OF that(2)] that(1) s by auto
  ultimately show ?case using "2.prems" s ne by (auto simp: fl_ok_def)
qed (simp add: fl_ok_def)

lemma fl_erase_ok: "fl_ok m \<Longrightarrow> fl_ok (fl_erase k m)"
  by (auto simp: fl_ok_def fl_erase_def sorted_wrt_map intro: sorted_wrt_filter)

lemma fl_store_ok: "fl_ok m \<Longrightarrow> fl_ok (fl_store k l m)"
  by (simp add: fl_store_def fl_update_ok fl_erase_ok)

lemma fl_ok_lookup: "fl_ok m \<Longrightarrow> (k, l) \<in> set m \<Longrightarrow> map_of m k = Some l"
  by (simp add: fl_ok_def strict_sorted_iff)

lemma fl_of_mem: "fl_ok m \<Longrightarrow> (k, l) \<in> set m \<Longrightarrow> fl_of m k = l"
  by (simp add: fl_of_def fl_ok_lookup)

text \<open>The free lists hold exactly the free blocks among the tiles \<open>T\<close>.\<close>

definition free_exact :: "(int \<Rightarrow> nat list) \<Rightarrow> tile set \<Rightarrow> bool" where
  "free_exact F T \<longleftrightarrow> (\<forall>k. distinct (F k)) \<and> (\<forall>r k. r \<in> set (F k) \<longleftrightarrow> (r, k) \<in> T \<and> 0 < k)"

lemma push_freelist_entry_simps:
  "m_slabs (push_freelist_entry r s) = m_slabs s" "m_bb (push_freelist_entry r s) = m_bb s"
  "m_baseline (push_freelist_entry r s) = m_baseline s"
  "m_is_read_only (push_freelist_entry r s) = m_is_read_only s"
  "m_slab_attached (push_freelist_entry r s) = m_slab_attached s"
  "m_free_space_state (push_freelist_entry r s) = m_free_space_state s"
  "fl_of (m_block_map (push_freelist_entry r s)) =
     (let k = size_from_block s r; F = fl_of (m_block_map s) in F(k := r # F k))"
  by (auto simp: push_freelist_entry_def Let_def fl_of_def split: option.splits)

lemma push_freelist_entry_ok: "fl_ok (m_block_map s) \<Longrightarrow> fl_ok (m_block_map (push_freelist_entry r s))"
  by (auto simp: push_freelist_entry_def Let_def fl_update_ok split: option.splits)

lemma free_exact_push:
  assumes "free_exact F (T - {(r, k)})" "(r, k) \<in> T" "0 < k"
  shows "free_exact (F(k := r # F k)) T"
  using assms by (auto simp: free_exact_def)

lemma free_exact_pop:
  assumes "free_exact F T" "F k = r # rs"
  shows "free_exact (F(k := rs)) (T - {(r, k)})" "(r, k) \<in> T" "0 < k"
proof -
  have "distinct (r # rs)" using assms by (metis free_exact_def)
  moreover have "x \<in> set (r # rs) \<longleftrightarrow> (x, k) \<in> T \<and> 0 < k" for x
    using assms unfolding free_exact_def by metis
  ultimately show "free_exact (F(k := rs)) (T - {(r, k)})" "(r, k) \<in> T" "0 < k"
    using assms by (auto simp: free_exact_def)
qed

lemma free_exact_remove:
  assumes "free_exact F T"
  shows "free_exact (F(k := remove1 r (F k))) (T - {(r, k)})"
  using assms by (auto simp: free_exact_def set_remove1_eq dest: notin_set_remove1)

subsection \<open>The tiles of a state\<close>

abbreviation slab_start :: "nat \<times> nat \<Rightarrow> nat" where
  "slab_start sl \<equiv> fst sl - snd sl"

definition slab_tiles :: "slab_alloc \<Rightarrow> nat \<times> nat \<Rightarrow> tile list" where
  "slab_tiles s sl = walk_slab (m_bb s) (slab_start sl) (fst sl)"

definition tiles :: "slab_alloc \<Rightarrow> tile set" where
  "tiles s = (\<Union>sl \<in> set (m_slabs s). set (slab_tiles s sl))"

fun slabs_layout :: "nat \<Rightarrow> (nat \<times> nat) list \<Rightarrow> bool" where
  "slabs_layout b [] \<longleftrightarrow> True"
| "slabs_layout b ((e, n) # ss) \<longleftrightarrow> b \<le> e - n \<and> n \<le> e \<and> slabs_layout e ss"

definition tiled :: "slab_alloc \<Rightarrow> bool" where
  "tiled s \<longleftrightarrow> slabs_layout (m_baseline s) (m_slabs s) \<and>
     (\<forall>sl \<in> set (m_slabs s). 8 dvd slab_start sl \<and> 8 dvd snd sl \<and>
        tiling (m_bb s) 0 (slab_start sl) (fst sl) (slab_tiles s sl))"

lemma slabs_layout_ge: "slabs_layout b ss \<Longrightarrow> sl \<in> set ss \<Longrightarrow> b \<le> slab_start sl"
proof (induction b ss rule: slabs_layout.induct)
  case (2 b e n ss)
  show ?case
  proof (cases "sl = (e, n)")
    case False
    then have "e \<le> slab_start sl" using 2 by simp
    moreover have "b \<le> e - n" using "2.prems" by simp
    ultimately show ?thesis by linarith
  qed (use 2 in simp)
qed simp

lemma slabs_layout_apart:
  assumes "slabs_layout b ss" "sl \<in> set ss" "sl' \<in> set ss" "sl \<noteq> sl'"
  shows "fst sl \<le> slab_start sl' \<or> fst sl' \<le> slab_start sl"
  using assms
proof (induction b ss rule: slabs_layout.induct)
  case (2 b e n ss)
  then show ?case using slabs_layout_ge [of e ss] by auto
qed simp

text \<open>A tile belongs to one slab, and its ref names one tile.\<close>

lemma tiling_unique:
  "tiling bb b p e ts \<Longrightarrow> (r, k) \<in> set ts \<Longrightarrow> (r, k') \<in> set ts \<Longrightarrow> k = k'"
proof (induction bb b p e ts rule: tiling.induct)
  case (3 bb b p e r' k'' t ts)
  from "3.prems"(1) have t: "tiling bb k'' (p + 8 + nat \<bar>k''\<bar>) e (t # ts)" and r': "r' = p + 8" by simp_all
  have gt: "r' < x" if "(x, y) \<in> set (t # ts)" for x y using tiling_refs [OF t that] r' by simp
  show ?case
  proof (cases "r = r'")
    case True
    then show ?thesis using "3.prems" gt by auto
  next
    case False
    then show ?thesis using "3.IH" [OF t] "3.prems" by auto
  qed
qed auto

lemma slab_tile_unique:
  assumes "tiled s" "sl \<in> set (m_slabs s)" "(r, k) \<in> set (slab_tiles s sl)"
    "sl' \<in> set (m_slabs s)" "(r, k') \<in> set (slab_tiles s sl')"
  shows "sl = sl'" "k = k'"
proof -
  have t: "tiling (m_bb s) 0 (slab_start sl) (fst sl) (slab_tiles s sl)"
    "tiling (m_bb s) 0 (slab_start sl') (fst sl') (slab_tiles s sl')"
    using assms by (auto simp: tiled_def)
  have "slab_start sl + 8 \<le> r \<and> r \<le> fst sl" "slab_start sl' + 8 \<le> r \<and> r \<le> fst sl'"
    using tiling_refs [OF t(1) assms(3)] tiling_refs [OF t(2) assms(5)] by simp_all
  then show "sl = sl'"
    using slabs_layout_apart [of "m_baseline s" "m_slabs s" sl sl'] assms(1,2,4)
    by (auto simp: tiled_def)
  then show "k = k'" using tiling_unique [OF t(1) assms(3)] assms(5) by simp
qed

lemma tiles_unique: "tiled s \<Longrightarrow> (r, k) \<in> tiles s \<Longrightarrow> (r, k') \<in> tiles s \<Longrightarrow> k = k'"
  unfolding tiles_def using slab_tile_unique by blast

lemma tile_block:
  assumes "tiled s" "(r, k) \<in> tiles s" "k \<noteq> 0"
  obtains sl xs z ys where "sl \<in> set (m_slabs s)" "slab_tiles s sl = xs @ (r, k) # z # ys"
proof -
  obtain sl where sl: "sl \<in> set (m_slabs s)" "(r, k) \<in> set (slab_tiles s sl)"
    using assms(2) by (auto simp: tiles_def)
  then obtain xs ys where x: "slab_tiles s sl = xs @ (r, k) # ys" by (auto dest: split_list)
  have t: "tiling (m_bb s) 0 (slab_start sl) (fst sl) (xs @ (r, k) # ys)"
    using assms(1) sl(1) by (auto simp: tiled_def x [symmetric])
  then have "ys \<noteq> []" using assms(3) unfolding tiling_append by auto
  then show thesis using that sl(1) x by (cases ys) auto
qed

lemma tiled_tiling:
  "tiled s \<Longrightarrow> sl \<in> set (m_slabs s) \<Longrightarrow> tiling (m_bb s) 0 (slab_start sl) (fst sl) (slab_tiles s sl)"
  by (simp add: tiled_def)

lemma tiling_disjoint:
  assumes "tiling bb b p e (xs @ ms @ ys)"
  shows "set ms \<inter> set (xs @ ys) = {}"
proof -
  have "sorted_wrt (<) (map fst ts)" if "tiling bb b p e ts" for b p ts
    using that
  proof (induction bb b p e ts rule: tiling.induct)
    case (3 bb b p e r k t ts)
    then have t: "tiling bb k (p + 8 + nat \<bar>k\<bar>) e (t # ts)" and r: "r = p + 8" by simp_all
    have "r < fst x" if "x \<in> set (t # ts)" for x
      using tiling_refs [OF t, of "fst x" "snd x"] that r by simp
    then show ?case using "3.IH" [OF t] by simp
  qed simp_all
  from this [OF assms] show ?thesis by (force simp: sorted_wrt_append)
qed

text \<open>Rewriting the records of one slab changes its tiles only.\<close>

lemma slab_step:
  assumes T: "tiled s" and sl: "sl \<in> set (m_slabs s)" and L: "slab_tiles s sl = xs @ ms @ z # ys"
    and kept: "records_outside_kept (slab_start sl) (fst sl) (m_bb s) bb'"
    and t': "tiling bb' 0 (slab_start sl) (fst sl) (xs @ ms' @ z # ys)"
  defines "s' \<equiv> s\<lparr>m_bb := bb'\<rparr>"
  shows "tiled s'" "slab_tiles s' sl = xs @ ms' @ z # ys" "tiles s' = tiles s - set ms \<union> set ms'"
    "\<And>sl'. sl' \<in> set (m_slabs s) \<Longrightarrow> sl' \<noteq> sl \<Longrightarrow> slab_tiles s' sl' = slab_tiles s sl'"
proof -
  note t = tiled_tiling [OF T]
  show new: "slab_tiles s' sl = xs @ ms' @ z # ys"
    using walk_tiling [OF t'] by (simp add: slab_tiles_def s'_def)
  have other: "tiling bb' 0 (slab_start sl') (fst sl') (slab_tiles s sl')"
    if "sl' \<in> set (m_slabs s)" "sl' \<noteq> sl" for sl'
  proof -
    have "fst sl \<le> slab_start sl' \<or> fst sl' \<le> slab_start sl"
      using slabs_layout_apart [of "m_baseline s" "m_slabs s" sl sl'] T sl that by (auto simp: tiled_def)
    then show ?thesis
      using t [OF that(1)] kept by (subst tiling_cong [of _ _ _ "m_bb s"]) (auto simp: records_outside_kept_def)
  qed
  show same: "slab_tiles s' sl' = slab_tiles s sl'" if "sl' \<in> set (m_slabs s)" "sl' \<noteq> sl" for sl'
    using walk_tiling [OF other [OF that]] by (simp add: slab_tiles_def s'_def)
  have "tiling bb' 0 (slab_start sl') (fst sl') (slab_tiles s' sl')" if "sl' \<in> set (m_slabs s)" for sl'
    using t' new other [OF that] same [OF that] by (cases "sl' = sl") simp_all
  then show "tiled s'"
    using T unfolding tiled_def by (simp add: s'_def)
  have d: "set ms \<inter> set (xs @ z # ys) = {}" using tiling_disjoint [of _ _ _ _ xs ms "z # ys"] t [OF sl] L by metis
  have "set (slab_tiles s sl') \<inter> set ms = {}" if "sl' \<in> set (m_slabs s)" "sl' \<noteq> sl" for sl'
  proof (rule ccontr)
    assume "\<not> ?thesis"
    then obtain r k where rk: "(r, k) \<in> set (slab_tiles s sl')" "(r, k) \<in> set (slab_tiles s sl)"
      using L by auto
    have "fst sl \<le> slab_start sl' \<or> fst sl' \<le> slab_start sl"
      using slabs_layout_apart [of "m_baseline s" "m_slabs s" sl sl'] T sl that by (auto simp: tiled_def)
    then show False
      using tiling_refs [OF t [OF that(1)] rk(1)] tiling_refs [OF t [OF sl] rk(2)] by linarith
  qed
  then have "tiles s - set ms = (\<Union>sl' \<in> set (m_slabs s) - {sl}. set (slab_tiles s sl')) \<union> set (xs @ z # ys)"
    using sl L d by (auto simp: tiles_def)
  moreover have "tiles s' = (\<Union>sl' \<in> set (m_slabs s) - {sl}. set (slab_tiles s' sl')) \<union> set (slab_tiles s' sl)"
    using sl by (auto simp: tiles_def s'_def)
  then have "tiles s' = (\<Union>sl' \<in> set (m_slabs s) - {sl}. set (slab_tiles s sl')) \<union> set (xs @ ms' @ z # ys)"
    unfolding new by (simp add: same)
  ultimately show "tiles s' = tiles s - set ms \<union> set ms'" by auto
qed

subsection \<open>No two free blocks are neighbours\<close>

fun coalesced :: "tile list \<Rightarrow> bool" where
  "coalesced ((r, k) # (r', k') # ts) \<longleftrightarrow> \<not> (0 < k \<and> 0 < k') \<and> coalesced ((r', k') # ts)"
| "coalesced _ \<longleftrightarrow> True"

lemma coalesced_append:
  "coalesced (xs @ (r, k) # ys) \<longleftrightarrow> coalesced (xs @ [(r, k)]) \<and> coalesced ((r, k) # ys)"
  by (induction xs rule: coalesced.induct) (auto, (cases ys; auto)?)

lemma coalesced_last:
  "coalesced (xs @ [(r, k)]) \<longleftrightarrow> coalesced xs \<and> \<not> (0 < last_size 0 xs \<and> 0 < k)"
  by (induction xs rule: coalesced.induct) auto

definition slab_inv :: "slab_alloc \<Rightarrow> bool" where
  "slab_inv s \<longleftrightarrow> tiled s \<and> (\<forall>sl \<in> set (m_slabs s). coalesced (slab_tiles s sl)) \<and>
     fl_ok (m_block_map s) \<and> free_exact (fl_of (m_block_map s)) (tiles s) \<and>
     m_free_space_state s \<noteq> free_space_Invalid"

lemma coalesced_used:
  "coalesced (xs @ (r, k) # ys) \<Longrightarrow> k' \<le> 0 \<Longrightarrow> coalesced (xs @ (r, k') # ys)"
  unfolding coalesced_append [of xs r k] coalesced_append [of xs r k'] coalesced_last
  by (cases ys) auto

subsection \<open>Steps of a slab\<close>

definition slab_to ::
  "slab_alloc \<Rightarrow> nat \<times> nat \<Rightarrow> tile list \<Rightarrow> tile set \<Rightarrow> (nat \<Rightarrow> int \<times> int) \<Rightarrow> bool" where
  "slab_to s sl L T bb' \<longleftrightarrow>
     tiled (s\<lparr>m_bb := bb'\<rparr>) \<and> slab_tiles (s\<lparr>m_bb := bb'\<rparr>) sl = L \<and> tiles (s\<lparr>m_bb := bb'\<rparr>) = T \<and>
     (\<forall>sl' \<in> set (m_slabs s). sl' \<noteq> sl \<longrightarrow> slab_tiles (s\<lparr>m_bb := bb'\<rparr>) sl' = slab_tiles s sl')"

lemma slab_toI:
  assumes "tiled s" "sl \<in> set (m_slabs s)" "slab_tiles s sl = xs @ ms @ z # ys"
    and "records_outside_kept (slab_start sl) (fst sl) (m_bb s) bb'"
    and "tiling bb' 0 (slab_start sl) (fst sl) (xs @ ms' @ z # ys)"
  shows "slab_to s sl (xs @ ms' @ z # ys) (tiles s - set ms \<union> set ms') bb'"
  unfolding slab_to_def using slab_step [OF assms] by blast

lemma mark_allocated_step:
  assumes "tiled s" "sl \<in> set (m_slabs s)" "slab_tiles s sl = xs @ (r, k) # z # ys" "0 < k"
  shows "\<exists>bb'. mark_allocated r s = Inr (s\<lparr>m_bb := bb'\<rparr>) \<and>
    slab_to s sl (xs @ (r, - k) # z # ys) (tiles s - {(r, k)} \<union> {(r, - k)}) bb'"
  using mark_allocated_tiling [of s 0 _ _ xs r k z ys] tiled_tiling [OF assms(1,2)] assms
    slab_toI [OF assms(1,2), of xs "[(r, k)]" z ys _ "[(r, - k)]"]
  by fastforce

lemma mark_freed_step:
  assumes "tiled s" "sl \<in> set (m_slabs s)" "slab_tiles s sl = xs @ (r, - k) # z # ys" "0 < k"
    "n \<le> k" "k \<le> n + 32"
  shows "\<exists>bb'. mark_freed r n s = Inr (s\<lparr>m_bb := bb'\<rparr>) \<and>
    slab_to s sl (xs @ (r, k) # z # ys) (tiles s - {(r, - k)} \<union> {(r, k)}) bb'"
  using mark_freed_tiling [of s 0 _ _ xs r k z ys n] tiled_tiling [OF assms(1,2)] assms
    slab_toI [OF assms(1,2), of xs "[(r, - k)]" z ys _ "[(r, k)]"]
  by fastforce

lemma break_block_step:
  assumes "tiled s" "sl \<in> set (m_slabs s)" "slab_tiles s sl = xs @ (r, int k) # z # ys"
    "k = n + 8 + m" "block_ok (int n)" "24 \<le> m"
  shows "\<exists>bb'. break_block r (int n) s = (Some (r + n + 8), s\<lparr>m_bb := bb'\<rparr>) \<and>
    slab_to s sl (xs @ (r, int n) # (r + n + 8, int m) # z # ys)
      (tiles s - {(r, int k)} \<union> {(r, int n), (r + n + 8, int m)}) bb'"
  using break_block_tiling [of s 0 _ _ xs r k z ys n m] tiled_tiling [OF assms(1,2)] assms
    slab_toI [OF assms(1,2), of xs "[(r, int k)]" z ys _ "[(r, int n), (r + n + 8, int m)]"]
  by fastforce

lemma merge_blocks_step:
  assumes "tiled s" "sl \<in> set (m_slabs s)" "slab_tiles s sl = xs @ (r1, int k1) # (r2, int k2) # z # ys"
  shows "\<exists>bb'. merge_blocks r1 r2 s = (r1, s\<lparr>m_bb := bb'\<rparr>) \<and>
    slab_to s sl (xs @ (r1, int (k1 + k2 + 8)) # z # ys)
      (tiles s - {(r1, int k1), (r2, int k2)} \<union> {(r1, int (k1 + k2 + 8))}) bb'"
  using merge_blocks_tiling [of s 0 _ _ xs r1 k1 r2 k2 z ys] tiled_tiling [OF assms(1,2)] assms
    slab_toI [OF assms(1,2), of xs "[(r1, int k1), (r2, int k2)]" z ys _ "[(r1, int (k1 + k2 + 8))]"]
  by fastforce

lemma seg_span_dvd: "seg bb b p ts \<Longrightarrow> 8 dvd span ts"
proof (induction bb b p ts rule: seg.induct)
  case (2 bb b p r k ts)
  then have "8 dvd nat \<bar>k\<bar>" by (auto simp: block_ok_dvd nat_dvd_iff)
  then show ?case using 2 by simp
qed simp

lemma size_from_block_tile:
  assumes "tiled s" "(r, k) \<in> tiles s" "k \<noteq> 0"
  shows "size_from_block s r = k" "block_ok k" "8 \<le> r" "m_baseline s \<le> r" "8 dvd r"
proof -
  obtain sl xs z ys where sl: "sl \<in> set (m_slabs s)" "slab_tiles s sl = xs @ (r, k) # z # ys"
    using tile_block [OF assms] by metis
  obtain rz kz where z: "z = (rz, kz)" by (cases z)
  note B = tiling_block [OF tiled_tiling [OF assms(1) sl(1), unfolded sl(2) z]]
  show "size_from_block s r = k" "block_ok k" "8 \<le> r"
    using B by (simp_all add: size_from_block_def bb_before_def)
  have "m_baseline s \<le> slab_start sl"
    using assms(1) sl(1) slabs_layout_ge by (auto simp: tiled_def)
  then show "m_baseline s \<le> r" using B(1) by simp
  have "seg (m_bb s) 0 (slab_start sl) xs"
    using tiled_tiling [OF assms(1) sl(1)] by (simp only: sl(2) tiling_append)
  then have "8 dvd span xs" by (rule seg_span_dvd)
  then show "8 dvd r" using assms(1) sl(1) B(1) by (auto simp: tiled_def)
qed

subsection \<open>Allocation\<close>

text \<open>A free block that has been taken out of the free lists.\<close>

definition taken :: "slab_alloc \<Rightarrow> nat \<Rightarrow> int \<Rightarrow> bool" where
  "taken s r k \<longleftrightarrow> tiled s \<and> (\<forall>sl \<in> set (m_slabs s). coalesced (slab_tiles s sl)) \<and>
     fl_ok (m_block_map s) \<and> free_exact (fl_of (m_block_map s)) (tiles s - {(r, k)}) \<and>
     (r, k) \<in> tiles s \<and> 0 < k \<and> m_free_space_state s \<noteq> free_space_Invalid"

text \<open>The fields that blocks and free lists do not touch.\<close>

definition same_config :: "slab_alloc \<Rightarrow> slab_alloc \<Rightarrow> bool" where
  "same_config s s' \<longleftrightarrow> m_baseline s' = m_baseline s \<and> m_is_read_only s' = m_is_read_only s \<and>
     m_slab_attached s' = m_slab_attached s \<and> m_free_space_state s' = m_free_space_state s \<and>
     m_free_read_only s' = m_free_read_only s"

definition used :: "slab_alloc \<Rightarrow> (nat \<times> int) set" where
  "used s = {(r, z). (r, - z) \<in> tiles s \<and> 0 < z}"

lemma tiles_simps [simp]:
  "tiles (s\<lparr>m_block_map := m\<rparr>) = tiles s" "slab_tiles (s\<lparr>m_block_map := m\<rparr>) sl = slab_tiles s sl"
  "tiled (s\<lparr>m_block_map := m\<rparr>) = tiled s"
  "tiles (s\<lparr>m_free_space_state := f\<rparr>) = tiles s" "tiles (s\<lparr>m_commit_size := c\<rparr>) = tiles s"
  "tiled (s\<lparr>m_free_space_state := f\<rparr>) = tiled s" "tiled (s\<lparr>m_commit_size := c\<rparr>) = tiled s"
  "slab_tiles (s\<lparr>m_free_space_state := f\<rparr>) sl = slab_tiles s sl"
  "slab_tiles (s\<lparr>m_commit_size := c\<rparr>) sl = slab_tiles s sl"
  "tiles (s\<lparr>m_free_read_only := q\<rparr>) = tiles s" "tiled (s\<lparr>m_free_read_only := q\<rparr>) = tiled s"
  "slab_tiles (s\<lparr>m_free_read_only := q\<rparr>) sl = slab_tiles s sl"
  by (simp_all add: tiles_def slab_tiles_def tiled_def)

lemma pop_freelist_entry_correct:
  assumes inv: "slab_inv s" and sub: "set (snd lst) \<subseteq> set (m_block_map s)"
    and ok: "pop_freelist_entry lst s = Inr (r, s')"
  shows "\<exists>k. taken s' r k \<and> tiles s' = tiles s \<and> same_config s s' \<and> m_slabs s' = m_slabs s \<and>
    (\<exists>l rest. snd lst = (k, l) # rest)"
proof -
  obtain k rs rest where l: "snd lst = (k, r # rs) # rest"
    and s': "s' = s\<lparr>m_block_map := fl_store k rs (m_block_map s)\<rparr>"
    using ok by (auto simp: pop_freelist_entry_def split: list.splits)
  have F: "fl_of (m_block_map s) k = r # rs"
    using inv sub l by (intro fl_of_mem) (auto simp: slab_inv_def)
  note P = free_exact_pop [of "fl_of (m_block_map s)" "tiles s", OF _ F]
  have "taken s' r k" using inv P by (auto simp: slab_inv_def taken_def s' fl_store_ok)
  then show ?thesis using l by (auto simp: s' same_config_def)
qed

text \<open>A taken block that is not broken up: it is marked as used.\<close>

lemma mark_taken:
  assumes T: "taken s r k"
  shows "\<exists>s'. mark_allocated r s = Inr s' \<and> slab_inv s' \<and> same_config s s' \<and> used s' = used s \<union> {(r, k)} \<and>
    (\<forall>z. (r, z) \<notin> used s)"
proof -
  have t: "tiled s" "(r, k) \<in> tiles s" "0 < k" using T by (simp_all add: taken_def)
  obtain sl xs z ys where sl: "sl \<in> set (m_slabs s)" "slab_tiles s sl = xs @ (r, k) # z # ys"
    using tile_block [OF t(1,2)] t(3) by (metis less_irrefl)
  obtain bb' where m: "mark_allocated r s = Inr (s\<lparr>m_bb := bb'\<rparr>)"
    and S: "slab_to s sl (xs @ (r, - k) # z # ys) (tiles s - {(r, k)} \<union> {(r, - k)}) bb'"
    using mark_allocated_step [OF t(1) sl t(3)] by blast
  define s' where "s' = s\<lparr>m_bb := bb'\<rparr>"
  have tl: "tiled s'" "tiles s' = tiles s - {(r, k)} \<union> {(r, - k)}"
    using S by (simp_all add: slab_to_def s'_def)
  have "coalesced (slab_tiles s sl)" using T sl(1) by (simp add: taken_def)
  then have "coalesced (xs @ (r, - k) # z # ys)" using coalesced_used t(3) by (simp add: sl(2))
  then have "coalesced (slab_tiles s' sl')" if "sl' \<in> set (m_slabs s)" for sl'
    using that S T by (cases "sl' = sl") (auto simp: slab_to_def s'_def taken_def)
  moreover have "free_exact (fl_of (m_block_map s)) (tiles s')"
    using T t(3) unfolding tl(2) taken_def free_exact_def by auto
  ultimately have "slab_inv s'"
    using T tl by (simp add: slab_inv_def taken_def) (simp add: s'_def)
  moreover have "used s' = used s \<union> {(r, k)}" using t by (auto simp: used_def tl(2))
  moreover have "(r, z) \<notin> used s" for z
    using tiles_unique [OF t(1,2), of "- z"] t(3) by (auto simp: used_def)
  ultimately show ?thesis using m by (auto simp: s'_def same_config_def)
qed

text \<open>A taken block that is broken up: the rest goes back to the free lists.\<close>

lemma coalesced_break:
  assumes "coalesced (xs @ (r, k) # (rz, kz) # ys)" "0 < k" "0 < n"
  shows "coalesced (xs @ (r, - n) # (r', m) # (rz, kz) # ys)"
  using assms unfolding coalesced_append [of xs r k] coalesced_append [of xs r "- n"] coalesced_last by auto

lemma break_fresh:
  assumes sl: "sl \<in> set (m_slabs s)" "slab_tiles s sl = xs @ (r, k) # z # ys"
    and S: "slab_to s sl (xs @ (r, n) # (rest, m) # z # ys) T bb'" and rr: "rest \<noteq> r"
  shows "(rest, m) \<notin> tiles s"
proof
  assume "(rest, m) \<in> tiles s"
  then obtain sl' where sl': "sl' \<in> set (m_slabs s)" "(rest, m) \<in> set (slab_tiles s sl')"
    by (auto simp: tiles_def)
  define s1 where "s1 = s\<lparr>m_bb := bb'\<rparr>"
  have t1: "tiled s1" "m_slabs s1 = m_slabs s" using S by (simp_all add: slab_to_def s1_def)
  have L1: "slab_tiles s1 sl = (xs @ [(r, n)]) @ [(rest, m)] @ (z # ys)"
    using S by (simp add: slab_to_def s1_def)
  have "set [(rest, m)] \<inter> set ((xs @ [(r, n)]) @ (z # ys)) = {}"
    using tiled_tiling [OF t1(1), of sl] sl(1) unfolding L1 by (intro tiling_disjoint) (simp add: t1)
  then have "sl' \<noteq> sl" using sl' rr by (auto simp: sl(2))
  then have "(rest, m) \<in> set (slab_tiles s1 sl')" using S sl' by (simp add: slab_to_def s1_def)
  then show False
    using slab_tile_unique(1) [OF t1(1), of sl rest m sl' m] sl(1) sl'(1) \<open>sl' \<noteq> sl\<close>
    by (simp add: L1 t1)
qed

lemma break_taken:
  assumes T: "taken s r (int k)" and k: "k = n + 8 + m" "block_ok (int n)" "24 \<le> m"
  defines "rest \<equiv> r + n + 8"
  shows "\<exists>s1 s'. break_block r (int n) s = (Some rest, s1) \<and>
    size_from_block (push_freelist_entry rest s1) r = int n \<and>
    mark_allocated r (push_freelist_entry rest s1) = Inr s' \<and> slab_inv s' \<and> same_config s s' \<and>
    used s' = used s \<union> {(r, int n)} \<and> (\<forall>z. (r, z) \<notin> used s)"
proof -
  have t: "tiled s" "(r, int k) \<in> tiles s" "0 < int k" using T by (simp_all add: taken_def)
  have n0: "0 < n" using k(2) by (auto simp: block_ok_dvd)
  obtain sl xs z ys where sl: "sl \<in> set (m_slabs s)" "slab_tiles s sl = xs @ (r, int k) # z # ys"
    using tile_block [OF t(1,2)] t(3) by (metis less_irrefl)
  obtain rz kz where z: "z = (rz, kz)" by (cases z)
  obtain bb1 where b: "break_block r (int n) s = (Some rest, s\<lparr>m_bb := bb1\<rparr>)"
    and S1: "slab_to s sl (xs @ (r, int n) # (rest, int m) # z # ys)
      (tiles s - {(r, int k)} \<union> {(r, int n), (rest, int m)}) bb1"
    using break_block_step [OF t(1) sl k] by (auto simp: rest_def)
  define s1 where "s1 = s\<lparr>m_bb := bb1\<rparr>"
  define s2 where "s2 = push_freelist_entry rest s1"
  have t1: "tiled s1" "tiles s1 = tiles s - {(r, int k)} \<union> {(r, int n), (rest, int m)}"
    using S1 by (simp_all add: slab_to_def s1_def)
  have sz: "size_from_block s1 rest = int m" "size_from_block s1 r = int n"
    using size_from_block_tile [OF t1(1), of rest "int m"] size_from_block_tile [OF t1(1), of r "int n"] t1(2) k(3) n0
    by auto
  have s2: "m_bb s2 = bb1" "m_slabs s2 = m_slabs s" "same_config s s2"
    by (simp_all add: s2_def s1_def push_freelist_entry_simps same_config_def)
      (simp add: push_freelist_entry_def Let_def split: option.splits)
  then have same2: "tiled s2" "tiles s2 = tiles s1" "slab_tiles s2 sl' = slab_tiles s1 sl'" for sl'
    using t1(1) by (auto simp: tiled_def tiles_def slab_tiles_def s1_def same_config_def)
  have L2: "slab_tiles s2 sl = xs @ (r, int n) # (rest, int m) # z # ys"
    using S1 by (simp add: same2 slab_to_def s1_def)
  have n1: "sl \<in> set (m_slabs s2)" "0 < int n" using sl(1) s2(2) n0 by simp_all
  obtain bb' where m: "mark_allocated r s2 = Inr (s2\<lparr>m_bb := bb'\<rparr>)"
    and S2: "slab_to s2 sl (xs @ (r, - int n) # (rest, int m) # z # ys)
      (tiles s2 - {(r, int n)} \<union> {(r, - int n)}) bb'"
    using mark_allocated_step [OF same2(1) n1(1) L2 n1(2)] by blast
  define s' where "s' = s2\<lparr>m_bb := bb'\<rparr>"
  have un: "(r, x) \<in> tiles s \<longleftrightarrow> x = int k" for x
    using tiles_unique [OF t(1,2)] t(2) by blast
  have rr: "rest \<noteq> r" by (simp add: rest_def)
  have t': "tiled s'" "tiles s' = tiles s - {(r, int k)} \<union> {(r, - int n), (rest, int m)}"
    using S2 un [of "int n"] k(1) by (auto simp: slab_to_def s'_def same2 t1(2) rest_def)
  have "coalesced (slab_tiles s sl)" using T sl(1) by (simp add: taken_def)
  from coalesced_break [OF this [unfolded sl(2) z] t(3), of "int n" rest "int m"]
  have "coalesced (xs @ (r, - int n) # (rest, int m) # z # ys)" using n0 by (simp add: z)
  then have "coalesced (slab_tiles s' sl')" if "sl' \<in> set (m_slabs s)" for sl'
    using that S1 S2 T s2(2) by (cases "sl' = sl") (auto simp: slab_to_def s'_def s1_def same2 taken_def)
  moreover have F: "fl_of (m_block_map s2) =
      (fl_of (m_block_map s))(int m := rest # fl_of (m_block_map s) (int m))"
    by (simp add: s2_def push_freelist_entry_simps sz Let_def) (simp add: s1_def)
  note new = break_fresh [OF sl S1 rr]
  have "free_exact (fl_of (m_block_map s2)) (tiles s')"
    using T new n0 k(3) unfolding F t'(2) taken_def free_exact_def by auto
  moreover have "fl_ok (m_block_map s2)"
    unfolding s2_def using T by (intro push_freelist_entry_ok) (simp add: s1_def taken_def)
  ultimately have "slab_inv s'"
    using t' s2 T by (simp add: slab_inv_def taken_def) (simp add: s'_def same_config_def)
  moreover have "used s' = used s \<union> {(r, int n)}"
    using n0 un k(3) t'(2) by (auto simp: used_def)
  moreover have "(r, x) \<notin> used s" for x using un t(3) by (auto simp: used_def)
  moreover have "size_from_block s2 r = int n"
    using sz(2) by (simp add: size_from_block_def s2(1)) (simp add: s1_def)
  ultimately show ?thesis
    using b m s2(3) by (auto simp: s1_def [symmetric] s2_def [symmetric] s'_def same_config_def)
qed

subsection \<open>Growing\<close>

lemma align_section: "align_size_to_section_boundary n = (if n mod 2 ^ 26 = 0 then n else (n div 2 ^ 26 + 1) * 2 ^ 26)"
  by (auto simp: align_size_to_section_boundary_def matches_section_boundary_def
      get_lower_section_boundary_def get_upper_section_boundary_def get_section_base_def get_section_index_def
      section_shift_def push_bit_eq_mult drop_bit_eq_div minus_mod_eq_mult_div [symmetric] mult.commute)

lemma align_section_ge: "n \<le> align_size_to_section_boundary n"
proof -
  have "n = n div 2 ^ 26 * 2 ^ 26 + n mod 2 ^ 26" by (simp only: div_mult_mod_eq)
  moreover have "n mod 2 ^ 26 < 2 ^ 26" by simp
  ultimately show ?thesis unfolding align_section by (simp only: add_mult_distrib split: if_splits) linarith
qed

lemma align_section_dvd: "8 dvd align_size_to_section_boundary n"
proof -
  have "(8 :: nat) dvd 2 ^ 26" by simp
  then show ?thesis unfolding align_section by (auto intro: dvd_mod_imp_dvd dvd_mult)
qed

lemma slab_size_loop_ge: "sz \<le> int (slab_size_loop n sz)" "n \<le> slab_size_loop n sz"
  "8 dvd n \<Longrightarrow> 8 dvd slab_size_loop n sz"
proof (induction n sz rule: slab_size_loop.induct)
  case (1 n sz)
  {
    case 1 then show ?case using "1.IH" by (subst slab_size_loop.simps) simp
  next
    case 2 then show ?case using "1.IH" by (subst slab_size_loop.simps) auto
  next
    case 3 then show ?case using "1.IH" by (subst slab_size_loop.simps) (simp add: minimal_alloc_def)
  }
qed

lemma slabs_layout_snoc:
  "slabs_layout b (ss @ [(e, n)]) \<longleftrightarrow>
     slabs_layout b ss \<and> (if ss = [] then b else fst (last ss)) \<le> e - n \<and> n \<le> e"
  by (induction b ss rule: slabs_layout.induct) auto

lemma slabs_layout_last: "slabs_layout b ss \<Longrightarrow> sl \<in> set ss \<Longrightarrow> fst sl \<le> fst (last ss)"
proof (induction b ss rule: slabs_layout.induct)
  case (2 b e n ss)
  show ?case
  proof (cases "ss = []")
    case False
    have "e \<le> slab_start (last ss)" using "2.prems"(1) False slabs_layout_ge [of e ss "last ss"] by simp
    then have "e \<le> fst (last ss)" by simp
    then show ?thesis using 2 False by auto
  qed (use 2 in simp)
qed simp

lemma add_slab:
  assumes inv: "slab_inv s" and e: "e = ref + n" and n: "40 \<le> n" "8 dvd n" and ref: "8 dvd ref"
    and above: "(if m_slabs s = [] then m_baseline s else fst (last (m_slabs s))) \<le> ref"
    and s': "(r, s') = slab_to_entry (e, n) ref (s\<lparr>m_slabs := m_slabs s @ [(e, n)]\<rparr>)"
  shows "taken s' r (int (n - 16))" "same_config s s'" "used s' = used s"
proof -
  define bs where "bs = n - 16"
  define bb' where "bb' = (m_bb s)(ref := (0, int bs), ref + 8 + bs := (int bs, 0))"
  have bs: "int e - int ref - 16 = int bs" "24 \<le> bs" "ref + 8 + bs + 8 = e" using n by (simp_all add: bs_def e)
  have r: "r = ref + 8" and st: "s' = s\<lparr>m_slabs := m_slabs s @ [(e, n)], m_bb := bb'\<rparr>"
    using s' bs(1) by (simp_all add: slab_to_entry_def Let_def slab_consts bb_after_def size_from_block_def
        bb_before_def bb'_def nat_add_distrib)
  have T: "tiled s" using inv by (simp add: slab_inv_def)
  have "8 dvd bs" using n dvd_diff_nat [of 8 n 16] by (simp add: bs_def)
  then have "8 dvd int bs" using int_dvd_int_iff [of 8 bs] by simp
  then have ok: "block_ok (int bs)" using bs(2) by (simp add: block_ok_dvd)
  have new: "tiling bb' 0 ref e [(r, int bs), (e, 0)]"
    using bs ok by (auto simp: bb'_def r)
  have below: "fst sl \<le> ref" if "sl \<in> set (m_slabs s)" for sl
    using slabs_layout_last [OF _ that] T above that by (fastforce simp: tiled_def split: if_splits)
  have old: "tiling bb' 0 (slab_start sl) (fst sl) (slab_tiles s sl)" if "sl \<in> set (m_slabs s)" for sl
  proof (subst tiling_cong [of _ _ bb' "m_bb s"])
    show "bb' q = m_bb s q" if "slab_start sl \<le> q" "q < fst sl" for q
      using below [OF \<open>sl \<in> set (m_slabs s)\<close>] that by (simp add: bb'_def)
  qed (rule tiled_tiling [OF T that])
  have same: "slab_tiles s' sl = slab_tiles s sl" if "sl \<in> set (m_slabs s)" for sl
    using walk_tiling [OF old [OF that]] by (simp add: slab_tiles_def st)
  have snew: "slab_tiles s' (e, n) = [(r, int bs), (e, 0)]"
    using walk_tiling [OF new] by (simp add: slab_tiles_def st e)
  have ti: "tiles s' = tiles s \<union> {(r, int bs), (e, 0)}"
    using same snew by (auto simp: tiles_def st)
  have "tiled s'"
    using T old new same snew above ref n unfolding tiled_def
    by (auto simp: st slabs_layout_snoc e)
  moreover have fresh: "(r, k) \<notin> tiles s" for k
  proof
    assume "(r, k) \<in> tiles s"
    then obtain sl where "sl \<in> set (m_slabs s)" "(r, k) \<in> set (slab_tiles s sl)" by (auto simp: tiles_def)
    then show False using tiling_refs [OF tiled_tiling [OF T]] below by (fastforce simp: r)
  qed
  moreover have "coalesced (slab_tiles s' sl)" if "sl \<in> set (m_slabs s')" for sl
  proof (cases "sl = (e, n)")
    case False
    then have "sl \<in> set (m_slabs s)" using that by (simp add: st)
    then show ?thesis using same inv by (simp add: slab_inv_def)
  qed (simp add: snew)
  moreover have "free_exact (fl_of (m_block_map s)) (tiles s' - {(r, int bs)})"
    using inv fresh unfolding ti slab_inv_def free_exact_def by auto
  ultimately show "taken s' r (int (n - 16))"
    using inv bs(2) ti unfolding taken_def bs_def [symmetric] by (simp add: slab_inv_def st)
  show "same_config s s'" by (simp add: same_config_def st)
  show "used s' = used s" by (auto simp: used_def ti)
qed

lemma dvd_sum_map: "\<forall>x \<in> set xs. d dvd f x \<Longrightarrow> (d :: nat) dvd sum_list (map f xs)"
  by (induction xs) auto

lemma grow_slab_correct:
  assumes inv: "slab_inv s" and ok: "grow_slab sz s = Inr (r, s')"
  shows "\<exists>k. taken s' r (int k) \<and> same_config s s' \<and> used s' = used s"
proof -
  define n0 where "n0 = slab_size_loop minimal_alloc (sz + 16)"
  define n1 where "n1 = (if n0 < get_allocated_size s then get_allocated_size s else n0)"
  define n where "n = (if maximal_alloc < n1 then maximal_alloc else n1)"
  define ref0 where "ref0 = (if m_slabs s = [] then m_baseline s else fst (last (m_slabs s)))"
  define ref where "ref = align_size_to_section_boundary ref0"
  have st: "(r, s') = slab_to_entry (ref + n, n) ref (s\<lparr>m_slabs := m_slabs s @ [(ref + n, n)]\<rparr>)"
    using ok by (auto simp: grow_slab_def Let_def slab_consts(2) n0_def n1_def n_def ref0_def ref_def
        rbind_eq_Inr split: if_splits)
  have "\<forall>sl \<in> set (m_slabs s). 8 dvd snd sl" using inv by (auto simp: slab_inv_def tiled_def)
  then have "8 dvd get_allocated_size s" unfolding get_allocated_size_def by (rule dvd_sum_map)
  moreover have "minimal_alloc \<le> n0" "8 dvd n0"
    using slab_size_loop_ge(2) slab_size_loop_ge(3) [of minimal_alloc] by (simp_all add: n0_def minimal_alloc_def)
  ultimately have "40 \<le> n" "8 dvd n"
    by (auto simp: n_def n1_def minimal_alloc_def maximal_alloc_def section_shift_def)
  from add_slab [OF inv refl this align_section_dvd _ st [unfolded ref_def]] align_section_ge [of ref0]
  show ?thesis by (auto simp: ref0_def)
qed

end
