(* ===== verification/Slab_Laws.thy ===== *)
theory Slab_Laws
  imports Slab_Inv Array_Create
begin

text \<open>
  The slab allocator keeps the allocator contract: allocation returns a block that nobody owns, freeing and
  reallocation release exactly the given block, and no operation touches the block of another owner. The
  theory holds the correctness of the allocation and deallocation paths, the interpretation of the contract,
  and the properties of the component.
\<close>

subsection \<open>Allocation\<close>

lemma fl_find_sub: "set (snd (fl_find s n)) \<subseteq> set (m_block_map s)"
  by (auto simp: fl_find_def Let_def dest: set_dropWhileD)

lemma find_larger_sub: "set (snd (find_larger l n)) \<subseteq> set (snd l)"
  by (auto simp: find_larger_def Let_def dest: set_dropWhileD)

lemma find_larger_size:
  assumes "snd (find_larger l n) = (k, x) # rest"
  shows "n + 32 \<le> k"
  using assms hd_dropWhile [of "\<lambda>e. fst e < n + 32" "snd l"]
  by (auto simp: find_larger_def Let_def slab_consts add.commute add.left_commute split: if_splits)

lemma break_small:
  assumes "size_from_block s r - (n + 8) < 24"
  shows "break_block r n s = (None, s)"
  using assms by (simp add: break_block_def Let_def slab_consts)

lemma taken_size: "taken s r k \<Longrightarrow> size_from_block s r = k"
  using size_from_block_tile(1) by (auto simp: taken_def)

text \<open>The part of \<open>allocate_block\<close> after a block has been found.\<close>

lemma use_taken:
  assumes T: "taken s1 block (int k)" and n: "block_ok (int n)"
    and b: "break_block block (int n) s1 = (remaining, s2)"
    and s3: "s3 = (case remaining of None \<Rightarrow> s2 | Some r \<Rightarrow> push_freelist_entry r s2)"
    and sz: "int n \<le> size_from_block s3 block" and mk: "mark_allocated block s3 = Inr s'"
  shows "\<exists>z. int n \<le> z \<and> z \<le> int n + 32 \<and> slab_inv s' \<and> same_config s1 s' \<and>
    used s' = used s1 \<union> {(block, z)} \<and> (\<forall>z. (block, z) \<notin> used s1)"
proof (cases "k < n + 32")
  case True
  then have "break_block block (int n) s1 = (None, s1)" using taken_size [OF T] by (intro break_small) simp
  then have "s3 = s1" using b s3 by simp
  moreover obtain s'' where "mark_allocated block s1 = Inr s''" "slab_inv s''" "same_config s1 s''"
    "used s'' = used s1 \<union> {(block, int k)}" "\<forall>z. (block, z) \<notin> used s1"
    using mark_taken [OF T] by blast
  ultimately show ?thesis using mk sz taken_size [OF T] True by (intro exI [of _ "int k"]) auto
next
  case False
  define m where "m = k - n - 8"
  have k: "k = n + 8 + m" "24 \<le> m" using False by (simp_all add: m_def)
  obtain s1' s'' where "break_block block (int n) s1 = (Some (block + n + 8), s1')"
    "mark_allocated block (push_freelist_entry (block + n + 8) s1') = Inr s''" "slab_inv s''"
    "same_config s1 s''" "used s'' = used s1 \<union> {(block, int n)}" "\<forall>z. (block, z) \<notin> used s1"
    using break_taken [OF T k(1) n k(2)] by blast
  then show ?thesis using b s3 mk by (intro exI [of _ "int n"]) auto
qed

lemma same_config_trans: "same_config s s' \<Longrightarrow> same_config s' s'' \<Longrightarrow> same_config s s''"
  by (simp add: same_config_def)

lemma taken_nat: "taken s r k \<Longrightarrow> \<exists>n. k = int n \<and> taken s r (int n)"
  by (metis taken_def zero_less_imp_eq_int)

lemma allocate_block_correct:
  assumes inv: "slab_inv s" and n: "block_ok (int n)" "0 < n"
    and ok: "allocate_block (int n) s = Inr (r, s2)" and mk: "mark_allocated r s2 = Inr s'"
  shows "\<exists>z. int n \<le> z \<and> z \<le> int n + 32 \<and> slab_inv s' \<and> same_config s s' \<and>
    used s' = used s \<union> {(r, z)} \<and> (\<forall>z. (r, z) \<notin> used s)"
proof (cases "found_exact (fl_find s (int n)) (int n)")
  case True
  then have p: "pop_freelist_entry (fl_find s (int n)) s = Inr (r, s2)"
    using ok by (simp add: allocate_block_def)
  obtain k l rest where P: "taken s2 r k" "tiles s2 = tiles s" "same_config s s2"
    "snd (fl_find s (int n)) = (k, l) # rest"
    using pop_freelist_entry_correct [OF inv fl_find_sub p] by blast
  have "k = int n" using True P(4) by (auto simp: found_exact_def fl_find_def Let_def)
  moreover have "used s2 = used s" using P(2) by (simp add: used_def)
  ultimately show ?thesis
    using mark_taken [OF P(1)] mk same_config_trans [OF P(3)] by (intro exI [of _ "int n"]) auto
next
  case False
  define lst where "lst = find_larger (fl_find s (int n)) (int n)"
  obtain block s1 where
    f': "(if found_something lst then pop_freelist_entry lst s else grow_slab (int n) s) = Inr (block, s1)"
    using ok False by (auto simp: allocate_block_def lst_def [symmetric] Let_def rbind_eq_Inr)
  obtain remaining s1' where b': "break_block block (int n) s1 = (remaining, s1')"
    by (cases "break_block block (int n) s1")
  have "block = r" and s2: "s2 = (case remaining of None \<Rightarrow> s1' | Some r \<Rightarrow> push_freelist_entry r s1')"
    and sz: "int n \<le> size_from_block s2 r"
    using ok False by (auto simp: allocate_block_def lst_def [symmetric] Let_def rbind_eq_Inr rassert_eq_Inr f' b')
  then have f: "(if found_something lst then pop_freelist_entry lst s else grow_slab (int n) s) = Inr (r, s1)"
    and b: "break_block r (int n) s1 = (remaining, s1')" using f' b' by simp_all
  have sub: "set (snd lst) \<subseteq> set (m_block_map s)"
    using find_larger_sub fl_find_sub unfolding lst_def by blast
  have "\<exists>k. taken s1 r (int k) \<and> same_config s s1 \<and> used s1 = used s"
  proof (cases "found_something lst")
    case True
    then obtain k where "taken s1 r k" "tiles s1 = tiles s" "same_config s s1"
      using pop_freelist_entry_correct [OF inv sub] f by auto
    then show ?thesis using taken_nat by (fastforce simp: used_def)
  next
    case False
    then show ?thesis using grow_slab_correct [OF inv] f by auto
  qed
  then obtain k where k: "taken s1 r (int k)" "same_config s s1" "used s1 = used s" by blast
  from use_taken [OF k(1) n(1) b s2 sz mk] show ?thesis
    using same_config_trans [OF k(2)] by (auto simp: k(3))
qed

subsection \<open>Freeing\<close>

text \<open>A block that is marked free but in no free list, and whose neighbours may be free.\<close>

definition loose ::
  "slab_alloc \<Rightarrow> nat \<times> nat \<Rightarrow> tile list \<Rightarrow> nat \<Rightarrow> int \<Rightarrow> tile \<Rightarrow> tile list \<Rightarrow> bool" where
  "loose s sl xs r k t ys \<longleftrightarrow>
     tiled s \<and> sl \<in> set (m_slabs s) \<and> slab_tiles s sl = xs @ (r, k) # t # ys \<and> 0 < k \<and>
     fl_ok (m_block_map s) \<and> free_exact (fl_of (m_block_map s)) (tiles s - {(r, k)}) \<and>
     (\<forall>sl' \<in> set (m_slabs s). sl' \<noteq> sl \<longrightarrow> coalesced (slab_tiles s sl')) \<and>
     coalesced xs \<and> coalesced (t # ys) \<and> m_free_space_state s \<noteq> free_space_Invalid"

lemma loose_tile: "loose s sl xs r k t ys \<Longrightarrow> (r, k) \<in> tiles s"
  by (force simp: loose_def tiles_def)

lemma free_exact_cong:
  assumes "\<And>r k. 0 < k \<Longrightarrow> (r, k) \<in> T \<longleftrightarrow> (r, k) \<in> T'"
  shows "free_exact F T \<longleftrightarrow> free_exact F T'"
  unfolding free_exact_def using assms by blast

lemma mark_freed_loose:
  assumes inv: "slab_inv s" and u: "(r, z) \<in> used s" and n: "n \<le> z" "z \<le> n + 32"
  shows "\<exists>s' sl xs t ys. mark_freed r n s = Inr s' \<and> loose s' sl xs r z t ys \<and> same_config s s' \<and>
    used s' = used s - {(r, z)}"
proof -
  have t: "tiled s" "(r, - z) \<in> tiles s" "0 < z" using inv u by (auto simp: slab_inv_def used_def)
  obtain sl xs y ys where sl: "sl \<in> set (m_slabs s)" "slab_tiles s sl = xs @ (r, - z) # y # ys"
    using tile_block [OF t(1,2)] t(3) by (metis less_irrefl neg_equal_0_iff_equal)
  obtain bb' where m: "mark_freed r n s = Inr (s\<lparr>m_bb := bb'\<rparr>)"
    and S: "slab_to s sl (xs @ (r, z) # y # ys) (tiles s - {(r, - z)} \<union> {(r, z)}) bb'"
    using mark_freed_step [OF t(1) sl t(3) n] by blast
  define s' where "s' = s\<lparr>m_bb := bb'\<rparr>"
  have un: "(r, x) \<in> tiles s \<longleftrightarrow> x = - z" for x using tiles_unique [OF t(1,2)] t(2) by blast
  have t': "tiled s'" "tiles s' = tiles s - {(r, - z)} \<union> {(r, z)}"
    using S by (simp_all add: slab_to_def s'_def)
  have "coalesced (xs @ (r, - z) # y # ys)" using inv sl by (metis slab_inv_def)
  then have c: "coalesced xs" "coalesced (y # ys)"
    unfolding coalesced_append [of xs r] coalesced_last by (cases y; auto)+
  have pos: "(q, k) \<in> tiles s' - {(r, z)} \<longleftrightarrow> (q, k) \<in> tiles s" if "0 < k" for q k
    using un [of k] t(3) that unfolding t'(2) by (cases "q = r") simp_all
  have neg: "(q, k) \<in> used s' \<longleftrightarrow> (q, k) \<in> used s - {(r, z)}" for q k
    using un [of "- k"] t(3) unfolding t'(2) used_def by (cases "q = r") auto
  have "free_exact (fl_of (m_block_map s)) (tiles s' - {(r, z)})"
    using inv iffD2 [OF free_exact_cong [OF pos]] unfolding slab_inv_def by blast
  then have "loose s' sl xs r z y ys"
    using inv S sl t' t(3) c unfolding loose_def by (auto simp: slab_inv_def slab_to_def s'_def)
  moreover have "used s' = used s - {(r, z)}"
    by (rule set_eqI) (use neg in \<open>simp only: split_paired_all\<close>)
  moreover have "same_config s s'" by (simp add: s'_def same_config_def)
  ultimately show ?thesis using m s'_def by blast
qed

lemma remove_freelist_entry_correct:
  assumes "tiled s" "(r, k) \<in> tiles s" "r \<in> set (fl_of (m_block_map s) k)" "k \<noteq> 0"
  shows "remove_freelist_entry r s = Inr (s\<lparr>m_block_map := fl_store k (remove1 r (fl_of (m_block_map s) k)) (m_block_map s)\<rparr>)"
  using assms size_from_block_tile(1) [OF assms(1,2,4)]
  by (cases "map_of (m_block_map s) k") (auto simp: remove_freelist_entry_def Let_def fl_of_def)

lemma used_merge:
  assumes "T' = T - {(r1, int k1), (r2, int k2)} \<union> {(r1, int (k1 + k2 + 8))}"
  shows "{(r, z). (r, - z) \<in> T' \<and> 0 < z} = {(r, z). (r, - z) \<in> T \<and> 0 < z}"
  using assms by auto

text \<open>Merging the loose block with a free neighbour that leaves its free list.\<close>

lemma merge_loose:
  assumes T: "tiled s" and sl: "sl \<in> set (m_slabs s)"
    and L: "slab_tiles s sl = xs @ (r1, int k1) # (r2, int k2) # t # ys" and k: "0 < k1" "0 < k2"
    and nb: "(rn = r1 \<and> kn = int k1 \<and> lo = (r2, int k2)) \<or> (rn = r2 \<and> kn = int k2 \<and> lo = (r1, int k1))"
    and ok: "fl_ok (m_block_map s)" and F: "free_exact (fl_of (m_block_map s)) (tiles s - {lo})"
    and co: "\<forall>sl' \<in> set (m_slabs s). sl' \<noteq> sl \<longrightarrow> coalesced (slab_tiles s sl')" "coalesced xs" "coalesced (t # ys)"
    and st: "m_free_space_state s \<noteq> free_space_Invalid"
  shows "\<exists>s1 s'. remove_freelist_entry rn s = Inr s1 \<and> merge_blocks r1 r2 s1 = (r1, s') \<and>
    loose s' sl xs r1 (int (k1 + k2 + 8)) t ys \<and> same_config s s' \<and> used s' = used s"
proof -
  have tl: "(r1, int k1) \<in> tiles s" "(r2, int k2) \<in> tiles s" using sl L by (force simp: tiles_def)+
  have "r1 \<noteq> r2"
    using tiled_tiling [OF T sl] tiling_block(5) [of "m_bb s" 0 _ _ xs r1 "int k1" r2 "int k2"] L by fastforce
  then have in_list: "rn \<in> set (fl_of (m_block_map s) kn)" "(rn, kn) \<in> tiles s" "kn \<noteq> 0"
    using nb F tl k by (auto simp: free_exact_def)
  define m where "m = fl_store kn (remove1 rn (fl_of (m_block_map s) kn)) (m_block_map s)"
  define s1 where "s1 = s\<lparr>m_block_map := m\<rparr>"
  have rm: "remove_freelist_entry rn s = Inr s1"
    using remove_freelist_entry_correct [OF T in_list(2,1,3)] by (simp add: s1_def m_def)
  have T1: "tiled s1" "sl \<in> set (m_slabs s1)" "slab_tiles s1 sl = xs @ (r1, int k1) # (r2, int k2) # t # ys"
    "tiles s1 = tiles s"
    using T sl L by (simp_all add: s1_def)
  obtain bb' where mb: "merge_blocks r1 r2 s1 = (r1, s1\<lparr>m_bb := bb'\<rparr>)"
    and S: "slab_to s1 sl (xs @ (r1, int (k1 + k2 + 8)) # t # ys)
      (tiles s - {(r1, int k1), (r2, int k2)} \<union> {(r1, int (k1 + k2 + 8))}) bb'"
    using merge_blocks_step [OF T1(1-3)] T1(4) by auto
  define s' where "s' = s1\<lparr>m_bb := bb'\<rparr>"
  have t': "tiled s'" "tiles s' = tiles s - {(r1, int k1), (r2, int k2)} \<union> {(r1, int (k1 + k2 + 8))}"
    using S by (simp_all add: slab_to_def s'_def)
  have "(r1, int (k1 + k2 + 8)) \<notin> tiles s" using tiles_unique [OF T tl(1)] by force
  then have "tiles s' - {(r1, int (k1 + k2 + 8))} = tiles s - {lo} - {(rn, kn)}" using nb unfolding t'(2) by auto
  then have "free_exact (fl_of m) (tiles s' - {(r1, int (k1 + k2 + 8))})"
    using free_exact_remove [OF F, of kn rn] by (simp add: m_def)
  then have "loose s' sl xs r1 (int (k1 + k2 + 8)) t ys"
    using S sl t' co st fl_store_ok [OF ok] unfolding loose_def
    by (auto simp: slab_to_def s'_def s1_def m_def)
  moreover have "used s' = used s" unfolding used_def by (rule used_merge [OF t'(2)])
  ultimately show ?thesis using rm mb by (auto simp: s'_def s1_def same_config_def)
qed

lemma last_size_snoc: "last_size 0 xs \<noteq> 0 \<Longrightarrow> \<exists>xs' r. xs = xs' @ [(r, last_size 0 xs)]"
  by (induction xs rule: rev_induct) auto

lemma merge_prev:
  assumes "loose s sl xs r k t ys"
  shows "\<exists>xs' r' k' s'. (case get_prev_block_if_mergeable s r of None \<Rightarrow> Inr (r, s)
      | Some prev \<Rightarrow> rbind (remove_freelist_entry prev s) (\<lambda>s1. Inr (merge_blocks prev r s1))) = Inr (r', s') \<and>
    loose s' sl xs' r' k' t ys \<and> last_size 0 xs' \<le> 0 \<and> same_config s s' \<and> used s' = used s"
proof -
  obtain rt kt where t: "t = (rt, kt)" by (cases t)
  have L: "tiled s" "sl \<in> set (m_slabs s)" "slab_tiles s sl = xs @ (r, k) # t # ys" "0 < k"
    and A: "fl_ok (m_block_map s)" "free_exact (fl_of (m_block_map s)) (tiles s - {(r, k)})"
      "\<forall>sl' \<in> set (m_slabs s). sl' \<noteq> sl \<longrightarrow> coalesced (slab_tiles s sl')"
      "coalesced xs" "coalesced (t # ys)" "m_free_space_state s \<noteq> free_space_Invalid"
    using assms by (simp_all add: loose_def)
  note B = tiling_block [OF tiled_tiling [OF L(1,2), unfolded L(3) t]]
  define b where "b = last_size 0 xs"
  have bb: "m_bb s (r - 8) = (b, k)" using B by (simp add: b_def)
  show ?thesis
  proof (cases "b \<le> 0")
    case True
    then have "get_prev_block_if_mergeable s r = None"
      by (simp add: get_prev_block_if_mergeable_def bb_before_def bb)
    then show ?thesis using assms True by (auto simp: same_config_def b_def)
  next
    case False
    then obtain kp where kp: "b = int kp" "0 < kp" by (metis not_le zero_less_imp_eq_int of_nat_0_less_iff)
    obtain xs' rp where xs: "xs = xs' @ [(rp, b)]" using last_size_snoc [of xs] False by (auto simp: b_def)
    obtain kn where kn: "k = int kn" "0 < kn" using L(4) by (metis zero_less_imp_eq_int of_nat_0_less_iff)
    have L': "slab_tiles s sl = xs' @ (rp, int kp) # (r, int kn) # t # ys" using L(3) xs kp kn by simp
    note B' = tiling_block [OF tiled_tiling [OF L(1,2), unfolded L']]
    have "nat (int (r - 8) - int kp) = rp" using B'(1,5) by simp
    then have pv: "get_prev_block_if_mergeable s r = Some rp"
      using kp by (simp add: get_prev_block_if_mergeable_def bb_before_def bb block_before_def Let_def)
    have c: "coalesced xs'" "\<not> 0 < last_size 0 xs'"
      using assms False unfolding loose_def xs coalesced_last by auto
    have "\<exists>s1 s'. remove_freelist_entry rp s = Inr s1 \<and> merge_blocks rp r s1 = (rp, s') \<and>
        loose s' sl xs' rp (int (kp + kn + 8)) t ys \<and> same_config s s' \<and> used s' = used s"
      by (rule merge_loose [OF L(1,2) L' kp(2) kn(2), where rn = rp and kn = "int kp" and lo = "(r, int kn)"])
        (use A c(1) kn(1) in simp_all)
    then obtain s1 s' where s': "remove_freelist_entry rp s = Inr s1" "merge_blocks rp r s1 = (rp, s')"
      "loose s' sl xs' rp (int (kp + kn + 8)) t ys" "same_config s s'" "used s' = used s" by blast
    show ?thesis
      by (rule exI [of _ xs'], rule exI [of _ rp], rule exI [of _ "int (kp + kn + 8)"], rule exI [of _ s'])
        (use pv c(2) s' in \<open>simp add: not_less\<close>)
  qed
qed

lemma merge_next:
  assumes "loose s sl xs r k t ys"
  shows "\<exists>k' t' ys' s'. (case get_next_block_if_mergeable s r of None \<Rightarrow> Inr (r, s)
      | Some nxt \<Rightarrow> rbind (remove_freelist_entry nxt s) (\<lambda>s1. Inr (merge_blocks r nxt s1))) = Inr (r, s') \<and>
    loose s' sl xs r k' t' ys' \<and> snd t' \<le> 0 \<and> same_config s s' \<and> used s' = used s"
proof -
  obtain rt kt where t: "t = (rt, kt)" by (cases t)
  have L: "tiled s" "sl \<in> set (m_slabs s)" "slab_tiles s sl = xs @ (r, k) # t # ys" "0 < k"
    and A: "fl_ok (m_block_map s)" "free_exact (fl_of (m_block_map s)) (tiles s - {(r, k)})"
      "\<forall>sl' \<in> set (m_slabs s). sl' \<noteq> sl \<longrightarrow> coalesced (slab_tiles s sl')"
      "coalesced xs" "coalesced (t # ys)" "m_free_space_state s \<noteq> free_space_Invalid"
    using assms by (simp_all add: loose_def)
  note B = tiling_block [OF tiled_tiling [OF L(1,2), unfolded L(3) t]]
  obtain kn where kn: "k = int kn" "0 < kn" using L(4) by (metis zero_less_imp_eq_int of_nat_0_less_iff)
  have at: "bb_after s r = r + kn" using B by (simp add: bb_after_def size_from_block_def bb_before_def kn)
  have bb: "m_bb s (r + kn) = (k, kt)" using B(1,4) by (simp add: kn algebra_simps)
  show ?thesis
  proof (cases "kt \<le> 0")
    case True
    then have "get_next_block_if_mergeable s r = None"
      by (simp add: get_next_block_if_mergeable_def at bb)
    then show ?thesis using assms True t by (auto simp: same_config_def)
  next
    case False
    then obtain k2 where k2: "kt = int k2" "0 < k2" by (metis not_le zero_less_imp_eq_int of_nat_0_less_iff)
    have nx: "get_next_block_if_mergeable s r = Some rt"
      using False B(5) by (simp add: get_next_block_if_mergeable_def at bb block_after_def kn)
    have "tiling (m_bb s) 0 (slab_start sl) (fst sl) ((xs @ [(r, k)]) @ t # ys)"
      using tiled_tiling [OF L(1,2)] L(3) by simp
    then have "ys \<noteq> []" unfolding tiling_append t using False by auto
    then obtain t' ys' where ys: "ys = t' # ys'" by (cases ys) auto
    have L': "slab_tiles s sl = xs @ (r, int kn) # (rt, int k2) # t' # ys'"
      using L(3) t ys k2 kn by simp
    have c: "coalesced (t' # ys')" "snd t' \<le> 0"
      using assms False unfolding loose_def t ys by (cases t'; auto)+
    have "\<exists>s1 s'. remove_freelist_entry rt s = Inr s1 \<and> merge_blocks r rt s1 = (r, s') \<and>
        loose s' sl xs r (int (kn + k2 + 8)) t' ys' \<and> same_config s s' \<and> used s' = used s"
      by (rule merge_loose [OF L(1,2) L' kn(2) k2(2), where rn = rt and kn = "int k2" and lo = "(r, int kn)"])
        (use A c(1) kn(1) in simp_all)
    then obtain s1 s' where s': "remove_freelist_entry rt s = Inr s1" "merge_blocks r rt s1 = (r, s')"
      "loose s' sl xs r (int (kn + k2 + 8)) t' ys'" "same_config s s'" "used s' = used s" by blast
    show ?thesis
      by (rule exI [of _ "int (kn + k2 + 8)"], rule exI [of _ t'], rule exI [of _ ys'], rule exI [of _ s'])
        (use nx c(2) s' in simp)
  qed
qed

lemma push_loose:
  assumes "loose s sl xs r k t ys" "last_size 0 xs \<le> 0" "snd t \<le> 0"
  shows "slab_inv (push_freelist_entry r s)" "same_config s (push_freelist_entry r s)"
    "used (push_freelist_entry r s) = used s"
proof -
  have L: "tiled s" "sl \<in> set (m_slabs s)" "slab_tiles s sl = xs @ (r, k) # t # ys" "0 < k"
    and A: "fl_ok (m_block_map s)" "free_exact (fl_of (m_block_map s)) (tiles s - {(r, k)})"
      "\<forall>sl' \<in> set (m_slabs s). sl' \<noteq> sl \<longrightarrow> coalesced (slab_tiles s sl')"
      "coalesced xs" "coalesced (t # ys)" "m_free_space_state s \<noteq> free_space_Invalid"
    using assms by (simp_all add: loose_def)
  have "\<exists>m. push_freelist_entry r s = s\<lparr>m_block_map := m\<rparr>"
    unfolding push_freelist_entry_def Let_def by (cases "map_of (m_block_map s) (size_from_block s r)") auto
  then obtain m where m: "push_freelist_entry r s = s\<lparr>m_block_map := m\<rparr>" by blast
  have "(r, k) \<in> tiles s" by (rule loose_tile [OF assms(1)])
  then have "free_exact (fl_of (m_block_map (push_freelist_entry r s))) (tiles s)"
    using size_from_block_tile(1) [OF L(1), of r k] free_exact_push [OF A(2) _ L(4)] L(4)
    by (simp add: push_freelist_entry_simps Let_def)
  moreover have "coalesced (xs @ (r, k) # t # ys)"
    unfolding coalesced_append [of xs r] coalesced_last using A(4,5) assms(2,3) by (cases t) auto
  ultimately show "slab_inv (push_freelist_entry r s)"
    using L A push_freelist_entry_ok [OF A(1), of r] unfolding m slab_inv_def by (simp, metis)
  show "same_config s (push_freelist_entry r s)" by (simp add: m same_config_def)
  show "used (push_freelist_entry r s) = used s" by (simp add: m used_def)
qed

lemma free_block_correct:
  assumes "loose s sl xs r k t ys"
  shows "\<exists>s'. free_block r s = Inr s' \<and> slab_inv s' \<and> same_config s s' \<and> used s' = used s"
proof -
  obtain xs1 r1 k1 s1 where 1: "(case get_prev_block_if_mergeable s r of None \<Rightarrow> Inr (r, s)
      | Some prev \<Rightarrow> rbind (remove_freelist_entry prev s) (\<lambda>s1. Inr (merge_blocks prev r s1))) = Inr (r1, s1)"
    "loose s1 sl xs1 r1 k1 t ys" "last_size 0 xs1 \<le> 0" "same_config s s1" "used s1 = used s"
    using merge_prev [OF assms] by blast
  obtain k2 t2 ys2 s2 where 2: "(case get_next_block_if_mergeable s1 r1 of None \<Rightarrow> Inr (r1, s1)
      | Some nxt \<Rightarrow> rbind (remove_freelist_entry nxt s1) (\<lambda>s2. Inr (merge_blocks r1 nxt s2))) = Inr (r1, s2)"
    "loose s2 sl xs1 r1 k2 t2 ys2" "snd t2 \<le> 0" "same_config s1 s2" "used s2 = used s1"
    using merge_next [OF 1(2)] by blast
  have "free_block r s = Inr (push_freelist_entry r1 s2)"
    unfolding free_block_def 1(1) by (simp add: 2(1))
  then show ?thesis
    using push_loose [OF 2(2) 1(3) 2(3)] same_config_trans [OF 1(4) same_config_trans [OF 2(4)]] 1(5) 2(5)
    by auto
qed

subsection \<open>The operations of the allocator\<close>

definition slab_owned :: "slab_alloc \<Rightarrow> nat \<Rightarrow> nat \<Rightarrow> bool" where
  "slab_owned s r k \<longleftrightarrow> (\<exists>z. (r, z) \<in> used s \<and> fix_size k \<le> z \<and> z \<le> fix_size k + 32)"

lemma slab_owned_cong: "used s' = used s \<Longrightarrow> slab_owned s' = slab_owned s"
  by (intro ext) (simp add: slab_owned_def)

lemma used_unique: "slab_inv s \<Longrightarrow> (r, z) \<in> used s \<Longrightarrow> (r, z') \<in> used s \<Longrightarrow> z = z'"
  using tiles_unique [of s r "- z" "- z'"] by (auto simp: slab_inv_def used_def)

lemma fix_size_round: "\<exists>n. fix_size k = int n \<and> 24 \<le> n \<and> n mod 8 = 0 \<and> k \<le> n \<and> n < k + 32"
proof -
  define q where "q = (if k < 24 then 24 else k)"
  define d where "d = (q + 7) div 8 * 8"
  have "(q + 7) div 8 * 8 + (q + 7) mod 8 = q + 7" "(q + 7) mod 8 < 8" by simp_all
  then have d: "d \<le> q + 7" "q \<le> d" "d mod 8 = 0" unfolding d_def by (linarith, linarith, simp)
  have a: "q AND 7 = q mod 8" using take_bit_eq_mask [of 3 q] by (simp add: take_bit_eq_mod mask_eq_exp_minus_1)
  have "nat sizeof_FreeBlock = 24" "(int k < sizeof_FreeBlock) = (k < 24)" by (simp_all add: slab_consts)
  then have "fix_size k = int (if q AND 7 \<noteq> 0 then push_bit 3 (drop_bit 3 (q + 7)) else q)"
    unfolding fix_size_def Let_def q_def by (simp only:)
  then have "fix_size k = int (if q mod 8 \<noteq> 0 then (q + 7) div 8 * 8 else q)"
    unfolding a by (simp add: push_bit_eq_mult drop_bit_eq_div)
  moreover have "24 \<le> q" "k \<le> q" "q < k + 25" by (auto simp: q_def)
  ultimately show ?thesis using d unfolding d_def [symmetric] by (cases "q mod 8 = 0") auto
qed

lemma slab_inv_fields [simp]:
  "slab_inv (s\<lparr>m_free_space_state := free_space_Dirty, m_commit_size := c\<rparr>) \<longleftrightarrow>
     slab_inv (s\<lparr>m_free_space_state := free_space_Dirty\<rparr>)"
  "slab_inv (s\<lparr>m_free_read_only := q\<rparr>) = slab_inv s"
  "used (s\<lparr>m_free_space_state := f\<rparr>) = used s" "used (s\<lparr>m_commit_size := c\<rparr>) = used s"
  "used (s\<lparr>m_free_read_only := q\<rparr>) = used s"
  by (simp_all add: slab_inv_def used_def)

lemma slab_inv_dirty: "slab_inv s \<Longrightarrow> slab_inv (s\<lparr>m_free_space_state := free_space_Dirty\<rparr>)"
  by (simp add: slab_inv_def)

lemma slab_do_alloc_steps:
  assumes inv: "slab_inv s" and ok: "slab_do_alloc fresh n s = Inr ((r, m), s')"
  defines "s1 \<equiv> s\<lparr>m_free_space_state := free_space_Dirty, m_commit_size := (m_commit_size s + n) mod 2 ^ 64\<rparr>"
  shows "\<exists>s2. allocate_block (fix_size n) s1 = Inr (r, s2) \<and> mark_allocated r s2 = Inr s' \<and> m = fresh r"
proof -
  have "m_free_space_state s \<noteq> free_space_Invalid" using inv by (simp add: slab_inv_def)
  then have "rbind (allocate_block (fix_size n) s1) (\<lambda>(entry, s2). rbind (mark_allocated entry s2)
      (\<lambda>s3. rbind (rassert (m_baseline s3 \<le> entry)) (\<lambda>_. Inr ((entry, fresh entry), s3)))) = Inr ((r, m), s')"
    using ok unfolding slab_do_alloc_def Let_def s1_def [symmetric] rbind_eq_Inr [of "rassert _"] by simp
  then show ?thesis by (auto simp: rbind_eq_Inr)
qed

lemma slab_do_alloc_correct:
  assumes inv: "slab_inv s" and ok: "slab_do_alloc fresh n s = Inr ((r, m), s')"
  shows "\<exists>z. fix_size n \<le> z \<and> z \<le> fix_size n + 32 \<and> slab_inv s' \<and>
    m_baseline s' = m_baseline s \<and> m_is_read_only s' = m_is_read_only s \<and>
    m_free_space_state s' = free_space_Dirty \<and> m_free_read_only s' = m_free_read_only s \<and>
    used s' = used s \<union> {(r, z)} \<and> (\<forall>z. (r, z) \<notin> used s) \<and> m = fresh r"
proof -
  define s1 where "s1 = s\<lparr>m_free_space_state := free_space_Dirty, m_commit_size := (m_commit_size s + n) mod 2 ^ 64\<rparr>"
  obtain s2 where al: "allocate_block (fix_size n) s1 = Inr (r, s2)" "mark_allocated r s2 = Inr s'" "m = fresh r"
    using slab_do_alloc_steps [OF inv ok] unfolding s1_def by blast
  obtain k where k: "fix_size n = int k" "24 \<le> k" "k mod 8 = 0" using fix_size_round [of n] by (elim exE conjE)
  have "slab_inv s1" using slab_inv_dirty [OF inv] by (simp add: s1_def)
  moreover have "block_ok (int k)" using k by (simp add: block_ok_dvd mod_eq_0_iff_dvd int_dvd_int_iff [of 8 k, simplified])
  moreover have "0 < k" using k(2) by simp
  ultimately obtain z where z: "int k \<le> z" "z \<le> int k + 32" "slab_inv s'" "same_config s1 s'"
      "used s' = used s1 \<union> {(r, z)}" "\<forall>z. (r, z) \<notin> used s1"
    using allocate_block_correct [of s1 k r s2 s'] al(1,2) unfolding k(1) by blast
  have "used s1 = used s" by (simp add: s1_def)
  moreover have "m_baseline s' = m_baseline s" "m_is_read_only s' = m_is_read_only s"
    "m_free_space_state s' = free_space_Dirty" "m_free_read_only s' = m_free_read_only s"
    using z(4) by (simp_all add: same_config_def s1_def)
  ultimately show ?thesis using z al(3) unfolding k(1) by metis
qed

lemma slab_do_free_slab:
  assumes "\<not> r < m_baseline s" "m_free_space_state s \<noteq> free_space_Invalid"
  shows "slab_do_free r m s =
    (let sz = get_capacity_from_header m
     in rbind (rassert (m_free_space_state s = free_space_Dirty)) (\<lambda>_. rbind (rassert (fix_size sz < 2147483648)) (\<lambda>_.
        rbind (mark_freed r (fix_size sz) (s\<lparr>m_free_space_state := free_space_Dirty,
          m_commit_size := (m_commit_size s + 2 ^ 64 - sz) mod 2 ^ 64\<rparr>)) (free_block r))))"
  using assms by (simp add: slab_do_free_def Let_def)

lemma slab_do_free_read_only:
  assumes "r < m_baseline s" "m_free_space_state s \<noteq> free_space_Invalid"
  shows "slab_do_free r m s =
    rbind (get_byte_size_from_header m) (\<lambda>sz. rbind (free_read_only r sz (m_free_read_only s)) (\<lambda>q.
      Inr (s\<lparr>m_free_space_state := free_space_Dirty, m_free_read_only := q\<rparr>)))"
  using assms by (simp add: slab_do_free_def Let_def)

lemma slab_do_free_correct:
  assumes inv: "slab_inv s" and ok: "slab_do_free r m s = Inr s'"
    and own: "m_baseline s \<le> r \<longrightarrow> slab_owned s r (get_capacity_from_header m)"
  shows "slab_inv s' \<and> m_baseline s' = m_baseline s \<and> m_is_read_only s' = m_is_read_only s \<and>
    used s' = {(q, z) \<in> used s. q = r \<longrightarrow> r < m_baseline s}"
proof -
  have valid: "m_free_space_state s \<noteq> free_space_Invalid" using inv by (simp add: slab_inv_def)
  show ?thesis
  proof (cases "r < m_baseline s")
    case True
    obtain q where "s' = s\<lparr>m_free_space_state := free_space_Dirty, m_free_read_only := q\<rparr>"
      using ok slab_do_free_read_only [OF True valid] by (auto simp: rbind_eq_Inr)
    then show ?thesis using True slab_inv_dirty [OF inv] by auto
  next
    case False
    define n where "n = fix_size (get_capacity_from_header m)"
    obtain z where z: "(r, z) \<in> used s" "n \<le> z" "z \<le> n + 32"
      using own False by (auto simp: slab_owned_def n_def)
    define c where "c = (m_commit_size s + 2 ^ 64 - get_capacity_from_header m) mod 2 ^ 64"
    define s2 where "s2 = s\<lparr>m_free_space_state := free_space_Dirty, m_commit_size := c\<rparr>"
    have s2: "slab_inv s2" "(r, z) \<in> used s2" using slab_inv_dirty [OF inv] z by (simp_all add: s2_def)
    obtain s3 where c: "mark_freed r n s2 = Inr s3" "free_block r s3 = Inr s'"
      using ok unfolding slab_do_free_slab [OF False valid] Let_def n_def [symmetric] c_def [symmetric] s2_def [symmetric]
      by (auto simp: rbind_eq_Inr)
    obtain sl xs t ys where 3: "loose s3 sl xs r z t ys" "same_config s2 s3" "used s3 = used s2 - {(r, z)}"
      using mark_freed_loose [OF s2 z(2,3)] c(1) by auto
    have "slab_inv s' \<and> same_config s3 s' \<and> used s' = used s3" using free_block_correct [OF 3(1)] c(2) by auto
    moreover have "used s - {(r, z)} = {(q, z) \<in> used s. q = r \<longrightarrow> r < m_baseline s}"
      using used_unique [OF inv z(1)] z(1) False by blast
    ultimately show ?thesis using 3 by (simp add: same_config_def s2_def)
  qed
qed

lemma slab_used_ref: "slab_inv s \<Longrightarrow> (r, z) \<in> used s \<Longrightarrow> r mod 8 = 0 \<and> r \<noteq> 0 \<and> m_baseline s \<le> r"
  using size_from_block_tile(3,4,5) [of s r "- z"] by (auto simp: slab_inv_def used_def)

subsection \<open>The contract\<close>

lemma slab_alloc_law:
  assumes inv: "slab_inv s" and ok: "slab_do_alloc fresh n s = Inr ((r, m), s')"
  shows "slab_inv s' \<and> m_baseline s' = m_baseline s \<and> m_is_read_only s' = m_is_read_only s \<and>
    r mod 8 = 0 \<and> r \<noteq> 0 \<and> m_baseline s \<le> r \<and> slab_owned s' r n \<and> (\<forall>k. \<not> slab_owned s r k) \<and>
    (\<forall>r' k. r' \<noteq> r \<longrightarrow> slab_owned s' r' k = slab_owned s r' k)"
proof -
  obtain z where "fix_size n \<le> z" "z \<le> fix_size n + 32" "slab_inv s'" "m_baseline s' = m_baseline s"
    "m_is_read_only s' = m_is_read_only s" "used s' = used s \<union> {(r, z)}" "\<forall>z. (r, z) \<notin> used s"
    using slab_do_alloc_correct [OF inv ok] by blast
  then show ?thesis using slab_used_ref [of s' r z] by (auto simp: slab_owned_def)
qed

lemma slab_free_law:
  assumes "slab_inv s" "slab_do_free r m s = Inr s'"
    "m_baseline s \<le> r \<longrightarrow> slab_owned s r (get_capacity_from_header m)"
  shows "slab_inv s' \<and> m_baseline s' = m_baseline s \<and> m_is_read_only s' = m_is_read_only s \<and>
    (m_baseline s \<le> r \<longrightarrow> (\<forall>k. \<not> slab_owned s' r k)) \<and>
    (\<forall>q k. q \<noteq> r \<longrightarrow> slab_owned s' q k = slab_owned s q k)"
  using slab_do_free_correct [OF assms] by (auto simp: slab_owned_def)

lemma slab_realloc_law:
  assumes inv: "slab_inv s" and ok: "slab_do_realloc fresh r m old new s = Inr ((r', m'), s')"
    and b: "m_baseline s \<le> r" and own: "slab_owned s r (get_capacity_from_header m)"
  shows "slab_inv s' \<and> m_baseline s' = m_baseline s \<and> m_is_read_only s' = m_is_read_only s \<and>
    r' mod 8 = 0 \<and> r' \<noteq> 0 \<and> m_baseline s \<le> r' \<and> (\<forall>i < old. m' i = m i) \<and>
    slab_owned s' r' new \<and> (r' \<noteq> r \<longrightarrow> (\<forall>k. \<not> slab_owned s r' k \<and> \<not> slab_owned s' r k)) \<and>
    (\<forall>q k. q \<noteq> r \<longrightarrow> q \<noteq> r' \<longrightarrow> slab_owned s' q k = slab_owned s q k)"
proof -
  obtain m1 s1 where 1: "slab_do_alloc fresh new s = Inr ((r', m1), s1)" "slab_do_free r m s1 = Inr s'"
    "m' = copy_n m old m1"
    using ok by (auto simp: slab_do_realloc_def rbind_eq_Inr)
  note A = slab_alloc_law [OF inv 1(1)]
  have "r \<noteq> r'" using A own by blast
  moreover have "slab_owned s1 r (get_capacity_from_header m)" using A own calculation by blast
  ultimately show ?thesis
    using A slab_free_law [of s1 r m s', OF _ 1(2)] b by (auto simp: 1(3) copy_n_def)
qed

interpretation slab: allocator "slab_class fresh" slab_inv slab_owned for fresh
proof (unfold_locales, goal_cases)
  case (1 s n r m s')
  then show ?case using slab_alloc_law [of s fresh n r m s'] by (simp add: slab_class_def)
next
  case (2 s r m old new r' m' s')
  then show ?case using slab_realloc_law [of s fresh r m old new r' m' s'] by (simp add: slab_class_def)
next
  case (3 s r m s')
  then show ?case using slab_free_law [of s r m s'] by (simp add: slab_class_def)
qed

end
