(* ===== verification/Slab_Props.thy ===== *)
theory Slab_Props
  imports Slab_Laws
begin

text \<open>
  Properties of the slab allocator: blocks in use never overlap, freeing a block that is in use always
  succeeds, allocation fails only for the sizes the code cannot serve, freed ranges of the file are kept
  disjoint and merged, and a reset returns every slab to one free block.
\<close>

subsection \<open>Blocks in use are apart\<close>

lemma tiling_apart:
  assumes "tiling bb b p e ts" "(r, k) \<in> set ts" "(q, l) \<in> set ts" "r < q" "k \<noteq> 0"
  shows "r + nat \<bar>k\<bar> + 8 \<le> q"
  using assms
proof (induction bb b p e ts rule: tiling.induct)
  case (3 bb b p e r' k' t ts)
  then have t: "tiling bb k' (p + 8 + nat \<bar>k'\<bar>) e (t # ts)" and r: "r' = p + 8" by simp_all
  have "(q, l) \<in> set (t # ts)" using 3 r tiling_refs [OF t, of r k] by auto
  then show ?case using "3.IH" [OF t] 3 tiling_refs [OF t, of q l] r by auto
qed auto

lemma tiling_within:
  assumes "tiling bb b p e ts" "(r, k) \<in> set ts" "k \<noteq> 0"
  shows "r + nat \<bar>k\<bar> + 8 \<le> e"
  using assms
proof (induction bb b p e ts rule: tiling.induct)
  case (3 bb b p e r' k' t ts)
  then have t: "tiling bb k' (p + 8 + nat \<bar>k'\<bar>) e (t # ts)" and r: "r' = p + 8" by simp_all
  then show ?case using 3 tiling_refs [OF t, of "fst t" "snd t"] by auto
qed auto

lemma tiles_apart:
  assumes T: "tiled s" and r: "(r, k) \<in> tiles s" "k \<noteq> 0" and q: "(q, l) \<in> tiles s" "l \<noteq> 0" and lt: "r < q"
  shows "r + nat \<bar>k\<bar> + 8 \<le> q"
proof -
  obtain sl where sl: "sl \<in> set (m_slabs s)" "(r, k) \<in> set (slab_tiles s sl)" using r by (auto simp: tiles_def)
  obtain sl' where sl': "sl' \<in> set (m_slabs s)" "(q, l) \<in> set (slab_tiles s sl')" using q by (auto simp: tiles_def)
  show ?thesis
  proof (cases "sl = sl'")
    case True
    then show ?thesis using tiling_apart [OF tiled_tiling [OF T sl(1)] sl(2) _ lt r(2)] sl'(2) by auto
  next
    case False
    then consider "fst sl \<le> slab_start sl'" | "fst sl' \<le> slab_start sl"
      using slabs_layout_apart [OF _ sl(1) sl'(1)] T unfolding tiled_def by blast
    then show ?thesis
      using tiling_within [OF tiled_tiling [OF T sl(1)] sl(2) r(2)] tiling_refs [OF tiled_tiling [OF T sl(1)] sl(2)]
        tiling_refs [OF tiled_tiling [OF T sl'(1)] sl'(2)] lt
      by cases linarith+
  qed
qed

lemma used_apart:
  assumes "slab_inv s" "(r, y) \<in> used s" "(q, z) \<in> used s" "r \<noteq> q"
  shows "int r + y + 8 \<le> int q \<or> int q + z + 8 \<le> int r"
  using tiles_apart [of s r "- y" q "- z"] tiles_apart [of s q "- z" r "- y"] assms
  by (cases "r < q") (auto simp: slab_inv_def used_def)

text \<open>C2: In a state satisfying the allocator invariant, a successful \<open>SlabAlloc::do_alloc\<close> keeps the invariant,
  returns a non-zero ref that is a multiple of 8 and not below the baseline, and adds exactly one block to the
  blocks in use. The new block is at least as large as the request, and together with the record that follows
  it, it overlaps no block that was in use before.\<close>

theorem slab_alloc_fresh:
  assumes "slab_inv s" "slab_do_alloc fresh n s = Inr ((r, m), s')"
  shows "slab_inv s' \<and> r mod 8 = 0 \<and> r \<noteq> 0 \<and> m_baseline s' \<le> r \<and>
    (\<exists>z. int n \<le> z \<and> used s' = insert (r, z) (used s) \<and> (r, z) \<notin> used s \<and>
      (\<forall>(q, y) \<in> used s. int r + z + 8 \<le> int q \<or> int q + y + 8 \<le> int r))"
proof -
  obtain z where z: "fix_size n \<le> z" "slab_inv s'" "used s' = used s \<union> {(r, z)}" "\<forall>z. (r, z) \<notin> used s"
    using slab_do_alloc_correct [OF assms] by blast
  have "int n \<le> fix_size n" using fix_size_round [of n] by (elim exE) simp
  moreover have "int r + z + 8 \<le> int q \<or> int q + y + 8 \<le> int r" if "(q, y) \<in> used s" for q y
    using used_apart [OF z(2), of r z q y] z(3,4) that by blast
  ultimately show ?thesis
    using z slab_used_ref [OF z(2), of r z] by (intro conjI exI [of _ z]) (auto intro: order_trans)
qed

subsection \<open>Freeing succeeds\<close>

lemma capacity_bound: "get_capacity_from_header m < 2 ^ 27"
  using unat_byte_less [of "m 0"] unat_byte_less [of "m 1"] unat_byte_less [of "m 2"]
  by (simp add: get_capacity_from_header_def push_bit_eq_mult)

text \<open>C3: Freeing a slab block that is in use always succeeds while free space is being tracked: the marks the
  block carries pass every assertion, the free neighbours it is merged with are found in their free lists, and
  afterwards exactly the freed block is no longer in use and the invariant holds again, so no two neighbouring
  blocks are free and every free block is in the free list of its size.\<close>

theorem slab_free_succeeds:
  assumes "slab_inv s" "m_free_space_state s = free_space_Dirty" "m_baseline s \<le> r"
    "slab_owned s r (get_capacity_from_header m)"
  shows "\<exists>s'. slab_do_free r m s = Inr s' \<and> slab_inv s' \<and> used s' = {e \<in> used s. fst e \<noteq> r}"
proof -
  define n where "n = fix_size (get_capacity_from_header m)"
  define s2 where "s2 = s\<lparr>m_free_space_state := free_space_Dirty,
    m_commit_size := (m_commit_size s + 2 ^ 64 - get_capacity_from_header m) mod 2 ^ 64\<rparr>"
  obtain z where z: "(r, z) \<in> used s" "n \<le> z" "z \<le> n + 32" using assms(4) by (auto simp: slab_owned_def n_def)
  have s2: "slab_inv s2" "(r, z) \<in> used s2" using slab_inv_dirty [OF assms(1)] z by (simp_all add: s2_def)
  obtain s3 sl xs t ys where 3: "mark_freed r n s2 = Inr s3" "loose s3 sl xs r z t ys"
    using mark_freed_loose [OF s2 z(2,3)] by auto
  obtain s' where s': "free_block r s3 = Inr s'" using free_block_correct [OF 3(2)] by auto
  have "n < 2147483648"
    using fix_size_round [of "get_capacity_from_header m"] capacity_bound [of m] by (elim exE) (simp add: n_def)
  then have ok: "slab_do_free r m s = Inr s'"
    using slab_do_free_slab [of r s m] assms(2,3) 3(1) s' by (simp add: Let_def n_def s2_def)
  show ?thesis using slab_do_free_correct [OF assms(1) ok] assms(3,4) ok by auto
qed

subsection \<open>Allocation succeeds\<close>

lemma fl_find_found:
  assumes "fl_ok (m_block_map s)" "snd (fl_find s n) = (k, l) # rest"
  shows "fst (fl_find s n) = k" "l \<noteq> []" "n \<le> k"
proof -
  show "fst (fl_find s n) = k" using assms by (simp add: fl_find_def Let_def split: list.splits)
  have "(k, l) \<in> set (m_block_map s)" using fl_find_sub [of s n] assms(2) by auto
  then show "l \<noteq> []" using assms(1) by (auto simp: fl_ok_def)
  show "n \<le> k" using assms(2) hd_dropWhile [of "\<lambda>e. fst e < n" "m_block_map s"]
    by (auto simp: fl_find_def Let_def not_less)
qed

lemma pop_succeeds:
  assumes "fl_ok (m_block_map s)" "set (snd l) \<subseteq> set (m_block_map s)" "snd l \<noteq> []"
  shows "\<exists>r s'. pop_freelist_entry l s = Inr (r, s')"
proof -
  obtain k x rest where l: "snd l = (k, x) # rest" using assms(3) by (cases "snd l") auto
  then have "x \<noteq> []" using assms(1,2) by (auto simp: fl_ok_def)
  then show ?thesis by (cases x) (simp_all add: pop_freelist_entry_def l)
qed

lemma fix_size_multiple:
  assumes "n mod 8 = 0"
  shows "fix_size n = int (max 24 n)"
  using assms take_bit_eq_mask [of 3 n]
  by (simp add: fix_size_def slab_consts Let_def take_bit_eq_mod mask_eq_exp_minus_1 max_def)

text \<open>The end of the ref space as the next slab finds it.\<close>

definition next_slab_ref :: "slab_alloc \<Rightarrow> nat" where
  "next_slab_ref s = align_size_to_section_boundary
     (if m_slabs s = [] then m_baseline s else fst (last (m_slabs s)))"

lemma align_section_matches: "matches_section_boundary (align_size_to_section_boundary n)"
  by (auto simp: align_section matches_section_boundary_def get_lower_section_boundary_def get_section_base_def
      get_section_index_def section_shift_def push_bit_eq_mult drop_bit_eq_div)

definition grow_size :: "int \<Rightarrow> slab_alloc \<Rightarrow> nat" where
  "grow_size sz s = min maximal_alloc (max (slab_size_loop minimal_alloc (sz + 16)) (get_allocated_size s))"

lemma grow_slab_eq:
  "grow_slab sz s = (if 2 ^ 64 \<le> next_slab_ref s + grow_size sz s then Inl MaximumFileSizeExceeded
     else Inr (slab_to_entry (next_slab_ref s + grow_size sz s, grow_size sz s) (next_slab_ref s)
       (s\<lparr>m_slabs := m_slabs s @ [(next_slab_ref s + grow_size sz s, grow_size sz s)]\<rparr>)))"
proof -
  have n: "(let n0 = slab_size_loop minimal_alloc (sz + 2 * sizeof_BetweenBlocks); a = get_allocated_size s;
      n1 = (if n0 < a then a else n0) in if maximal_alloc < n1 then maximal_alloc else n1) = grow_size sz s"
    by (simp add: grow_size_def slab_consts(2) Let_def min_def max_def)
  have "matches_section_boundary (next_slab_ref s)" by (simp add: next_slab_ref_def align_section_matches)
  then show ?thesis
    unfolding grow_slab_def n [symmetric] Let_def next_slab_ref_def by simp
qed

lemma grow_size_bounds:
  assumes "slab_inv s" "sz + 16 \<le> 2 ^ 26"
  shows "40 \<le> grow_size sz s" "8 dvd grow_size sz s" "sz + 16 \<le> int (grow_size sz s)" "grow_size sz s \<le> 2 ^ 26"
proof -
  define n0 where "n0 = slab_size_loop minimal_alloc (sz + 16)"
  have n0: "sz + 16 \<le> int n0" "40 \<le> n0" "8 dvd n0"
    using slab_size_loop_ge(1) slab_size_loop_ge(2) [of minimal_alloc "sz + 16"]
      slab_size_loop_ge(3) [of minimal_alloc] by (simp_all add: n0_def minimal_alloc_def)
  have "\<forall>sl \<in> set (m_slabs s). 8 dvd snd sl" using assms(1) by (auto simp: slab_inv_def tiled_def)
  then have "8 dvd get_allocated_size s" unfolding get_allocated_size_def by (rule dvd_sum_map)
  then show "40 \<le> grow_size sz s" "8 dvd grow_size sz s" "sz + 16 \<le> int (grow_size sz s)" "grow_size sz s \<le> 2 ^ 26"
    using n0 assms(2) unfolding grow_size_def n0_def [symmetric]
    by (auto simp: min_def max_def maximal_alloc_def section_shift_def)
qed

lemma grow_slab_succeeds:
  assumes inv: "slab_inv s" and n: "n \<le> 2 ^ 26 - 16" and room: "next_slab_ref s + 2 ^ 26 < 2 ^ 64"
  shows "\<exists>r s' k. grow_slab (int n) s = Inr (r, s') \<and> taken s' r (int k) \<and> n \<le> k"
proof -
  define m where "m = grow_size (int n) s"
  define ref where "ref = next_slab_ref s"
  have m: "40 \<le> m" "8 dvd m" "int n + 16 \<le> int m" "m \<le> 2 ^ 26"
    using grow_size_bounds [OF inv, of "int n"] n by (simp_all add: m_def)
  obtain r s' where st: "(r, s') = slab_to_entry (ref + m, m) ref (s\<lparr>m_slabs := m_slabs s @ [(ref + m, m)]\<rparr>)"
    by (cases "slab_to_entry (ref + m, m) ref (s\<lparr>m_slabs := m_slabs s @ [(ref + m, m)]\<rparr>)") auto
  have "\<not> 2 ^ 64 \<le> ref + m" using room m(4) by (simp add: ref_def)
  then have "grow_slab (int n) s = Inr (r, s')"
    unfolding grow_slab_eq st m_def [symmetric] ref_def [symmetric] by (rule if_not_P)
  moreover have "taken s' r (int (m - 16))"
    using add_slab(1) [OF inv refl m(1,2) align_section_dvd _ st [unfolded ref_def next_slab_ref_def]] align_section_ge
    by blast
  ultimately show ?thesis using m(3) by (intro exI [of _ r] exI [of _ s'] exI [of _ "m - 16"]) simp
qed

lemma use_taken_succeeds:
  assumes T: "taken s1 r (int k)" and n: "block_ok (int n)" "n \<le> k"
    and b: "break_block r (int n) s1 = (remaining, s2)"
    and s3: "s3 = (case remaining of None \<Rightarrow> s2 | Some q \<Rightarrow> push_freelist_entry q s2)"
  shows "int n \<le> size_from_block s3 r \<and> (\<exists>s'. mark_allocated r s3 = Inr s')"
proof (cases "k < n + 32")
  case True
  then have "break_block r (int n) s1 = (None, s1)" using taken_size [OF T] by (intro break_small) simp
  then have "s3 = s1" using b s3 by simp
  then show ?thesis using taken_size [OF T] n(2) mark_taken [OF T] by auto
next
  case False
  define d where "d = k - n - 8"
  have k: "k = n + 8 + d" "24 \<le> d" using False by (simp_all add: d_def)
  obtain s1' s'' where *: "break_block r (int n) s1 = (Some (r + n + 8), s1')"
    "size_from_block (push_freelist_entry (r + n + 8) s1') r = int n"
    "mark_allocated r (push_freelist_entry (r + n + 8) s1') = Inr s''"
    using break_taken [OF T k(1) n(1) k(2)] by blast
  then have "s3 = push_freelist_entry (r + n + 8) s1'" using b s3 by simp
  then show ?thesis using * by simp
qed

lemma allocate_block_succeeds:
  assumes inv: "slab_inv s" and n: "block_ok (int n)" "0 < n" "n \<le> 2 ^ 26 - 16"
    and room: "next_slab_ref s + 2 ^ 26 < 2 ^ 64"
  shows "\<exists>r s2 s'. allocate_block (int n) s = Inr (r, s2) \<and> mark_allocated r s2 = Inr s'"
proof -
  have ok: "fl_ok (m_block_map s)" using inv by (simp add: slab_inv_def)
  show ?thesis
  proof (cases "found_exact (fl_find s (int n)) (int n)")
    case True
    have ne: "snd (fl_find s (int n)) \<noteq> []"
    proof
      assume "snd (fl_find s (int n)) = []"
      then show False using True n(2) by (simp add: found_exact_def fl_find_def Let_def del: dropWhile_eq_Nil_conv)
    qed
    obtain r s2 where p: "pop_freelist_entry (fl_find s (int n)) s = Inr (r, s2)"
      using pop_succeeds [OF ok fl_find_sub ne] by blast
    obtain k where "taken s2 r k" using pop_freelist_entry_correct [OF inv fl_find_sub p] by blast
    then obtain s' where "mark_allocated r s2 = Inr s'" using mark_taken by blast
    then show ?thesis using p True by (auto simp: allocate_block_def)
  next
    case False
    define lst where "lst = find_larger (fl_find s (int n)) (int n)"
    have sub: "set (snd lst) \<subseteq> set (m_block_map s)"
      using find_larger_sub fl_find_sub unfolding lst_def by blast
    obtain block s1 k where f: "(if found_something lst then pop_freelist_entry lst s else grow_slab (int n) s)
        = Inr (block, s1)" and T: "taken s1 block (int k)" "n \<le> k"
    proof (cases "found_something lst")
      case True
      then have ne: "snd lst \<noteq> []" by (auto simp: found_something_def lst_def find_larger_def Let_def split: if_splits)
      obtain r s1 where p: "pop_freelist_entry lst s = Inr (r, s1)" using pop_succeeds [OF ok sub ne] by blast
      obtain k l rest where k: "taken s1 r k" "snd lst = (k, l) # rest"
        using pop_freelist_entry_correct [OF inv sub p] by blast
      have "int n + 32 \<le> k" using find_larger_size k(2) unfolding lst_def by blast
      moreover obtain k' where "k = int k'" using taken_nat [OF k(1)] by blast
      ultimately show thesis using that [of r s1 k'] p k(1) True by simp
    qed (use grow_slab_succeeds [OF inv n(3) room] that in auto)
    obtain remaining s2 where b: "break_block block (int n) s1 = (remaining, s2)"
      by (cases "break_block block (int n) s1")
    define s3 where "s3 = (case remaining of None \<Rightarrow> s2 | Some q \<Rightarrow> push_freelist_entry q s2)"
    have "allocate_block (int n) s = Inr (block, s3)"
      using use_taken_succeeds [OF T(1) n(1) T(2) b s3_def] False f b
      by (simp add: allocate_block_def lst_def [symmetric] Let_def s3_def [symmetric])
    then show ?thesis using use_taken_succeeds [OF T(1) n(1) T(2) b s3_def] by blast
  qed
qed

lemma slab_do_alloc_succeeds:
  assumes "slab_inv s" "m_slab_attached s" "0 < n" "n mod 8 = 0" "n \<le> 2 ^ 26 - 16"
    "next_slab_ref s + 2 ^ 26 < 2 ^ 64"
  shows "\<exists>r s'. slab_do_alloc fresh n s = Inr ((r, fresh r), s') \<and> slab_inv s'"
proof -
  define s1 where "s1 = s\<lparr>m_free_space_state := free_space_Dirty, m_commit_size := (m_commit_size s + n) mod 2 ^ 64\<rparr>"
  obtain k where k: "fix_size n = int k" "24 \<le> k" "k mod 8 = 0" "k \<le> 2 ^ 26 - 16"
    using fix_size_multiple [of n] assms(4,5) by (auto simp: max_def)
  have "next_slab_ref s1 = next_slab_ref s" by (simp add: s1_def next_slab_ref_def)
  then have inv: "slab_inv s1" "next_slab_ref s1 + 2 ^ 26 < 2 ^ 64" "m_free_space_state s \<noteq> free_space_Invalid"
    using slab_inv_dirty [OF assms(1)] assms(1,6) by (simp_all add: s1_def slab_inv_def)
  have b: "block_ok (int k)" "0 < k"
    using k by (simp_all add: block_ok_dvd mod_eq_0_iff_dvd int_dvd_int_iff [of 8 k, simplified])
  obtain r s2 s3 where al: "allocate_block (int k) s1 = Inr (r, s2)" "mark_allocated r s2 = Inr s3"
    using allocate_block_succeeds [OF inv(1) b k(4) inv(2)] by blast
  have s3: "slab_inv s3" "m_baseline s3 \<le> r"
    using allocate_block_correct [OF inv(1) b al] slab_used_ref [of s3 r] by blast+
  have "n AND 7 = 0" using take_bit_eq_mask [of 3 n] assms(4) by (simp add: take_bit_eq_mod mask_eq_exp_minus_1)
  moreover have "n < 2 ^ 26" using assms(5) by simp
  ultimately have "slab_do_alloc fresh n s = Inr ((r, fresh r), s3)"
    unfolding slab_do_alloc_def Let_def s1_def [symmetric] k(1) section_shift_def
    using assms(2,3) inv(3) al s3(2) by simp
  then show ?thesis using s3(1) by blast
qed

text \<open>C4: In a state satisfying the allocator invariant with attached slabs, \<open>SlabAlloc::do_alloc\<close> serves every
  request for a positive multiple of 8 bytes up to 2^26 - 16, as long as another full section still fits below
  the end of the 64-bit ref space: it returns a block and the resulting state satisfies the invariant.\<close>

theorem slab_alloc_succeeds:
  assumes "slab_inv s" "m_slab_attached s" "0 < n" "n mod 8 = 0" "n \<le> 2 ^ 26 - 16"
    "next_slab_ref s + 2 ^ 26 < 2 ^ 64"
  shows "\<exists>r s'. slab_do_alloc fresh n s = Inr ((r, fresh r), s') \<and> slab_inv s'"
  by (rule slab_do_alloc_succeeds [OF assms])

subsection \<open>Requests that no slab can hold\<close>

lemma marked_slabs:
  "mark_allocated r s = Inr s' \<Longrightarrow> m_slabs s' = m_slabs s"
  "break_block r n s = (q, s'') \<Longrightarrow> m_slabs s'' = m_slabs s"
  "pop_freelist_entry l s = Inr (r, s') \<Longrightarrow> m_slabs s' = m_slabs s"
    apply (auto simp: mark_allocated_def Let_def rbind_eq_Inr set_before_def set_after_def) [1]
   apply (auto simp: break_block_def Let_def set_before_def set_after_def split: if_splits) [1]
  apply (auto simp: pop_freelist_entry_def split: list.splits) [1]
  done

lemma allocate_block_slabs:
  assumes "allocate_block n s = Inr (r, s')" "sl \<in> set (m_slabs s')"
  shows "sl \<in> set (m_slabs s) \<or> snd sl \<le> 2 ^ 26"
proof (cases "found_exact (fl_find s n) n")
  case True
  then show ?thesis using assms marked_slabs(3) by (auto simp: allocate_block_def)
next
  case False
  define lst where "lst = find_larger (fl_find s n) n"
  obtain block s1 where
    f: "(if found_something lst then pop_freelist_entry lst s else grow_slab n s) = Inr (block, s1)"
    using assms(1) False by (auto simp: allocate_block_def lst_def [symmetric] Let_def rbind_eq_Inr)
  obtain remaining s2 where b: "break_block block n s1 = (remaining, s2)" by (cases "break_block block n s1")
  have "s' = (case remaining of None \<Rightarrow> s2 | Some q \<Rightarrow> push_freelist_entry q s2)"
    using assms(1) False by (auto simp: allocate_block_def lst_def [symmetric] Let_def rbind_eq_Inr f b)
  then have s': "m_slabs s' = m_slabs s1"
    using marked_slabs(2) [OF b] by (auto simp: push_freelist_entry_simps split: option.splits)
  show ?thesis
  proof (cases "found_something lst")
    case True
    then show ?thesis using f marked_slabs(3) [of lst s] assms(2) s' by auto
  next
    case False
    then have "grow_slab n s = Inr (block, s1)" using f by simp
    then have "m_slabs s1 = m_slabs s @ [(next_slab_ref s + grow_size n s, grow_size n s)]"
      by (auto simp: grow_slab_eq slab_to_entry_def Let_def split: if_splits)
    moreover have "grow_size n s \<le> 2 ^ 26" by (simp add: grow_size_def maximal_alloc_def section_shift_def)
    ultimately show ?thesis using assms(2) s' by auto
  qed
qed

lemma used_within:
  assumes "slab_inv s" "(r, z) \<in> used s"
  shows "\<exists>sl \<in> set (m_slabs s). z + 16 \<le> int (snd sl)"
proof -
  have t: "tiled s" "(r, - z) \<in> tiles s" "0 < z" using assms by (auto simp: slab_inv_def used_def)
  obtain sl where sl: "sl \<in> set (m_slabs s)" "(r, - z) \<in> set (slab_tiles s sl)" using t(2) by (auto simp: tiles_def)
  have "r + nat \<bar>- z\<bar> + 8 \<le> fst sl" "slab_start sl + 8 \<le> r"
    using tiling_within [OF tiled_tiling [OF t(1) sl(1)] sl(2)] tiling_refs [OF tiled_tiling [OF t(1) sl(1)] sl(2)] t(3)
    by simp_all
  then show ?thesis using t(3) by (intro bexI [OF _ sl(1)]) linarith
qed

text \<open>C5: \<open>SlabAlloc::do_alloc\<close> accepts every request below the section size 2^26, but a slab is never larger than
  a section and its two boundary records take 16 bytes. The one aligned request between, 2^26 - 8 bytes, passes
  the size check and is then never served, whatever the state: the call ends in an error (the assertion
  on the size of the block in \<open>allocate_block\<close>, or an earlier one).\<close>

theorem slab_alloc_largest_fails:
  assumes "slab_inv s" "\<forall>sl \<in> set (m_slabs s). snd sl \<le> maximal_alloc"
  shows "2 ^ 26 - 8 < maximal_alloc \<and> (\<exists>e. slab_do_alloc fresh (2 ^ 26 - 8) s = Inl e)"
proof (cases "slab_do_alloc fresh (2 ^ 26 - 8) s")
  case (Inr x)
  obtain r m s' where x: "x = ((r, m), s')" by (metis prod.exhaust)
  note ok = Inr [unfolded x]
  define s1 where "s1 = s\<lparr>m_free_space_state := free_space_Dirty, m_commit_size := (m_commit_size s + (2 ^ 26 - 8)) mod 2 ^ 64\<rparr>"
  obtain z where z: "fix_size (2 ^ 26 - 8) \<le> z" "slab_inv s'" "(r, z) \<in> used s'"
    using slab_do_alloc_correct [OF assms(1) ok] by blast
  obtain s2 where "allocate_block (fix_size (2 ^ 26 - 8)) s1 = Inr (r, s2)" "mark_allocated r s2 = Inr s'"
    using slab_do_alloc_steps [OF assms(1) ok] unfolding s1_def by blast
  then have "snd sl \<le> 2 ^ 26" if "sl \<in> set (m_slabs s')" for sl
    using allocate_block_slabs [of _ s1 r s2 sl] marked_slabs(1) [of r s2 s'] that assms(2)
    by (auto simp: s1_def maximal_alloc_def section_shift_def)
  then show ?thesis
    using used_within [OF z(2,3)] z(1) fix_size_multiple [of "2 ^ 26 - 8"] by fastforce
qed (simp add: maximal_alloc_def section_shift_def)

subsection \<open>The freed ranges of the file\<close>

definition ro_ok :: "(nat \<times> nat) list \<Rightarrow> bool" where
  "ro_ok m \<longleftrightarrow> (\<forall>e \<in> set m. 0 < snd e) \<and> sorted_wrt (\<lambda>e f. fst e + snd e < fst f) m"

definition covered :: "(nat \<times> nat) list \<Rightarrow> nat set" where
  "covered m = (\<Union>e \<in> set m. {fst e..<fst e + snd e})"

lemma covered_simps [simp]:
  "covered [] = {}" "covered (e # m) = {fst e..<fst e + snd e} \<union> covered m"
  "covered (m @ m') = covered m \<union> covered m'"
  by (auto simp: covered_def)

lemma ro_ok_append:
  "ro_ok (m @ m') \<longleftrightarrow> ro_ok m \<and> ro_ok m' \<and> (\<forall>e \<in> set m. \<forall>f \<in> set m'. fst e + snd e < fst f)"
  by (auto simp: ro_ok_def sorted_wrt_append)

lemma ro_ok_Cons:
  "ro_ok (e # m) \<longleftrightarrow> 0 < snd e \<and> ro_ok m \<and> (\<forall>f \<in> set m. fst e + snd e < fst f)"
  by (auto simp: ro_ok_def)

lemma ro_ok_last:
  assumes "ro_ok (m @ [e])" "f \<in> set m"
  shows "fst f + snd f < fst e"
  using assms by (simp add: ro_ok_append)

text \<open>The ranges from the freed one on: merged with the next range when it is adjacent.\<close>

lemma free_read_only_after:
  assumes ok: "ro_ok after" and ge: "after \<noteq> [] \<longrightarrow> r \<le> fst (hd after)" and dis: "covered after \<inter> {r..<r + n} = {}"
    and n: "0 < n"
  shows "\<exists>n' after'. (case after of [] \<Rightarrow> Inr (n, [])
      | (nr, ns) # as \<Rightarrow> rbind (rassert (r + n \<le> nr)) (\<lambda>_. if r + n = nr then Inr (n + ns, as) else Inr (n, after)))
        = Inr (n', after') \<and>
    ro_ok ((r, n') # after') \<and> covered ((r, n') # after') = covered after \<union> {r..<r + n}"
proof (cases after)
  case Nil
  then show ?thesis using n by (simp add: ro_ok_def)
next
  case (Cons e as)
  obtain nr ns where e: "e = (nr, ns)" by (cases e)
  have ns: "0 < ns" "r \<le> nr" using ok ge by (simp_all add: Cons e ro_ok_Cons)
  have "nr \<in> covered after" using ns by (simp add: Cons e)
  then have le: "r + n \<le> nr" using dis ns(2) by (metis IntI atLeastLessThan_iff empty_iff not_less)
  show ?thesis
  proof (cases "r + n = nr")
    case True
    then show ?thesis using ok n by (auto simp: Cons e ro_ok_Cons)
  next
    case False
    then have "r + n < nr" using le by simp
    moreover have "\<forall>f \<in> set as. nr < fst f" using ok by (auto simp: Cons e ro_ok_Cons)
    ultimately show ?thesis using ok n by (fastforce simp: Cons e ro_ok_Cons)
  qed
qed

text \<open>C6: Freeing a non-empty aligned range of the read-only file that overlaps no range recorded before always
  succeeds. The recorded ranges stay sorted, non-empty, disjoint and non-adjacent, because the new range is
  merged with both neighbours where they touch it, and together they cover exactly the bytes they covered
  before and the freed ones.\<close>

theorem free_read_only_correct:
  assumes ok: "ro_ok m" and n: "0 < n" and r: "0 < r" "r mod 8 = 0" and dis: "covered m \<inter> {r..<r + n} = {}"
  shows "\<exists>m'. free_read_only r n m = Inr m' \<and> ro_ok m' \<and> covered m' = covered m \<union> {r..<r + n}"
proof -
  define before where "before = takeWhile (\<lambda>e. fst e < r) m"
  define after where "after = dropWhile (\<lambda>e. fst e < r) m"
  have m: "m = before @ after" by (simp add: before_def after_def)
  have lt: "\<forall>e \<in> set before. fst e < r" by (auto simp: before_def dest: set_takeWhileD)
  have ge: "after \<noteq> [] \<longrightarrow> r \<le> fst (hd after)" using hd_dropWhile [of "\<lambda>e. fst e < r" m] unfolding after_def not_less by blast
  obtain n' after' where A: "(case after of [] \<Rightarrow> Inr (n, [])
      | (nr, ns) # as \<Rightarrow> rbind (rassert (r + n \<le> nr)) (\<lambda>_. if r + n = nr then Inr (n + ns, as) else Inr (n, after)))
        = Inr (n', after')"
    "ro_ok ((r, n') # after')" "covered ((r, n') # after') = covered after \<union> {r..<r + n}"
    using free_read_only_after [of after r n] ok ge dis n by (auto simp: m ro_ok_append)
  have r7: "r AND 7 = 0" using take_bit_eq_mask [of 3 r] r(2) by (simp add: take_bit_eq_mod mask_eq_exp_minus_1)
  have R: "free_read_only r n m = (if before \<noteq> [] then let (pr, ps) = last before
      in rbind (rassert (pr + ps \<le> r)) (\<lambda>_. if pr + ps = r then Inr (butlast before @ (pr, ps + n') # after')
        else Inr (before @ (r, n') # after')) else Inr ((r, n') # after'))"
    unfolding free_read_only_def Let_def before_def [symmetric] after_def [symmetric] A(1)
    using r(1) r7 by (simp add: Let_def)
  show ?thesis
  proof (cases before rule: rev_cases)
    case Nil
    then show ?thesis using R A(2,3) by (simp add: m)
  next
    case (snoc b p)
    obtain pr ps where p: "p = (pr, ps)" by (cases p)
    have pr: "pr < r" "0 < ps" "ro_ok (b @ [p])" using lt ok by (auto simp: snoc p m ro_ok_def sorted_wrt_append)
    have "r \<notin> covered m" using dis n by force
    then have le: "pr + ps \<le> r" using pr(1) by (simp add: m snoc p)
    have b: "fst f + snd f < pr" if "f \<in> set b" for f using ro_ok_last [OF pr(3) that] by (simp add: p)
    show ?thesis
    proof (cases "pr + ps = r")
      case True
      have "ro_ok (b @ (pr, ps + n') # after')"
        using pr(2,3) A(2) b True by (fastforce simp: ro_ok_append ro_ok_Cons)
      moreover have "covered (b @ (pr, ps + n') # after') = covered (b @ [p]) \<union> covered ((r, n') # after')"
        using True by (auto simp: p)
      ultimately show ?thesis using R A(3) True by (simp add: snoc p m Un_assoc)
    next
      case False
      have "ro_ok (before @ (r, n') # after')"
        using pr b A(2) False le by (fastforce simp: ro_ok_append ro_ok_Cons snoc p)
      then show ?thesis using R A(3) False le by (auto simp: snoc p m)
    qed
  qed
qed

subsection \<open>Reset\<close>

text \<open>Slabs are placed at section boundaries, each in the first section after the one before.\<close>

fun slabs_packed :: "nat \<Rightarrow> (nat \<times> nat) list \<Rightarrow> bool" where
  "slabs_packed b [] \<longleftrightarrow> True"
| "slabs_packed b ((e, n) # ss) \<longleftrightarrow> e = align_size_to_section_boundary b + n \<and> 40 \<le> n \<and> 8 dvd n \<and> slabs_packed e ss"

lemma taken_push: "taken s r k \<Longrightarrow> slab_inv (push_freelist_entry r s)"
proof -
  assume T: "taken s r k"
  have "\<exists>m. push_freelist_entry r s = s\<lparr>m_block_map := m\<rparr>"
    unfolding push_freelist_entry_def Let_def by (cases "map_of (m_block_map s) (size_from_block s r)") auto
  then obtain m where m: "push_freelist_entry r s = s\<lparr>m_block_map := m\<rparr>" by blast
  have "free_exact (fl_of (m_block_map (push_freelist_entry r s))) (tiles s)"
    using T taken_size [OF T] free_exact_push by (simp add: push_freelist_entry_simps Let_def taken_def)
  then show ?thesis
    using T push_freelist_entry_ok [of s r] unfolding m slab_inv_def taken_def by simp
qed

lemma push_freelist_used: "used (push_freelist_entry r s) = used s"
  by (simp add: used_def tiles_def slab_tiles_def push_freelist_entry_simps)

lemma slab_to_entry_slabs: "snd (slab_to_entry sl r (s\<lparr>m_slabs := ss\<rparr>)) = (snd (slab_to_entry sl r s))\<lparr>m_slabs := ss\<rparr>"
  "fst (slab_to_entry sl r (s\<lparr>m_slabs := ss\<rparr>)) = fst (slab_to_entry sl r s)"
  by (simp_all add: slab_to_entry_def Let_def bb_after_def size_from_block_def)

lemma push_slabs: "push_freelist_entry r (s\<lparr>m_slabs := ss\<rparr>) = (push_freelist_entry r s)\<lparr>m_slabs := ss\<rparr>"
  by (simp add: push_freelist_entry_def Let_def size_from_block_def split: option.splits)

lemma rebuild_slabs_config:
  "m_slabs (rebuild_slabs es ref s) = m_slabs s" "m_baseline (rebuild_slabs es ref s) = m_baseline s"
  "m_free_space_state (rebuild_slabs es ref s) = m_free_space_state s"
  "m_free_read_only (rebuild_slabs es ref s) = m_free_read_only s"
  by (induction es ref s rule: rebuild_slabs.induct)
    (auto simp: slab_to_entry_def Let_def push_freelist_entry_def split: option.splits)

lemma slab_to_entry_state: "slab_to_entry sl r (s\<lparr>m_free_space_state := f\<rparr>) =
    map_prod id (m_free_space_state_update (\<lambda>_. f)) (slab_to_entry sl r s)"
  by (simp add: slab_to_entry_def Let_def bb_after_def size_from_block_def)

lemma push_state: "push_freelist_entry r (s\<lparr>m_free_space_state := f\<rparr>) = (push_freelist_entry r s)\<lparr>m_free_space_state := f\<rparr>"
  by (simp add: push_freelist_entry_def Let_def size_from_block_def split: option.splits)

lemma rebuild_slabs_state:
  "rebuild_slabs es ref (s\<lparr>m_free_space_state := f\<rparr>) = (rebuild_slabs es ref s)\<lparr>m_free_space_state := f\<rparr>"
  by (induction es ref s rule: rebuild_slabs.induct) (simp_all add: slab_to_entry_state push_state split: prod.split)

lemma slab_alloc_slabs_id: "m_slabs s = ss \<Longrightarrow> s\<lparr>m_slabs := ss\<rparr> = s"
  by (cases s) simp

lemma slab_inv_commit_size: "slab_inv (s\<lparr>m_commit_size := c\<rparr>) = slab_inv s"
  by (simp add: slab_inv_def)

lemma rebuild_slabs_inv:
  assumes "slab_inv (s\<lparr>m_slabs := pre\<rparr>)" "used (s\<lparr>m_slabs := pre\<rparr>) = {}"
    "b = (if pre = [] then m_baseline s else fst (last pre))" "slabs_packed b es"
  shows "slab_inv ((rebuild_slabs es (align_size_to_section_boundary b) s)\<lparr>m_slabs := pre @ es\<rparr>) \<and>
    used ((rebuild_slabs es (align_size_to_section_boundary b) s)\<lparr>m_slabs := pre @ es\<rparr>) = {}"
  using assms
proof (induction es arbitrary: pre b s)
  case (Cons sl es)
  obtain e n where sl: "sl = (e, n)" by (cases sl)
  define ref where "ref = align_size_to_section_boundary b"
  have en: "e = ref + n" "40 \<le> n" "8 dvd n" "slabs_packed e es" using Cons.prems(4) by (auto simp: sl ref_def)
  obtain r s1 where st: "slab_to_entry sl ref s = (r, s1)" by (cases "slab_to_entry sl ref s")
  have "(r, s1\<lparr>m_slabs := pre @ [(e, n)]\<rparr>) = slab_to_entry (e, n) ref ((s\<lparr>m_slabs := pre\<rparr>)\<lparr>m_slabs := m_slabs (s\<lparr>m_slabs := pre\<rparr>) @ [(e, n)]\<rparr>)"
    using slab_to_entry_slabs [of sl ref "pre @ [(e, n)]" s] st by (simp add: sl prod_eq_iff)
  note A = add_slab [OF Cons.prems(1) en(1-3) _ _ this]
  have b: "8 dvd ref" "(if m_slabs (s\<lparr>m_slabs := pre\<rparr>) = [] then m_baseline (s\<lparr>m_slabs := pre\<rparr>)
      else fst (last (m_slabs (s\<lparr>m_slabs := pre\<rparr>)))) \<le> ref"
    using align_section_dvd align_section_ge Cons.prems(3) by (simp_all add: ref_def)
  have 1: "slab_inv ((push_freelist_entry r s1)\<lparr>m_slabs := pre @ [sl]\<rparr>)"
    using taken_push [OF A(1) [OF b]] by (simp add: push_slabs sl)
  have 2: "used ((push_freelist_entry r s1)\<lparr>m_slabs := pre @ [sl]\<rparr>) = {}"
    using A(3) [OF b] Cons.prems(2) push_freelist_used [of r "s1\<lparr>m_slabs := pre @ [sl]\<rparr>"] by (simp add: push_slabs sl)
  show ?case
    using Cons.IH [OF 1 2 _ en(4)] by (simp add: st [unfolded sl] ref_def [symmetric] sl)
qed simp

text \<open>C7: After a commit, \<open>SlabAlloc::reset_free_space_tracking\<close> returns the allocator to a clean state that
  satisfies the invariant again: the slabs it keeps are one free block each, no block is in use, and the record
  of freed file ranges is empty.\<close>

theorem reset_free_space_tracking_clean:
  assumes "slabs_packed (m_baseline s) (m_slabs s)" "m_free_space_state s \<noteq> free_space_Clean"
  defines "s' \<equiv> reset_free_space_tracking s"
  shows "slab_inv s' \<and> used s' = {} \<and> m_free_space_state s' = free_space_Clean \<and> m_free_read_only s' = [] \<and>
    m_commit_size s' = 0 \<and> get_allocated_size s' \<le> minimal_alloc"
proof -
  define ss where "ss = release_slabs (m_slabs s)"
  define s0 where "s0 = s\<lparr>m_free_read_only := [], m_slabs := ss, m_block_map := [], m_free_space_state := free_space_Clean\<rparr>"
  have pk: "slabs_packed (m_baseline s) ss"
    using assms(1) by (cases "m_slabs s") (auto simp: ss_def release_slabs_def)
  have "slab_inv (s0\<lparr>m_slabs := []\<rparr>)" "used (s0\<lparr>m_slabs := []\<rparr>) = {}"
    by (simp_all add: slab_inv_def s0_def tiled_def tiles_def fl_ok_def fl_of_def free_exact_def used_def)
  note R' = rebuild_slabs_inv [OF this, of "m_baseline s" ss]
  have "m_slabs (rebuild_slabs ss (align_size_to_section_boundary (m_baseline s)) s0) = ss" "m_baseline s0 = m_baseline s"
    unfolding rebuild_slabs_config by (simp_all add: s0_def)
  then have R: "slab_inv (rebuild_slabs ss (align_size_to_section_boundary (m_baseline s)) s0)"
    "used (rebuild_slabs ss (align_size_to_section_boundary (m_baseline s)) s0) = {}"
    using R' pk by (simp_all add: slab_alloc_slabs_id)
  have s': "s' = (rebuild_slabs ss (align_size_to_section_boundary (m_baseline s)) s0)\<lparr>m_commit_size := 0\<rparr>"
    using assms(2) by (simp add: s'_def reset_free_space_tracking_def rebuild_freelists_from_slab_def clear_freelists_def
        ss_def [symmetric] s0_def rebuild_slabs_state)
  have "sum_list (map snd ss) \<le> minimal_alloc" by (auto simp: ss_def release_slabs_def split: list.splits)
  then have "get_allocated_size s' \<le> minimal_alloc"
    by (simp add: get_allocated_size_def s' rebuild_slabs_config) (simp add: s0_def)
  then show ?thesis using R by (simp add: s' slab_inv_commit_size rebuild_slabs_config) (simp add: s0_def)
qed

subsection \<open>Concrete states\<close>

definition empty_slab_alloc :: "nat \<Rightarrow> slab_alloc" where
  "empty_slab_alloc b = \<lparr>m_slabs = [], m_bb = (\<lambda>_. (0, 0)), m_block_map = [], m_free_read_only = [],
     m_free_space_state = free_space_Clean, m_commit_size = 0, m_baseline = b, m_slab_attached = True,
     m_is_read_only = False\<rparr>"

lemma empty_slab_inv: "slab_inv (empty_slab_alloc b)"
  by (simp add: empty_slab_alloc_def slab_inv_def tiled_def tiles_def fl_ok_def fl_of_def free_exact_def)

lemma slab_size_loop_small: "slab_size_loop 131072 80 = 131072"
  by (subst slab_size_loop.simps) (simp add: minimal_alloc_def)

lemma first_alloc:
  "case slab_do_alloc (\<lambda>_ _. 0) 64 (empty_slab_alloc 0) of
     Inr ((r, m), s) \<Rightarrow> r = 8 \<and> m_slabs s = [(131072, 131072)] \<and> m_block_map s = [(130984, [80])] \<and>
       m_bb s 0 = (0, - 64) \<and> m_bb s 72 = (- 64, 130984) \<and> m_bb s 131064 = (130984, 0) \<and>
       m_free_space_state s = free_space_Dirty \<and> m_baseline s = 0 \<and> m_slab_attached s
   | Inl _ \<Rightarrow> False"
  by (simp add: slab_do_alloc_def empty_slab_alloc_def Let_def fix_size_def slab_consts
      allocate_block_def found_exact_def fl_find_def found_something_def find_larger_def grow_slab_eq grow_size_def
      slab_size_loop_small next_slab_ref_def get_allocated_size_def slab_to_entry_def break_block_def
      bb_after_def bb_before_def size_from_block_def set_before_def set_after_def block_after_def
      push_freelist_entry_def mark_allocated_def align_section)

lemma first_state:
  "\<exists>s. slab_do_alloc (\<lambda>_ _. 0) 64 (empty_slab_alloc 0) = Inr ((8, \<lambda>_. 0), s) \<and> slab_inv s \<and> slab_owned s 8 64 \<and>
     used (empty_slab_alloc 0) = {} \<and> m_free_space_state s = free_space_Dirty \<and> m_baseline s = 0 \<and>
     m_slab_attached s \<and> m_slabs s = [(131072, 131072)]"
proof -
  obtain r m s where ok: "slab_do_alloc (\<lambda>_ _. 0) 64 (empty_slab_alloc 0) = Inr ((r, m), s)" "r = 8"
    "m_free_space_state s = free_space_Dirty" "m_baseline s = 0" "m_slab_attached s" "m_slabs s = [(131072, 131072)]"
    using first_alloc by (auto split: sum.splits prod.splits)
  then have "m = (\<lambda>_. 0)" using slab_do_alloc_correct [OF empty_slab_inv ok(1)] by auto
  then show ?thesis using ok slab_alloc_law [OF empty_slab_inv ok(1)]
    by (simp add: used_def tiles_def empty_slab_alloc_def)
qed

theorem slab_alloc_fresh_witness:
  "\<exists>s z. slab_do_alloc (\<lambda>_ _. 0) 64 (empty_slab_alloc 0) = Inr ((8, \<lambda>_. 0), s) \<and> slab_inv s \<and> 64 \<le> z \<and> used s = {(8, z)}"
  using first_state slab_alloc_fresh [OF empty_slab_inv] by fastforce

theorem slab_free_succeeds_witness:
  "\<exists>s s'. slab_do_alloc (\<lambda>_ _. 0) 64 (empty_slab_alloc 0) = Inr ((8, \<lambda>_. 0), s) \<and>
     slab_do_free 8 (\<lambda>i. if i = 2 then 8 else 0) s = Inr s' \<and> slab_inv s'"
proof -
  have c: "get_capacity_from_header (\<lambda>i. if i = 2 then 8 else 0) = 64"
    by (simp add: get_capacity_from_header_def push_bit_eq_mult)
  obtain s where s: "slab_do_alloc (\<lambda>_ _. 0) 64 (empty_slab_alloc 0) = Inr ((8, \<lambda>_. 0), s)" "slab_inv s"
    "slab_owned s 8 64" "m_free_space_state s = free_space_Dirty" "m_baseline s = 0"
    using first_state by blast
  then show ?thesis using slab_free_succeeds [OF s(2,4), of 8 "\<lambda>i. if i = 2 then 8 else 0"] c by auto
qed

theorem slab_alloc_succeeds_witness:
  "\<exists>r s. slab_do_alloc (\<lambda>_ _. 0) 64 (empty_slab_alloc 0) = Inr ((r, \<lambda>_. 0), s) \<and> slab_inv s"
  by (rule slab_alloc_succeeds [OF empty_slab_inv]) (simp_all add: empty_slab_alloc_def next_slab_ref_def align_section)

theorem slab_alloc_largest_fails_witness:
  "\<exists>e. slab_do_alloc (\<lambda>_ _. 0) (2 ^ 26 - 8) (empty_slab_alloc 0) = Inl e"
  using slab_alloc_largest_fails [OF empty_slab_inv [of 0], of "\<lambda>_ _. 0"] by (simp add: empty_slab_alloc_def)

theorem free_read_only_correct_witness:
  "\<exists>m. free_read_only 16 8 [(8, 8), (24, 8)] = Inr m \<and> ro_ok m \<and> covered m = {8..<32}"
proof -
  have "\<exists>m. free_read_only 16 8 [(8, 8), (24, 8)] = Inr m \<and> ro_ok m \<and>
      covered m = covered [(8, 8), (24, 8)] \<union> {16..<16 + 8}"
    by (rule free_read_only_correct) (auto simp: ro_ok_def)
  moreover have "covered [(8, 8), (24, 8)] \<union> {16..<16 + 8} = {8..<32}" by auto
  ultimately show ?thesis by simp
qed

theorem reset_free_space_tracking_clean_witness:
  "slab_inv (reset_free_space_tracking ((empty_slab_alloc 0)\<lparr>m_slabs := [(131072, 131072)],
     m_free_space_state := free_space_Dirty\<rparr>))"
  using reset_free_space_tracking_clean [of "(empty_slab_alloc 0)\<lparr>m_slabs := [(131072, 131072)],
     m_free_space_state := free_space_Dirty\<rparr>"]
  by (simp add: empty_slab_alloc_def align_section)

end
