(* ===== verification/Array_Slab.thy ===== *)
theory Array_Slab
  imports Array_Create Slab_Props
begin

text \<open>
  Integer arrays on the slab allocator. The lemmas on arrays are proved once for every allocator that keeps
  the contract; here they are used at the slab allocator. A sequence of array operations is executed on the
  accessor and refines the same sequence of list operations.
\<close>

datatype array_op =
    Set_op nat int
  | Insert_op nat int
  | Erase_op nat
  | Erase_range_op nat nat
  | Truncate_op nat

fun exec_op :: "'a alloc_class \<Rightarrow> array_op \<Rightarrow> 'a barq_array \<Rightarrow> 'a barq_array result" where
  "exec_op A (Set_op i v) a = array_set A i v a"
| "exec_op A (Insert_op i v) a = array_insert A i v a"
| "exec_op A (Erase_op i) a = array_erase A i a"
| "exec_op A (Erase_range_op i j) a = array_erase_range A i j a"
| "exec_op A (Truncate_op n) a = array_truncate A n a"

fun exec_ops :: "'a alloc_class \<Rightarrow> array_op list \<Rightarrow> 'a barq_array \<Rightarrow> 'a barq_array result" where
  "exec_ops A [] a = Inr a"
| "exec_ops A (x # xs) a = rbind (exec_op A x a) (exec_ops A xs)"

fun spec_op :: "array_op \<Rightarrow> int list \<Rightarrow> int list" where
  "spec_op (Set_op i v) xs = xs[i := v]"
| "spec_op (Insert_op i v) xs = take i xs @ v # drop i xs"
| "spec_op (Erase_op i) xs = take i xs @ drop (Suc i) xs"
| "spec_op (Erase_range_op i j) xs = take i xs @ drop j xs"
| "spec_op (Truncate_op n) xs = take n xs"

text \<open>The values fit an \<open>int64_t\<close>, and the insertion positions are in range (\<^verbatim>\<open>Array::insert\<close> does not check them).\<close>

fun op_ok :: "array_op \<Rightarrow> int list \<Rightarrow> bool" where
  "op_ok (Set_op i v) xs \<longleftrightarrow> int64_range v"
| "op_ok (Insert_op i v) xs \<longleftrightarrow> int64_range v \<and> i \<le> length xs"
| "op_ok _ xs \<longleftrightarrow> True"

fun ops_ok :: "array_op list \<Rightarrow> int list \<Rightarrow> bool" where
  "ops_ok [] xs \<longleftrightarrow> True"
| "ops_ok (x # ops) xs \<longleftrightarrow> op_ok x xs \<and> ops_ok ops (spec_op x xs)"

abbreviation slab_array :: "(nat \<Rightarrow> mem) \<Rightarrow> slab_alloc barq_array \<Rightarrow> bool" where
  "slab_array fresh a \<equiv> array_inv (slab_class fresh) slab_inv slab_owned a"

abbreviation slab_array_to :: "(nat \<Rightarrow> mem) \<Rightarrow> slab_alloc barq_array \<Rightarrow> slab_alloc barq_array \<Rightarrow> int list \<Rightarrow> bool" where
  "slab_array_to fresh a a' xs \<equiv> array_to (slab_class fresh) slab_inv slab_owned a a' xs"

lemma exec_op_to:
  assumes inv: "slab_array fresh a" and ok: "exec_op (slab_class fresh) x a = Inr a'" and x: "op_ok x (array_list a)"
  shows "slab_array_to fresh a a' (spec_op x (array_list a))"
proof (cases x)
  case (Set_op i v)
  then show ?thesis using slab.array_set_to(2) [OF inv] ok x by simp
next
  case (Insert_op i v)
  then show ?thesis using slab.array_insert_to(1) [OF inv] ok x by (simp add: list_insert_def array_list_def)
next
  case (Erase_op i)
  then show ?thesis using slab.array_erase_to(2) [OF inv] ok by (simp add: list_erase_def)
next
  case (Erase_range_op i j)
  then show ?thesis using slab.array_erase_range_to(2) [OF inv, of i j a'] ok
    by (cases "i = j") (simp_all add: list_erase_def)
next
  case (Truncate_op n)
  then show ?thesis using slab.array_truncate_to(2) [OF inv] ok by simp
qed

lemma exec_ops_to:
  assumes "slab_array fresh a" "exec_ops (slab_class fresh) ops a = Inr a'" "ops_ok ops (array_list a)"
  shows "slab_array_to fresh a a' (fold spec_op ops (array_list a))"
  using assms
proof (induction ops arbitrary: a)
  case Nil
  then show ?case by (simp add: array_to_def)
next
  case (Cons x ops)
  obtain a1 where a1: "exec_op (slab_class fresh) x a = Inr a1" "exec_ops (slab_class fresh) ops a1 = Inr a'"
    using Cons.prems(2) by (auto simp: rbind_eq_Inr)
  have 1: "slab_array_to fresh a a1 (spec_op x (array_list a))"
    using exec_op_to [OF Cons.prems(1) a1(1)] Cons.prems(3) by simp
  then have "slab_array fresh a1" "array_list a1 = spec_op x (array_list a)" by (simp_all add: array_to_def)
  then show ?case using array_to_trans [OF 1] Cons.IH [OF _ a1(2)] Cons.prems(3) by simp
qed

text \<open>C1: Integer arrays on the slab allocator refine lists. Any sequence of set, insert, erase, range erase and
  truncate operations that runs to its end on an array accessor leaves an accessor that satisfies the array
  invariant, whose elements are those the list operations compute, and no block of another owner is released or
  reused, whatever reallocation, widening or copying the operations did on the way.\<close>

theorem array_refines_list:
  assumes "slab_array fresh a" "exec_ops (slab_class fresh) ops a = Inr a'" "ops_ok ops (array_list a)"
  shows "slab_array fresh a' \<and> array_list a' = fold spec_op ops (array_list a) \<and>
    (\<forall>q k. q \<noteq> m_ref a \<longrightarrow> slab_owned (m_alloc a) q k \<longrightarrow> q \<noteq> m_ref a' \<and> slab_owned (m_alloc a') q k)"
  using exec_ops_to [OF assms] by (simp add: array_to_def others_kept_def)

lemma bounds_int64:
  assumes "valid_width w" "lbound_for_width w \<le> v" "v \<le> ubound_for_width w"
  shows "int64_range v"
  using assms by (auto simp: valid_width_def lbound_for_width_def ubound_for_width_def int64_range_def)

lemma array_set_in_place:
  assumes "slab_array fresh a" "\<not> node_is_read_only (slab_class fresh) a" "m_lbound a \<le> v" "v \<le> m_ubound a"
    and i: "i < m_size a"
  shows "\<exists>a'. array_set (slab_class fresh) i v a = Inr a' \<and> m_ref a' = m_ref a \<and>
      m_alloc a' = m_alloc a \<and> array_list a' = (array_list a)[i := v]"
proof -
  have v: "int64_range v" by (rule bounds_int64 [OF array_inv_width [OF assms(1)]]) (use assms in \<open>simp_all add: array_inv_def\<close>)
  define a' where "a' = (if array_get a i = v then a else array_setter i v a)"
  have a': "array_set (slab_class fresh) i v a = Inr a'" "m_ref a' = m_ref a" "m_alloc a' = m_alloc a"
    using i assms by (simp_all add: a'_def array_set_def copy_on_write_def ensure_minimum_width_def array_setter_def)
  then show ?thesis using slab.array_set_to(2) [OF assms(1) v a'(1)] by (auto simp: array_to_def)
qed

lemma array_alloc_in_place:
  assumes "slab_array fresh a" "\<not> node_is_read_only (slab_class fresh) a" "n \<le> max_array_size"
    "header_size + payload_bytes n (m_width a) \<le> get_capacity_from_header (m_block a)"
  shows "\<exists>a'. array_alloc (slab_class fresh) n (m_width a) a = Inr a' \<and> m_ref a' = m_ref a \<and> m_alloc a' = m_alloc a"
proof -
  have "m_width a = get_width_from_header (m_block a)" "m_size a = get_size_from_header (m_block a)"
    "m_attached a" "get_wtype_from_header (m_block a) = wtype_Bits"
    using assms(1) by (simp_all add: array_inv_def node_inv_def)
  then show ?thesis
    using assms by (auto simp: array_alloc_def node_alloc_def calc_byte_len_def grow_block_def Let_def
        payload_bytes_def set_size_in_header_def update_width_cache_from_header_def add.commute)
qed

lemma array_truncate_in_place:
  assumes "slab_array fresh a" "\<not> node_is_read_only (slab_class fresh) a" "0 < n" "n \<le> m_size a"
  shows "\<exists>a'. array_truncate (slab_class fresh) n a = Inr a'"
proof -
  have "m_attached a" "m_size a \<le> max_array_size"
    using assms(1) get_size_from_header_less [of "m_block a"] by (simp_all add: array_inv_def node_inv_def max_array_size_def)
  then show ?thesis
    using assms by (auto simp: array_truncate_def copy_on_write_def set_header_size_def set_size_in_header_def)
qed

lemma array_insert_in_place:
  assumes "slab_array fresh a" "\<not> node_is_read_only (slab_class fresh) a" "m_lbound a \<le> v" "v \<le> m_ubound a"
    and i: "i \<le> m_size a" "m_size a < max_array_size"
      "header_size + payload_bytes (Suc (m_size a)) (m_width a) \<le> get_capacity_from_header (m_block a)"
  shows "\<exists>a'. array_insert (slab_class fresh) i v a = Inr a' \<and> m_ref a' = m_ref a \<and> m_alloc a' = m_alloc a \<and>
        array_list a' = take i (array_list a) @ v # drop i (array_list a)"
proof -
  have v: "int64_range v" by (rule bounds_int64 [OF array_inv_width [OF assms(1)]]) (use assms in \<open>simp_all add: array_inv_def\<close>)
  obtain a1 where "array_alloc (slab_class fresh) (Suc (m_size a)) (m_width a) a = Inr a1" "m_ref a1 = m_ref a" "m_alloc a1 = m_alloc a"
    using array_alloc_in_place [OF assms(1,2) _ i(3)] i(2) by auto
  then obtain a' where a': "array_insert (slab_class fresh) i v a = Inr a'" "m_ref a' = m_ref a" "m_alloc a' = m_alloc a"
    using assms(3,4) by (auto simp: array_insert_def Let_def)
  then show ?thesis using slab.array_insert_to(1) [OF assms(1) v i(1) a'(1)] by (auto simp: array_to_def list_insert_def)
qed

text \<open>C8: On an array whose block is mutable, writing a value that fits the element width and inserting such a value
  while the block has room succeed without calling the allocator: the accessor stays at its ref, the allocator
  state is unchanged and the elements are those of the list operation.\<close>

theorem array_in_place:
  assumes "slab_array fresh a" "\<not> node_is_read_only (slab_class fresh) a" "m_lbound a \<le> v" "v \<le> m_ubound a"
  shows "(i < m_size a \<longrightarrow> (\<exists>a'. array_set (slab_class fresh) i v a = Inr a' \<and> m_ref a' = m_ref a \<and>
      m_alloc a' = m_alloc a \<and> array_list a' = (array_list a)[i := v])) \<and>
    (i \<le> m_size a \<longrightarrow> m_size a < max_array_size \<longrightarrow>
      header_size + payload_bytes (Suc (m_size a)) (m_width a) \<le> get_capacity_from_header (m_block a) \<longrightarrow>
      (\<exists>a'. array_insert (slab_class fresh) i v a = Inr a' \<and> m_ref a' = m_ref a \<and> m_alloc a' = m_alloc a \<and>
        array_list a' = take i (array_list a) @ v # drop i (array_list a)))"
  using array_set_in_place [OF assms] array_insert_in_place [OF assms] by blast

text \<open>C9: A new array created by \<open>Array::create\<close> on the slab allocator holds the requested number of copies of the
  given value, with the requested type and context flag; its block was not in use before, and all other blocks
  in use are kept.\<close>

theorem array_create_fresh:
  assumes "slab_inv (m_alloc a)" "int64_range v" "m_parent_ref a = None"
    "array_create (slab_class fresh) type ctx n v a = Inr a'"
  shows "slab_array fresh a' \<and> array_list a' = replicate n v \<and> m_context_flag a' = ctx \<and> get_type a' = type \<and>
    (\<forall>k. \<not> slab_owned (m_alloc a) (m_ref a') k) \<and>
    (\<forall>q k. q \<noteq> m_ref a' \<longrightarrow> slab_owned (m_alloc a') q k = slab_owned (m_alloc a) q k)"
  using slab.array_create_correct [OF assms] by blast

text \<open>C10: \<open>Array::move\<close> into another array of the same allocator, the operation that splits a full leaf, keeps the
  elements before the index in the source and appends the rest to the destination, in order, whatever the
  element widths of the two arrays are.\<close>

theorem array_move_into_splits:
  assumes "slab_array fresh a" "slab_array fresh dst" "m_alloc a = m_alloc dst" "m_ref a \<noteq> m_ref dst"
    "array_move_into (slab_class fresh) ndx a dst = Inr (a', dst')"
  shows "slab_array fresh a' \<and> slab_array fresh dst' \<and> array_list a' = take ndx (array_list a) \<and>
    array_list dst' = array_list dst @ drop ndx (array_list a)"
  using slab.array_move_into_correct [OF assms] by blast

subsection \<open>A concrete array\<close>

definition small_array :: "nat \<Rightarrow> slab_alloc \<Rightarrow> slab_alloc barq_array" where
  "small_array r s = \<lparr>m_alloc = s, m_ref = r, m_block = (\<lambda>_. 0)(2 := 8, 4 := 4, 7 := 3), m_attached = True, m_size = 3,
     m_parent_ref = None, m_missing_parent_update = False, m_width = 8, m_lbound = -128, m_ubound = 127,
     m_is_inner_bptree_node = False, m_has_refs = False, m_context_flag = False\<rparr>"

lemma small_array_inv:
  assumes "slab_inv s" "slab_owned s r 64" "m_baseline s = 0"
  shows "slab_array fresh (small_array r s)" "\<not> node_is_read_only (slab_class fresh) (small_array r s)"
    "array_list (small_array r s) = [0, 0, 0]"
proof -
  let ?h = "(\<lambda>_. 0)(2 := 8, 4 := 4, 7 := 3) :: mem"
  have h: "get_capacity_from_header ?h = 64" "get_width_from_header ?h = 8" "get_size_from_header ?h = 3"
    "header_kind ?h = (False, False, False, wtype_Bits)"
    by (simp_all add: get_capacity_from_header_def get_width_from_header_def get_size_from_header_def header_kind_def
        get_is_inner_bptree_node_from_header_def get_hasrefs_from_header_def get_context_flag_from_header_def
        get_wtype_from_header_def push_bit_eq_mult drop_bit_eq_div width_type_of_nat_def)
  then show "slab_array fresh (small_array r s)"
    using assms by (simp add: array_inv_def node_inv_def small_array_def parent_ok_def payload_bytes_def header_kind_def
        lbound_for_width_def ubound_for_width_def header_size_def)
  show "\<not> node_is_read_only (slab_class fresh) (small_array r s)"
    using assms by (simp add: node_is_read_only_def is_read_only_def slab_class_def small_array_def)
  show "array_list (small_array r s) = [0, 0, 0]"
    by (simp add: array_list_def small_array_def array_get_def node_data_def upt_rec get_universal_def get_data_from_header_def header_size_def)
qed

theorem array_refines_list_witness:
  "\<exists>s a. slab_inv s \<and> exec_ops (slab_class (\<lambda>_ _. 0)) [Insert_op 1 7] (small_array 8 s) = Inr a \<and>
     array_list a = [0, 7, 0, 0]"
proof -
  obtain s where s: "slab_inv s" "slab_owned s 8 64" "m_baseline s = 0" using first_state by blast
  note S = small_array_inv(1) [OF s, of "\<lambda>_ _. 0"] small_array_inv(2) [OF s, of "\<lambda>_ _. 0"] small_array_inv(3) [OF s]
  have "\<exists>a. array_insert (slab_class (\<lambda>_ _. 0)) 1 7 (small_array 8 s) = Inr a"
    using array_insert_in_place [OF S(1,2), of 7 1]
    by (auto simp: small_array_def max_array_size_def header_size_def payload_bytes_def get_capacity_from_header_def
        push_bit_eq_mult)
  then obtain a where a: "exec_ops (slab_class (\<lambda>_ _. 0)) [Insert_op 1 7] (small_array 8 s) = Inr a" by auto
  have "array_list a = [0, 7, 0, 0]"
    using array_refines_list [OF S(1) a] S(3) by (simp add: int64_range_def)
  then show ?thesis using s(1) a by blast
qed

theorem array_in_place_witness:
  "\<exists>s a. slab_inv s \<and> array_set (slab_class (\<lambda>_ _. 0)) 1 5 (small_array 8 s) = Inr a \<and> array_list a = [0, 5, 0]"
proof -
  obtain s where s: "slab_inv s" "slab_owned s 8 64" "m_baseline s = 0" using first_state by blast
  note S = small_array_inv(1) [OF s, of "\<lambda>_ _. 0"] small_array_inv(2) [OF s, of "\<lambda>_ _. 0"] small_array_inv(3) [OF s]
  have "m_lbound (small_array 8 s) = -128" "m_ubound (small_array 8 s) = 127" "m_size (small_array 8 s) = 3"
    by (simp_all add: small_array_def)
  then show ?thesis using array_in_place [OF S(1,2), of 5 1] S(3) s(1) by auto
qed

theorem array_create_fresh_witness:
  "\<exists>a. array_create (slab_class (\<lambda>_ _. 0)) type_Normal False 2 5 (small_array 0 (empty_slab_alloc 0)) = Inr a \<and>
     array_list a = [5, 5] \<and> slab_array (\<lambda>_ _. 0) a"
proof -
  obtain r s where al: "slab_do_alloc (\<lambda>_ _. 0) 128 (empty_slab_alloc 0) = Inr ((r, \<lambda>_. 0), s)"
    using slab_do_alloc_succeeds [OF empty_slab_inv [of 0], of 128 "\<lambda>_ _. 0"]
    by (auto simp: empty_slab_alloc_def next_slab_ref_def align_section)
  have "calc_aligned_byte_size 2 4 = Inr 16"
    by (simp add: calc_aligned_byte_size_def Let_def header_size_def)
  moreover have "bit_width 5 = 4" by (simp add: bit_width_def)
  moreover obtain h where "init_header (\<lambda>_. 0) False False False wtype_Bits 4 2 128 = Inr h"
    using init_header_ok [of 4 2 128 "\<lambda>_. 0" False False False wtype_Bits] by (auto simp: valid_width_def max_array_size_def)
  ultimately obtain a where a: "array_create (slab_class (\<lambda>_ _. 0)) type_Normal False 2 5 (small_array 0 (empty_slab_alloc 0)) = Inr a"
    using al by (auto simp: array_create_def create_array_def array_create_mem_def Let_def alloc_def slab_class_def
        initial_capacity_def small_array_def empty_slab_alloc_def)
  then show ?thesis
    using array_create_fresh [OF _ _ _ a] empty_slab_inv [of 0]
    by (simp add: small_array_def int64_range_def numeral_2_eq_2)
qed

theorem array_move_into_splits_witness:
  "\<exists>r s a dst. array_move_into (slab_class (\<lambda>_ _. 0)) 1 (small_array 8 s) (small_array r s) = Inr (a, dst) \<and>
     array_list a = [0] \<and> array_list dst = [0, 0, 0, 0, 0]"
proof -
  obtain s1 where s1: "slab_inv s1" "slab_owned s1 8 64" "m_baseline s1 = 0" "m_slab_attached s1"
      "m_slabs s1 = [(131072, 131072)]"
    using first_state by blast
  obtain r s where al: "slab_do_alloc (\<lambda>_ _. 0) 64 s1 = Inr ((r, \<lambda>_. 0), s)"
    using slab_do_alloc_succeeds [OF s1(1,4), of 64 "\<lambda>_ _. 0"] by (auto simp: next_slab_ref_def s1(5) align_section)
  note A = slab_alloc_law [OF s1(1) al]
  have "r \<noteq> 8" using A s1(2) by blast
  then have r: "slab_owned s 8 64" "slab_owned s r 64" "slab_inv s" "m_baseline s = 0" "8 \<noteq> r" using A s1 by auto
  note S = small_array_inv [OF r(3) _ r(4)]
  note W = S(2) [OF r(1), of "\<lambda>_ _. 0"] S(2) [OF r(2), of "\<lambda>_ _. 0"]
  have f: "m_size (small_array q s) = 3" "m_width (small_array q s) = 8" "m_lbound (small_array q s) = -128"
    "m_ubound (small_array q s) = 127" "m_alloc (small_array q s) = s" "(small_array q s)\<lparr>m_alloc := s\<rparr> = small_array q s"
    "get_capacity_from_header (m_block (small_array q s)) = 64" for q
    by (simp_all add: small_array_def get_capacity_from_header_def push_bit_eq_mult)
  obtain d where d: "array_alloc (slab_class (\<lambda>_ _. 0)) 5 8 (small_array r s) = Inr d" "m_alloc d = s"
    using array_alloc_in_place [OF S(1) [OF r(2)] W(2), of 5] by (auto simp: f max_array_size_def header_size_def payload_bytes_def)
  obtain a where t: "array_truncate (slab_class (\<lambda>_ _. 0)) 1 (small_array 8 s) = Inr a"
    using array_truncate_in_place [OF S(1) [OF r(1)] W(1), of 1] by (auto simp: f)
  obtain dst where m: "array_move_into (slab_class (\<lambda>_ _. 0)) 1 (small_array 8 s) (small_array r s) = Inr (a, dst)"
    unfolding array_move_into_def Let_def using W t d by (simp add: copy_on_write_def ensure_minimum_width_def f)
  then have "array_list a = [0] \<and> array_list dst = [0, 0, 0, 0, 0]"
    using array_move_into_splits [OF S(1) [OF r(1)] S(1) [OF r(2)] _ _ m] r(5) S(3) [OF r(1)] S(3) [OF r(2)]
    by (simp add: small_array_def)
  then show ?thesis using m by blast
qed

end
