(* ===== verification/Chunked_Ranges.thy ===== *)
theory Chunked_Ranges
  imports Barq_Prelude
begin

text \<open>
  \<^verbatim>\<open>ChunkedRangeVector\<close> (\<open>object-store/index_set.hpp\<close>, \<open>object-store/index_set.cpp\<close>): a sequence of index
  ranges kept in chunks of bounded size, each with the begin of its first range, the end of its last range and
  the number of indices in it. An iterator is the pair of the position of its chunk and the offset in the chunk;
  the end iterator is the position after the last chunk with offset 0. The maximal chunk size \<open>mx\<close> depends on the
  build (256 ranges, or 4 in debug builds) and is an argument.

  The relation \<open>crv_at d it as bs\<close> says that the ranges before the iterator are \<open>as\<close> and the ranges from it on are
  \<open>bs\<close>. The lemmas show that every operation on a position is the operation on these two lists. Indices are
  positions in a collection and are modelled by \<open>nat\<close>.
\<close>

type_synonym range = "nat \<times> nat"

record chunk =
  c_data :: "range list"
  c_begin :: nat
  c_end :: nat
  c_count :: nat

type_synonym crv_it = "nat \<times> nat"

subsection \<open>Iterators\<close>

definition crv_end :: "chunk list \<Rightarrow> crv_it" where
  "crv_end d = (length d, 0)"

definition crv_begin :: "chunk list \<Rightarrow> crv_it" where
  "crv_begin d = (if d = [] then crv_end d else (0, 0))"

text \<open>An iterator that differs from the end iterator points to a range.\<close>

definition crv_valid :: "chunk list \<Rightarrow> crv_it \<Rightarrow> bool" where
  "crv_valid d it \<longleftrightarrow> fst it < length d \<and> snd it < length (c_data (d ! fst it))"

definition crv_get :: "chunk list \<Rightarrow> crv_it \<Rightarrow> range" where
  "crv_get d it = c_data (d ! fst it) ! snd it"

definition next_chunk :: "crv_it \<Rightarrow> crv_it" where
  "next_chunk it = (Suc (fst it), 0)"

definition crv_next :: "chunk list \<Rightarrow> crv_it \<Rightarrow> crv_it" where
  "crv_next d it =
     (if Suc (snd it) = length (c_data (d ! fst it)) then next_chunk it else (fst it, Suc (snd it)))"

definition crv_prev :: "chunk list \<Rightarrow> crv_it \<Rightarrow> crv_it" where
  "crv_prev d it =
     (if snd it = 0 then (fst it - 1, length (c_data (d ! (fst it - 1))) - 1) else (fst it, snd it - 1))"

subsection \<open>Changing a range\<close>

definition it_set :: "nat \<Rightarrow> nat \<Rightarrow> crv_it \<Rightarrow> chunk list \<Rightarrow> chunk list" where
  "it_set front back it d =
     (let c = d ! fst it; r = c_data c ! snd it;
          c1 = c\<lparr>c_count := c_count c - (snd r - fst r)\<rparr>;
          c2 = (if snd it = 0 then c1\<lparr>c_begin := front\<rparr> else c1);
          c3 = (if Suc (snd it) = length (c_data c) then c2\<lparr>c_end := back\<rparr> else c2)
      in d[fst it := c3\<lparr>c_count := c_count c3 + (back - front), c_data := (c_data c)[snd it := (front, back)]\<rparr>])"

definition plus_diff :: "nat \<Rightarrow> int \<Rightarrow> nat" where
  "plus_diff n k = nat (int n + k)"

definition it_adjust :: "int \<Rightarrow> int \<Rightarrow> crv_it \<Rightarrow> chunk list \<Rightarrow> chunk list" where
  "it_adjust front back it d =
     (let c = d ! fst it; r = c_data c ! snd it;
          c1 = (if snd it = 0 then c\<lparr>c_begin := plus_diff (c_begin c) front\<rparr> else c);
          c2 = (if Suc (snd it) = length (c_data c) then c1\<lparr>c_end := plus_diff (c_end c1) back\<rparr> else c1)
      in d[fst it := c2\<lparr>c_count := plus_diff (c_count c2) (- front + back),
             c_data := (c_data c)[snd it := (plus_diff (fst r) front, plus_diff (snd r) back)]\<rparr>])"

definition it_shift :: "int \<Rightarrow> crv_it \<Rightarrow> chunk list \<Rightarrow> chunk list" where
  "it_shift distance it d =
     (let c = d ! fst it; r = c_data c ! snd it;
          c1 = (if snd it = 0 then c\<lparr>c_begin := plus_diff (c_begin c) distance\<rparr> else c);
          c2 = (if Suc (snd it) = length (c_data c) then c1\<lparr>c_end := plus_diff (c_end c1) distance\<rparr> else c1)
      in d[fst it := c2\<lparr>c_data := (c_data c)[snd it := (plus_diff (fst r) distance, plus_diff (snd r) distance)]\<rparr>])"

subsection \<open>Adding and removing ranges\<close>

definition crv_push_back :: "nat \<Rightarrow> range \<Rightarrow> chunk list \<Rightarrow> chunk list result" where
  "crv_push_back mx value d =
     (if d \<noteq> [] \<and> length (c_data (last d)) < mx
      then let c = last d
        in rbind (rassert (c_end c \<le> fst value)) (\<lambda>_.
           Inr (butlast d @ [c\<lparr>c_data := c_data c @ [value], c_count := c_count c + (snd value - fst value),
             c_end := snd value\<rparr>]))
      else Inr (d @ [\<lparr>c_data = [value], c_begin = fst value, c_end = snd value, c_count = snd value - fst value\<rparr>]))"

definition ensure_space :: "nat \<Rightarrow> crv_it \<Rightarrow> chunk list \<Rightarrow> crv_it \<times> chunk list" where
  "ensure_space mx pos d =
     (if length (c_data (d ! fst pos)) + 1 \<le> mx then (pos, d)
      else let offset = snd pos; prev = d ! fst pos; to_move = mx div 2;
               moved = drop (length (c_data prev) - to_move) (c_data prev);
               kept = take (length (c_data prev) - to_move) (c_data prev);
               moved_count = sum_list (map (\<lambda>r. snd r - fst r) moved);
               prev' = prev\<lparr>c_data := kept, c_end := snd (last kept), c_count := c_count prev - moved_count\<rparr>;
               new = \<lparr>c_data = moved, c_begin = fst (hd moved), c_end = snd (last moved), c_count = moved_count\<rparr>;
               d' = take (fst pos) d @ prev' # new # drop (Suc (fst pos)) d
           in if offset \<ge> to_move then ((Suc (fst pos), offset - to_move), d')
              else ((fst pos, offset), d'))"

definition list_ins :: "nat \<Rightarrow> 'a \<Rightarrow> 'a list \<Rightarrow> 'a list" where
  "list_ins i x xs = take i xs @ x # drop i xs"

definition list_del :: "nat \<Rightarrow> 'a list \<Rightarrow> 'a list" where
  "list_del i xs = take i xs @ drop (Suc i) xs"

definition crv_insert :: "nat \<Rightarrow> crv_it \<Rightarrow> range \<Rightarrow> chunk list \<Rightarrow> (crv_it \<times> chunk list) result" where
  "crv_insert mx pos value d =
     (if fst pos = length d
      then rbind (crv_push_back mx value d) (\<lambda>d'. Inr (crv_prev d' (crv_end d'), d'))
      else let (pos', d1) = ensure_space mx pos d; c = d1 ! fst pos'
        in Inr (pos', d1[fst pos' := c\<lparr>c_data := list_ins (snd pos') value (c_data c),
             c_count := c_count c + (snd value - fst value), c_begin := min (c_begin c) (fst value),
             c_end := max (c_end c) (snd value)\<rparr>]))"

definition crv_erase :: "crv_it \<Rightarrow> chunk list \<Rightarrow> crv_it \<times> chunk list" where
  "crv_erase pos d =
     (let offset = snd pos; c = d ! fst pos; r = c_data c ! offset;
          c1 = c\<lparr>c_count := c_count c - (snd r - fst r), c_data := list_del offset (c_data c)\<rparr>
      in if c_data c1 = [] then ((fst pos, 0), list_del (fst pos) d)
         else let c2 = c1\<lparr>c_begin := fst (hd (c_data c1)), c_end := snd (last (c_data c1))\<rparr>
           in (if offset < length (c_data c1) then pos else (Suc (fst pos), 0), d[fst pos := c2]))"

definition crv_find_from :: "nat \<Rightarrow> crv_it \<Rightarrow> chunk list \<Rightarrow> crv_it" where
  "crv_find_from index begin d =
     (let o' = fst begin + length (takeWhile (\<lambda>c. c_end c \<le> index) (drop (fst begin) d))
      in if o' \<ge> length d then crv_end d
         else let c = d ! o'
           in if index < c_begin c then (o', 0)
              else let inner_begin = (if o' = fst begin then snd begin else 0)
                in (o', inner_begin + length (takeWhile (\<lambda>r. snd r \<le> index) (drop inner_begin (c_data c)))))"

text \<open>The checks of \<^verbatim>\<open>ChunkedRangeVector::verify\<close>.\<close>

fun verify_ranges :: "nat option \<Rightarrow> range list \<Rightarrow> bool" where
  "verify_ranges prev_end [] \<longleftrightarrow> True"
| "verify_ranges prev_end (r # rs) \<longleftrightarrow>
     fst r < snd r \<and> (case prev_end of None \<Rightarrow> True | Some e \<Rightarrow> e < fst r) \<and> verify_ranges (Some (snd r)) rs"

definition verify_chunk :: "chunk \<Rightarrow> bool" where
  "verify_chunk c \<longleftrightarrow> c_data c \<noteq> [] \<and> fst (hd (c_data c)) = c_begin c \<and> snd (last (c_data c)) = c_end c \<and>
     c_count c \<le> c_end c - c_begin c \<and> sum_list (map (\<lambda>r. snd r - fst r) (c_data c)) = c_count c"

definition crv_ranges :: "chunk list \<Rightarrow> range list" where
  "crv_ranges d = concat (map c_data d)"

definition crv_verify :: "chunk list \<Rightarrow> bool" where
  "crv_verify d \<longleftrightarrow> verify_ranges None (crv_ranges d) \<and> (\<forall>c \<in> set d. verify_chunk c)"

subsection \<open>Invariant\<close>

abbreviation rlen :: "range \<Rightarrow> nat" where
  "rlen r \<equiv> snd r - fst r"

abbreviation rlens :: "range list \<Rightarrow> nat" where
  "rlens rs \<equiv> sum_list (map rlen rs)"

definition mk_chunk :: "range list \<Rightarrow> chunk" where
  "mk_chunk rs = \<lparr>c_data = rs, c_begin = fst (hd rs), c_end = snd (last rs), c_count = rlens rs\<rparr>"

definition chunk_ok :: "nat \<Rightarrow> chunk \<Rightarrow> bool" where
  "chunk_ok mx c \<longleftrightarrow> c_data c \<noteq> [] \<and> length (c_data c) \<le> mx \<and> c = mk_chunk (c_data c)"

definition chunks_ok :: "nat \<Rightarrow> chunk list \<Rightarrow> bool" where
  "chunks_ok mx d \<longleftrightarrow> (\<forall>c \<in> set d. chunk_ok mx c)"

definition sep :: "range list \<Rightarrow> bool" where
  "sep rs \<longleftrightarrow> (\<forall>r \<in> set rs. fst r < snd r) \<and> sorted_wrt (\<lambda>r q. snd r < fst q) rs"

definition crv_ok :: "nat \<Rightarrow> chunk list \<Rightarrow> bool" where
  "crv_ok mx d \<longleftrightarrow> chunks_ok mx d \<and> sep (crv_ranges d)"

lemma mk_chunk_simps [simp]:
  "c_data (mk_chunk rs) = rs" "c_begin (mk_chunk rs) = fst (hd rs)" "c_end (mk_chunk rs) = snd (last rs)"
  "c_count (mk_chunk rs) = rlens rs"
  by (simp_all add: mk_chunk_def)

lemma chunk_ok_mk [simp]: "chunk_ok mx (mk_chunk rs) \<longleftrightarrow> rs \<noteq> [] \<and> length rs \<le> mx"
  by (auto simp: chunk_ok_def)

lemma chunks_ok_simps [simp]:
  "chunks_ok mx []" "chunks_ok mx (c # d) \<longleftrightarrow> chunk_ok mx c \<and> chunks_ok mx d"
  "chunks_ok mx (d @ d') \<longleftrightarrow> chunks_ok mx d \<and> chunks_ok mx d'"
  by (auto simp: chunks_ok_def)

lemma crv_ranges_simps [simp]:
  "crv_ranges [] = []" "crv_ranges (c # d) = c_data c @ crv_ranges d"
  "crv_ranges (d @ d') = crv_ranges d @ crv_ranges d'"
  by (simp_all add: crv_ranges_def)

lemma sep_simps [simp]: "sep []" "sep [r] \<longleftrightarrow> fst r < snd r"
  by (simp_all add: sep_def)

lemma sep_append: "sep (rs @ qs) \<longleftrightarrow> sep rs \<and> sep qs \<and> (\<forall>r \<in> set rs. \<forall>q \<in> set qs. snd r < fst q)"
  by (auto simp: sep_def sorted_wrt_append)

lemma sep_Cons: "sep (r # rs) \<longleftrightarrow> fst r < snd r \<and> sep rs \<and> (\<forall>q \<in> set rs. snd r < fst q)"
  by (auto simp: sep_def)

lemma sep_last_ge: "sep rs \<Longrightarrow> r \<in> set rs \<Longrightarrow> snd r \<le> snd (last rs)"
proof (induction rs rule: rev_induct)
  case (snoc y rs)
  then show ?case by (cases "r = y") (auto simp: sep_append)
qed simp

lemma chunk_okE:
  assumes "chunk_ok mx c"
  obtains rs where "c = mk_chunk rs" "rs \<noteq> []" "length rs \<le> mx"
  using assms by (auto simp: chunk_ok_def)

lemma chunks_ok_ne: "chunks_ok mx d \<Longrightarrow> c \<in> set d \<Longrightarrow> c_data c \<noteq> []"
  by (auto simp: chunks_ok_def chunk_ok_def)

lemma crv_ranges_empty: "chunks_ok mx d \<Longrightarrow> crv_ranges d = [] \<longleftrightarrow> d = []"
  by (cases d) (auto simp: chunk_ok_def)

subsection \<open>Positions\<close>

definition crv_at :: "chunk list \<Rightarrow> crv_it \<Rightarrow> range list \<Rightarrow> range list \<Rightarrow> bool" where
  "crv_at d it as bs \<longleftrightarrow>
     (it = (length d, 0) \<and> as = crv_ranges d \<and> bs = []) \<or>
     (\<exists>d1 c d2 xs y ys. d = d1 @ c # d2 \<and> c_data c = xs @ y # ys \<and> it = (length d1, length xs) \<and>
        as = crv_ranges d1 @ xs \<and> bs = y # ys @ crv_ranges d2)"

lemma crv_at_end: "crv_at d it as [] \<longleftrightarrow> it = (length d, 0) \<and> as = crv_ranges d"
  by (auto simp: crv_at_def)

lemma crv_atI:
  "d = d1 @ c # d2 \<Longrightarrow> c_data c = xs @ y # ys \<Longrightarrow> it = (length d1, length xs) \<Longrightarrow>
     as = crv_ranges d1 @ xs \<Longrightarrow> bs = y # ys @ crv_ranges d2 \<Longrightarrow> crv_at d it as bs"
  unfolding crv_at_def by blast

lemma crv_atE:
  assumes "crv_at d it as (b # bs)"
  obtains d1 c d2 xs ys where "d = d1 @ c # d2" "c_data c = xs @ b # ys" "it = (length d1, length xs)"
    "as = crv_ranges d1 @ xs" "bs = ys @ crv_ranges d2"
  using assms by (auto simp: crv_at_def)

lemma crv_at_ranges: "crv_at d it as bs \<Longrightarrow> crv_ranges d = as @ bs"
  by (auto simp: crv_at_def)

lemma crv_at_valid: "crv_at d it as bs \<Longrightarrow> crv_valid d it \<longleftrightarrow> bs \<noteq> []"
  by (auto simp: crv_at_def crv_valid_def)

lemma crv_at_get: "crv_at d it as (b # bs) \<Longrightarrow> crv_get d it = b"
  by (erule crv_atE) (simp add: crv_get_def)

lemma crv_at_first: "chunks_ok mx d2 \<Longrightarrow> crv_at (d1 @ d2) (length d1, 0) (crv_ranges d1) (crv_ranges d2)"
proof (cases d2)
  case (Cons c d3)
  assume "chunks_ok mx d2"
  then obtain y ys where "c_data c = y # ys" using Cons by (cases "c_data c") (auto simp: chunk_ok_def)
  then show ?thesis using Cons by (intro crv_atI [of _ d1 c d3 "[]" y ys]) auto
qed (simp add: crv_at_end)

lemma crv_at_begin: "chunks_ok mx d \<Longrightarrow> crv_at d (crv_begin d) [] (crv_ranges d)"
  using crv_at_first [of mx d "[]"] by (cases "d = []") (simp_all add: crv_begin_def crv_end_def)

lemma crv_at_next:
  assumes "chunks_ok mx d" "crv_at d it as (b # bs)"
  shows "crv_at d (crv_next d it) (as @ [b]) bs"
  using assms(2)
proof (rule crv_atE)
  fix d1 c d2 xs ys
  assume d: "d = d1 @ c # d2" "c_data c = xs @ b # ys" "it = (length d1, length xs)"
    "as = crv_ranges d1 @ xs" "bs = ys @ crv_ranges d2"
  show ?thesis
  proof (cases ys)
    case Nil
    then show ?thesis using crv_at_first [of mx d2 "d1 @ [c]"] assms(1) d by (simp add: crv_next_def next_chunk_def)
  next
    case (Cons y ys')
    then show ?thesis using d by (intro crv_atI [of _ d1 c d2 "xs @ [b]" y ys']) (auto simp: crv_next_def)
  qed
qed

lemma crv_at_prev:
  assumes ok: "chunks_ok mx d" and at: "crv_at d it (as @ [a]) bs"
  shows "crv_at d (crv_prev d it) as (a # bs)"
proof -
  have last_of: "crv_at d (length d1 - 1, length (c_data (d ! (length d1 - 1))) - 1) as (a # bs)"
    if d: "d = d1 @ d2" "crv_ranges d1 = as @ [a]" "bs = crv_ranges d2" for d1 d2
  proof -
    obtain d0 c where d1: "d1 = d0 @ [c]" using d(2) by (cases d1 rule: rev_cases) auto
    obtain xs y where c: "c_data c = xs @ [y]" using ok d d1 by (cases "c_data c" rule: rev_cases) (auto simp: chunk_ok_def)
    show ?thesis using d d1 c by (intro crv_atI [of _ d0 c d2 xs y "[]"]) (auto simp: nth_append)
  qed
  show ?thesis
  proof (cases bs)
    case Nil
    then have "it = (length d, 0)" "as @ [a] = crv_ranges d" using at by (simp_all add: crv_at_end)
    then show ?thesis using last_of [of d "[]"] Nil by (simp add: crv_prev_def)
  next
    case (Cons b bs')
    obtain d1 c d2 xs ys where d: "d = d1 @ c # d2" "c_data c = xs @ b # ys" "it = (length d1, length xs)"
      "as @ [a] = crv_ranges d1 @ xs" "bs' = ys @ crv_ranges d2"
      using at Cons by (auto elim!: crv_atE)
    show ?thesis
    proof (cases xs rule: rev_cases)
      case Nil
      then show ?thesis using last_of [of d1 "c # d2"] d Cons by (simp add: crv_prev_def)
    next
      case (snoc xs' x)
      then show ?thesis using d Cons by (intro crv_atI [of _ d1 c d2 xs' x "b # ys"]) (auto simp: crv_prev_def)
    qed
  qed
qed

lemma crv_at_is_begin:
  assumes "chunks_ok mx d" "crv_at d it as bs"
  shows "it = crv_begin d \<longleftrightarrow> as = []"
proof
  assume "it = crv_begin d"
  then show "as = []" using assms by (auto simp: crv_at_def crv_begin_def crv_end_def split: if_splits)
next
  assume "as = []"
  then show "it = crv_begin d"
    using assms(2) unfolding crv_at_def
  proof (elim disjE exE conjE)
    assume "it = (length d, 0)" "as = crv_ranges d"
    then show ?thesis using \<open>as = []\<close> crv_ranges_empty [OF assms(1)] by (simp add: crv_begin_def crv_end_def)
  next
    fix d1 c d2 xs y ys
    assume d: "d = d1 @ c # d2" "it = (length d1, length xs)" "as = crv_ranges d1 @ xs"
    then have "d1 = []" "xs = []" using \<open>as = []\<close> crv_ranges_empty [of mx d1] assms(1) by auto
    then show ?thesis using d by (simp add: crv_begin_def)
  qed
qed

subsection \<open>The effect of the operations\<close>

text \<open>The result of an operation that leaves the range \<open>r\<close> at the position.\<close>

lemma chunk_replace:
  assumes ok: "chunks_ok mx (d1 @ c # d2)" and c: "c_data c = xs @ b # ys" and d': "d' = d1 @ mk_chunk (xs @ r # ys) # d2"
  shows "chunks_ok mx d'" "crv_at d' (length d1, length xs) (crv_ranges d1 @ xs) (r # ys @ crv_ranges d2)"
proof -
  show "chunks_ok mx d'" using ok c by (auto simp: d' chunk_ok_def)
  show "crv_at d' (length d1, length xs) (crv_ranges d1 @ xs) (r # ys @ crv_ranges d2)"
    unfolding d' by (rule crv_atI [OF refl _ refl refl refl]) simp
qed

lemma chunk_eq:
  assumes "chunks_ok mx (d1 @ c # d2)"
  shows "c = mk_chunk (c_data c)"
  using assms by (simp add: chunk_ok_def)

lemma crv_at_set:
  assumes ok: "chunks_ok mx d" and at: "crv_at d it as (b # bs)"
  shows "chunks_ok mx (it_set f s it d)" "crv_at (it_set f s it d) it as ((f, s) # bs)"
proof -
  obtain d1 c d2 xs ys where d: "d = d1 @ c # d2" "c_data c = xs @ b # ys" "it = (length d1, length xs)"
    "as = crv_ranges d1 @ xs" "bs = ys @ crv_ranges d2"
    using at by (rule crv_atE)
  have c: "c = mk_chunk (xs @ b # ys)" using chunk_eq [of mx d1 c d2] ok d by simp
  have "it_set f s it d = d1 @ mk_chunk (xs @ (f, s) # ys) # d2"
    by (cases xs; cases ys rule: rev_cases) (simp_all add: it_set_def Let_def d(1,3) c mk_chunk_def)
  from chunk_replace [OF _ d(2) this] ok d
  show "chunks_ok mx (it_set f s it d)" "crv_at (it_set f s it d) it as ((f, s) # bs)" by simp_all
qed

lemma plus_diff_simps [simp]: "plus_diff n (int k) = n + k" "plus_diff n 0 = n" "k \<le> n \<Longrightarrow> plus_diff n (- int k) = n - k"
  "plus_diff n 1 = Suc n" "plus_diff n (-1) = n - 1"
  by (auto simp: plus_diff_def)

lemma crv_at_adjust:
  assumes ok: "chunks_ok mx d" and at: "crv_at d it as (b # bs)" and b: "fst b \<le> snd b"
    and f: "int f = int (fst b) + front" and s: "int s = int (snd b) + back" and fs: "f \<le> s"
  shows "chunks_ok mx (it_adjust front back it d)" "crv_at (it_adjust front back it d) it as ((f, s) # bs)"
proof -
  obtain d1 c d2 xs ys where d: "d = d1 @ c # d2" "c_data c = xs @ b # ys" "it = (length d1, length xs)"
    "as = crv_ranges d1 @ xs" "bs = ys @ crv_ranges d2"
    using at by (rule crv_atE)
  have c: "c = mk_chunk (xs @ b # ys)" using chunk_eq [of mx d1 c d2] ok d by simp
  have pf: "plus_diff (fst b) front = f" "plus_diff (snd b) back = s" using f s by (simp_all add: plus_diff_def)
  have "plus_diff (rlens (xs @ b # ys)) (- front + back) = rlens (xs @ (f, s) # ys)"
    using f s b fs by (simp add: plus_diff_def of_nat_diff)
  then have "it_adjust front back it d = d1 @ mk_chunk (xs @ (f, s) # ys) # d2"
    by (cases xs; cases ys rule: rev_cases) (simp_all add: it_adjust_def Let_def d(1,3) c mk_chunk_def pf)
  from chunk_replace [OF _ d(2) this] ok d
  show "chunks_ok mx (it_adjust front back it d)" "crv_at (it_adjust front back it d) it as ((f, s) # bs)" by simp_all
qed

lemma crv_at_shift:
  assumes ok: "chunks_ok mx d" and at: "crv_at d it as (b # bs)" and b: "fst b \<le> snd b"
    and f: "int f = int (fst b) + k" and s: "int s = int (snd b) + k"
  shows "chunks_ok mx (it_shift k it d)" "crv_at (it_shift k it d) it as ((f, s) # bs)"
proof -
  obtain d1 c d2 xs ys where d: "d = d1 @ c # d2" "c_data c = xs @ b # ys" "it = (length d1, length xs)"
    "as = crv_ranges d1 @ xs" "bs = ys @ crv_ranges d2"
    using at by (rule crv_atE)
  have c: "c = mk_chunk (xs @ b # ys)" using chunk_eq [of mx d1 c d2] ok d by simp
  have pf: "plus_diff (fst b) k = f" "plus_diff (snd b) k = s" using f s by (simp_all add: plus_diff_def)
  have "snd b - fst b = s - f" using f s by linarith
  then have "it_shift k it d = d1 @ mk_chunk (xs @ (f, s) # ys) # d2"
    by (cases xs; cases ys rule: rev_cases) (simp_all add: it_shift_def Let_def d(1,3) c mk_chunk_def pf)
  from chunk_replace [OF _ d(2) this] ok d
  show "chunks_ok mx (it_shift k it d)" "crv_at (it_shift k it d) it as ((f, s) # bs)" by simp_all
qed

lemma list_ins_append [simp]: "list_ins (length xs) x (xs @ ys) = xs @ x # ys"
  by (simp add: list_ins_def)

lemma list_del_append [simp]: "list_del (length xs) (xs @ y # ys) = xs @ ys"
  by (simp add: list_del_def)

lemma crv_at_erase:
  assumes ok: "chunks_ok mx d" and at: "crv_at d it as (b # bs)"
  shows "\<exists>it' d'. crv_erase it d = (it', d') \<and> chunks_ok mx d' \<and> crv_at d' it' as bs"
proof -
  obtain d1 c d2 xs ys where d: "d = d1 @ c # d2" "c_data c = xs @ b # ys" "it = (length d1, length xs)"
    "as = crv_ranges d1 @ xs" "bs = ys @ crv_ranges d2"
    using at by (rule crv_atE)
  have c: "c = mk_chunk (xs @ b # ys)" using chunk_eq [of mx d1 c d2] ok d by simp
  show ?thesis
  proof (cases "xs @ ys = []")
    case True
    then have "crv_erase it d = ((length d1, 0), d1 @ d2)"
      using d by (simp add: crv_erase_def Let_def c list_del_def)
    then show ?thesis using True ok d crv_at_first [of mx d2 d1] by auto
  next
    case False
    define d' where "d' = d1 @ mk_chunk (xs @ ys) # d2"
    have e: "crv_erase it d = (if ys = [] then (Suc (length d1), 0) else it, d')"
      using False by (cases ys) (simp_all add: crv_erase_def Let_def d(1,3) c mk_chunk_def d'_def)
    have ok': "chunks_ok mx d'" using ok d False by (auto simp: d'_def chunk_ok_def)
    show ?thesis
    proof (cases ys)
      case Nil
      then show ?thesis using e ok' crv_at_first [of mx d2 "d1 @ [mk_chunk xs]"] d False by (auto simp: d'_def)
    next
      case (Cons y ys')
      then have "crv_at d' it as bs" using d by (intro crv_atI [of _ d1 "mk_chunk (xs @ ys)" d2 xs y ys']) (auto simp: d'_def)
      then show ?thesis using e ok' Cons by auto
    qed
  qed
qed

lemma ensure_space_at:
  assumes ok: "chunks_ok mx d" and mx: "2 \<le> mx" "even mx" and at: "crv_at d it as (b # bs)"
  shows "\<exists>it' d'. ensure_space mx it d = (it', d') \<and> chunks_ok mx d' \<and> crv_at d' it' as (b # bs) \<and>
    length (c_data (d' ! fst it')) < mx"
proof -
  obtain d1 c d2 xs ys where d: "d = d1 @ c # d2" "c_data c = xs @ b # ys" "it = (length d1, length xs)"
    "as = crv_ranges d1 @ xs" "bs = ys @ crv_ranges d2"
    using at by (rule crv_atE)
  show ?thesis
  proof (cases "length (c_data c) + 1 \<le> mx")
    case True
    then show ?thesis using ok at d by (auto simp: ensure_space_def)
  next
    case False
    define h where "h = mx div 2"
    have h: "mx = 2 * h" "0 < h" using mx by (auto simp: h_def)
    define L where "L = xs @ b # ys"
    have c: "c = mk_chunk L" "c_data c = L" using chunk_eq [of mx d1 c d2] ok d by (simp_all add: L_def)
    have len: "length L = mx" using False ok d c by (auto simp: chunk_ok_def)
    define K where "K = take h L"
    define M where "M = drop h L"
    have KM: "L = K @ M" "length K = h" "length M = h" "K \<noteq> []" "M \<noteq> []" using len h by (auto simp: K_def M_def)
    define d' where "d' = d1 @ mk_chunk K # mk_chunk M # d2"
    have "rlens L = rlens K + rlens M" by (simp add: KM(1))
    then have e: "ensure_space mx it d = (if h \<le> length xs then (Suc (length d1), length xs - h) else it, d')"
      using False h len KM by (simp add: ensure_space_def Let_def d(1,3) c h_def [symmetric] mk_chunk_def d'_def
          K_def [symmetric] M_def [symmetric])
    have ok': "chunks_ok mx d'" using ok d KM h by (auto simp: d'_def)
    show ?thesis
    proof (cases "h \<le> length xs")
      case True
      have "xs = K @ drop h xs" "M = drop h xs @ b # ys" using KM(1,2) True by (auto simp: L_def K_def M_def)
      then have "crv_at d' (Suc (length d1), length xs - h) as (b # bs)"
        using d by (intro crv_atI [of _ "d1 @ [mk_chunk K]" "mk_chunk M" d2 "drop h xs" b ys]) (auto simp: d'_def)
      then show ?thesis using e True ok' KM h by (auto simp: d'_def nth_append)
    next
      case False
      define zs where "zs = take (h - length xs - 1) ys"
      have "K = xs @ b # zs" "ys = zs @ M" using False len h
        by (auto simp: K_def M_def L_def zs_def take_Cons' drop_Cons' not_le Suc_diff_Suc)
      then have "crv_at d' it as (b # bs)"
        using d by (intro crv_atI [of _ d1 "mk_chunk K" "mk_chunk M # d2" xs b zs]) (auto simp: d'_def)
      then show ?thesis using e False ok' KM h d by (auto simp: d'_def nth_append)
    qed
  qed
qed

lemma crv_push_back_at:
  assumes ok: "chunks_ok mx d" and mx: "2 \<le> mx" and sp: "sep (crv_ranges d @ [v])"
  shows "\<exists>d'. crv_push_back mx v d = Inr d' \<and> chunks_ok mx d' \<and> crv_ranges d' = crv_ranges d @ [v]"
proof (cases "d \<noteq> [] \<and> length (c_data (last d)) < mx")
  case True
  then obtain d1 c where d: "d = d1 @ [c]" by (cases d rule: rev_cases) auto
  define L where "L = c_data c"
  have "chunk_ok mx c" using ok d by simp
  then have c: "c = mk_chunk L" "L \<noteq> []" unfolding L_def chunk_ok_def by blast+
  have "snd (last L) < fst v" using sp c(2) by (simp add: d L_def sep_append)
  then have "crv_push_back mx v d = Inr (d1 @ [mk_chunk (L @ [v])])"
    using True c(2) by (simp add: crv_push_back_def Let_def d c(1) mk_chunk_def)
  then show ?thesis using True ok d c by auto
next
  case False
  then have "crv_push_back mx v d = Inr (d @ [mk_chunk [v]])"
    unfolding crv_push_back_def by (subst if_not_P) (simp_all add: mk_chunk_def)
  then show ?thesis using ok mx by simp
qed

lemma crv_at_insert:
  assumes ok: "chunks_ok mx d" and mx: "2 \<le> mx" "even mx" and at: "crv_at d it as bs" and sp: "sep (as @ v # bs)"
  shows "\<exists>it' d'. crv_insert mx it v d = Inr (it', d') \<and> chunks_ok mx d' \<and> crv_at d' it' as (v # bs)"
proof (cases bs)
  case Nil
  then have it: "it = (length d, 0)" and as: "as = crv_ranges d" using at by (simp_all add: crv_at_end)
  obtain d' where d': "crv_push_back mx v d = Inr d'" "chunks_ok mx d'" "crv_ranges d' = as @ [v]"
    using crv_push_back_at [OF ok mx(1), of v] sp by (auto simp: as Nil)
  have "crv_at d' (crv_end d') (as @ [v]) []" by (simp add: crv_at_end crv_end_def d'(3))
  then have "crv_at d' (crv_prev d' (crv_end d')) as [v]" by (rule crv_at_prev [OF d'(2)])
  then show ?thesis using d' Nil by (auto simp: crv_insert_def it)
next
  case (Cons b bs')
  obtain it1 d1' where e: "ensure_space mx it d = (it1, d1')" and ok1: "chunks_ok mx d1'"
    and at1: "crv_at d1' it1 as bs" and room: "length (c_data (d1' ! fst it1)) < mx"
    using ensure_space_at [OF ok mx at [unfolded Cons]] Cons by auto
  obtain d1 c d2 xs ys where d: "d1' = d1 @ c # d2" "c_data c = xs @ b # ys" "it1 = (length d1, length xs)"
    "as = crv_ranges d1 @ xs" "bs' = ys @ crv_ranges d2"
    using at1 [unfolded Cons] by (rule crv_atE)
  have c: "c = mk_chunk (xs @ b # ys)" using chunk_eq [of mx d1 c d2] ok1 d by simp
  have s: "sep (xs @ v # b # ys)" using sp unfolding d(4,5) Cons by (simp add: sep_append sep_Cons)
  have "snd b \<le> snd (last (b # ys))" using s by (intro sep_last_ge) (simp_all add: sep_append sep_Cons)
  moreover have "snd v < snd b" using s by (auto simp: sep_append sep_Cons)
  ultimately have mxe: "max (snd (last (b # ys))) (snd v) = snd (last (b # ys))" by simp
  have mnb: "min (fst (hd (xs @ b # ys))) (fst v) = fst (hd (xs @ v # b # ys))"
    using s by (cases xs) (auto simp: sep_append sep_Cons)
  define d' where "d' = d1 @ mk_chunk (xs @ v # b # ys) # d2"
  have "crv_valid d it" using crv_at_valid [OF at] Cons by simp
  then have "fst it \<noteq> length d" by (simp add: crv_valid_def)
  then have "crv_insert mx it v d = Inr (it1, d')"
    using mxe mnb by (simp add: crv_insert_def e Let_def d(1,3) c d'_def mk_chunk_def)
  moreover have "chunks_ok mx d'" using ok1 room d by (auto simp: d'_def)
  moreover have "crv_at d' it1 as (v # bs)"
    using d Cons by (intro crv_atI [of _ d1 "mk_chunk (xs @ v # b # ys)" d2 xs v "b # ys"]) (auto simp: d'_def)
  ultimately show ?thesis by blast
qed

subsection \<open>Searching\<close>

lemma find_chunks:
  assumes "chunks_ok mx d" "sep (crv_ranges d)"
  shows "takeWhile (\<lambda>r. snd r \<le> x) (crv_ranges d) = crv_ranges (takeWhile (\<lambda>c. c_end c \<le> x) d) @
    (case dropWhile (\<lambda>c. c_end c \<le> x) d of [] \<Rightarrow> [] | c # _ \<Rightarrow> takeWhile (\<lambda>r. snd r \<le> x) (c_data c))"
  using assms
proof (induction d)
  case (Cons c d)
  then obtain rs where c: "c = mk_chunk rs" "rs \<noteq> []" by (auto elim: chunk_okE)
  have s: "sep rs" "sep (crv_ranges d)" using Cons.prems(2) c by (simp_all add: sep_append)
  show ?case
  proof (cases "snd (last rs) \<le> x")
    case True
    have "snd r \<le> x" if "r \<in> set rs" for r using sep_last_ge [OF s(1) that] True by simp
    then show ?thesis using True Cons.IH s(2) Cons.prems(1) c by (simp add: takeWhile_append)
  next
    case False
    then have "takeWhile (\<lambda>r. snd r \<le> x) (rs @ crv_ranges d) = takeWhile (\<lambda>r. snd r \<le> x) rs"
      using c(2) by (intro takeWhile_append1 [of "last rs"]) auto
    then show ?thesis using False c by simp
  qed
qed simp

lemma dropWhile_append_all: "\<forall>x \<in> set xs. P x \<Longrightarrow> dropWhile P (xs @ ys) = dropWhile P ys"
  by (induction xs) auto

lemma takeWhile_append_all: "\<forall>x \<in> set xs. P x \<Longrightarrow> takeWhile P (xs @ ys) = xs @ takeWhile P ys"
  by (induction xs) auto

text \<open>Searching from an iterator whose predecessors all end at or before the index.\<close>

lemma crv_at_find_from:
  assumes ok: "chunks_ok mx d" and sp: "sep (crv_ranges d)" and at: "crv_at d it as bs"
    and le: "\<forall>r \<in> set as. snd r \<le> x"
  shows "crv_at d (crv_find_from x it d) (as @ takeWhile (\<lambda>r. snd r \<le> x) bs) (dropWhile (\<lambda>r. snd r \<le> x) bs)"
proof (cases bs)
  case Nil
  then show ?thesis using at by (simp add: crv_at_end crv_find_from_def crv_end_def)
next
  case (Cons b bs')
  obtain d1 c d2 xs ys where d: "d = d1 @ c # d2" "c_data c = xs @ b # ys" "it = (length d1, length xs)"
    "as = crv_ranges d1 @ xs" "bs' = ys @ crv_ranges d2"
    using at [unfolded Cons] by (rule crv_atE)
  define P where "P = (\<lambda>c :: chunk. c_end c \<le> x)"
  define e1 where "e1 = takeWhile P (c # d2)"
  define e2 where "e2 = dropWhile P (c # d2)"
  have e: "c # d2 = e1 @ e2" by (simp add: e1_def e2_def)
  have TW: "takeWhile (\<lambda>r. snd r \<le> x) (crv_ranges (c # d2)) = crv_ranges e1 @
    (case e2 of [] \<Rightarrow> [] | c # _ \<Rightarrow> takeWhile (\<lambda>r. snd r \<le> x) (c_data c))"
    unfolding e1_def e2_def P_def using ok sp d(1) by (intro find_chunks [of mx]) (simp_all add: sep_append)
  have xsb: "crv_ranges (c # d2) = xs @ bs" using d Cons by simp
  have lex: "\<forall>r \<in> set xs. snd r \<le> x" using le d by simp
  then have TB: "takeWhile (\<lambda>r. snd r \<le> x) (crv_ranges (c # d2)) = xs @ takeWhile (\<lambda>r. snd r \<le> x) bs"
    unfolding xsb by (rule takeWhile_append_all)
  have DB: "dropWhile (\<lambda>r. snd r \<le> x) (crv_ranges (c # d2)) = dropWhile (\<lambda>r. snd r \<le> x) bs"
    unfolding xsb using lex by (rule dropWhile_append_all)
  show ?thesis
  proof (cases e2)
    case Nil
    then have "takeWhile P (c # d2) = c # d2" using e by (metis append_Nil2 e1_def)
    then have "crv_find_from x it d = crv_end d" using d by (simp add: crv_find_from_def P_def)
    moreover have "dropWhile (\<lambda>r. snd r \<le> x) bs = []"
      using TW Nil e DB takeWhile_dropWhile_id [of "\<lambda>r. snd r \<le> x" "crv_ranges (c # d2)"]
      by (metis append_Nil2 append_self_conv list.simps(4))
    moreover have "takeWhile (\<lambda>r. snd r \<le> x) bs = bs" using calculation(2) by (metis append_Nil2 takeWhile_dropWhile_id)
    ultimately show ?thesis using crv_at_ranges [OF at] by (simp only: crv_at_end crv_end_def)
  next
    case (Cons c' e3)
    have c': "chunk_ok mx c'" using ok d(1) e Cons by (metis chunks_ok_simps(2,3))
    define zs where "zs = takeWhile (\<lambda>r. snd r \<le> x) (c_data c')"
    have "\<not> P c'" using Cons hd_dropWhile [of P "c # d2"] unfolding e2_def by auto
    moreover have "c_end c' = snd (last (c_data c'))" using c' unfolding chunk_ok_def by (metis mk_chunk_simps(3))
    ultimately have big: "\<not> snd (last (c_data c')) \<le> x" by (simp add: P_def)
    have "dropWhile (\<lambda>r. snd r \<le> x) (c_data c') \<noteq> []"
      using big c' by (auto simp: chunk_ok_def)
    then obtain y ws where zy: "c_data c' = zs @ y # ws"
      unfolding zs_def by (metis list.exhaust takeWhile_dropWhile_id)
    have len: "length (takeWhile P (drop (length d1) d)) = length e1" using d by (simp add: e1_def)
    have d': "d = (d1 @ e1) @ c' # e3" using d(1) e Cons by simp
    have inner: "length zs = (if length e1 = 0 then length xs else 0) +
        length (takeWhile (\<lambda>r. snd r \<le> x) (drop (if length e1 = 0 then length xs else 0) (c_data c')))"
    proof (cases "e1 = []")
      case True
      then have "c_data c' = xs @ b # ys" using e Cons d(2) by simp
      then show ?thesis using True lex by (simp add: zs_def takeWhile_append_all)
    qed (simp add: zs_def)
    have z0: "zs = []" if "x < c_begin c'"
    proof -
      obtain h t where h: "c_data c' = h # t" using zy by (metis append_is_Nil_conv list.distinct(1) list.exhaust)
      have "c_begin c' = fst (hd (c_data c'))" using c' unfolding chunk_ok_def by (metis mk_chunk_simps(2))
      then have "c_begin c' = fst h" by (simp add: h)
      moreover have "fst h < snd h" using sp h by (auto simp: d' sep_def)
      ultimately show ?thesis using that by (simp add: zs_def h)
    qed
    have f: "crv_find_from x it d = (length (d1 @ e1), length zs)"
      using len inner z0 d(3) unfolding P_def crv_find_from_def Let_def
      by (cases "x < c_begin c'") (simp_all add: d' nth_append)
    have A: "crv_ranges e1 @ zs = xs @ takeWhile (\<lambda>r. snd r \<le> x) bs"
      using TW TB Cons by (simp add: zs_def)
    moreover have "(crv_ranges e1 @ zs) @ y # ws @ crv_ranges e3 = (xs @ takeWhile (\<lambda>r. snd r \<le> x) bs) @ dropWhile (\<lambda>r. snd r \<le> x) bs"
      using xsb unfolding e Cons by (simp add: zy)
    ultimately have "dropWhile (\<lambda>r. snd r \<le> x) bs = y # ws @ crv_ranges e3" by (metis same_append_eq)
    then show ?thesis using A d(4) by (intro crv_atI [OF d' zy f]) simp_all
  qed
qed

end
