(* ===== verification/Index_Set.thy ===== *)
theory Index_Set
  imports Chunked_Ranges
begin

text \<open>
  \<^verbatim>\<open>IndexSet\<close> (\<open>object-store/index_set.cpp\<close>): sets of positions of a collection, the currency of change
  notifications. The operations work on iterators of the chunked range vector, combine neighbouring ranges and
  shift the ranges behind an insertion or a deletion. The lemmas relate every operation to the set of indices
  it denotes.
\<close>

definition npos :: nat where
  "npos = 2 ^ 64 - 1"

definition is_find :: "nat \<Rightarrow> chunk list \<Rightarrow> crv_it" where
  "is_find index d = crv_find_from index (crv_begin d) d"

definition is_contains :: "nat \<Rightarrow> chunk list \<Rightarrow> bool" where
  "is_contains index d = (let it = is_find index d in crv_valid d it \<and> fst (crv_get d it) \<le> index)"

definition as_indexes :: "chunk list \<Rightarrow> nat list" where
  "as_indexes d = concat (map (\<lambda>r. [fst r..<snd r]) (crv_ranges d))"

subsection \<open>Adding\<close>

definition do_add :: "nat \<Rightarrow> crv_it \<Rightarrow> nat \<Rightarrow> chunk list \<Rightarrow> (crv_it \<times> chunk list) result" where
  "do_add mx it index d =
     (let more_before = (it \<noteq> crv_begin d); valid = crv_valid d it; prev = crv_prev d it
      in rbind (rassert (\<not> more_before \<or> snd (crv_get d prev) \<le> index)) (\<lambda>_.
         if valid \<and> fst (crv_get d it) \<le> index \<and> index < snd (crv_get d it) then Inr (it, d)
         else if more_before \<and> snd (crv_get d prev) = index
         then let d1 = it_adjust 0 1 prev d
           in if valid \<and> snd (crv_get d1 prev) = fst (crv_get d1 it)
              then let d2 = it_adjust 0 (int (snd (crv_get d1 it)) - int (fst (crv_get d1 it))) prev d1;
                       (it', d3) = crv_erase it d2
                in Inr (crv_prev d3 it', d3)
              else Inr (prev, d1)
         else if valid \<and> fst (crv_get d it) = index + 1 then Inr (it, it_adjust (-1) 0 it d)
         else crv_insert mx it (index, index + 1) d))"

definition is_add :: "nat \<Rightarrow> nat \<Rightarrow> chunk list \<Rightarrow> chunk list result" where
  "is_add mx index d = rbind (do_add mx (is_find index d) index d) (\<lambda>(it, d'). Inr d')"

fun is_add_list :: "nat \<Rightarrow> nat list \<Rightarrow> crv_it \<Rightarrow> chunk list \<Rightarrow> chunk list result" where
  "is_add_list mx [] it d = Inr d"
| "is_add_list mx (index # is) it d =
     rbind (do_add mx (crv_find_from index it d) index d) (\<lambda>(it', d'). is_add_list mx is it' d')"

definition is_add_all :: "nat \<Rightarrow> chunk list \<Rightarrow> chunk list \<Rightarrow> chunk list result" where
  "is_add_all mx other d = is_add_list mx (as_indexes other) (crv_begin d) d"

fun is_of_list :: "nat \<Rightarrow> nat list \<Rightarrow> chunk list \<Rightarrow> chunk list result" where
  "is_of_list mx [] d = Inr d"
| "is_of_list mx (v # vs) d = rbind (is_add mx v d) (is_of_list mx vs)"

definition is_clear :: "chunk list \<Rightarrow> chunk list" where
  "is_clear d = []"

definition is_set :: "nat \<Rightarrow> nat \<Rightarrow> chunk list \<Rightarrow> chunk list result" where
  "is_set mx len d = (if len \<noteq> 0 then crv_push_back mx (0, len) (is_clear d) else Inr (is_clear d))"

subsection \<open>Loops over the rest of the ranges\<close>

lemma it_shift_shape [simp]:
  "length (it_shift k it d) = length d"
  "map (\<lambda>c. length (c_data c)) (it_shift k it d) = map (\<lambda>c. length (c_data c)) d"
  by (auto simp: it_shift_def Let_def map_update) (metis list_update_id map_update)

lemma it_shift_len:
  "crv_valid d it \<Longrightarrow> length (c_data (it_shift k it d ! fst it)) = length (c_data (d ! fst it))"
  by (auto simp: it_shift_def Let_def crv_valid_def)

function shift_until_end :: "int \<Rightarrow> crv_it \<Rightarrow> chunk list \<Rightarrow> chunk list" where
  "shift_until_end k it d =
     (if crv_valid d it then let d1 = it_shift k it d in shift_until_end k (crv_next d1 it) d1 else d)"
  by pat_completeness auto
termination
  by (relation "measures [\<lambda>(k, it, d). length d - fst it, \<lambda>(k, it, d). length (c_data (d ! fst it)) - snd it]")
    (auto simp: crv_next_def next_chunk_def it_shift_len, auto simp: crv_valid_def)

declare shift_until_end.simps [simp del]

text \<open>The accumulating loops of \<^verbatim>\<open>count\<close>, \<^verbatim>\<open>add_shifted\<close> and \<^verbatim>\<open>erase_or_unshift\<close>: over whole chunks while
  their end is not after the index, and over single ranges.\<close>

function chunks_until :: "(nat \<Rightarrow> nat \<Rightarrow> bool) \<Rightarrow> (nat \<Rightarrow> nat \<Rightarrow> nat) \<Rightarrow> chunk list \<Rightarrow> crv_it \<Rightarrow> nat \<Rightarrow> crv_it \<times> nat" where
  "chunks_until P f d it acc =
     (if crv_valid d it \<and> P (c_end (d ! fst it)) acc
      then chunks_until P f d (next_chunk it) (f acc (c_count (d ! fst it))) else (it, acc))"
  by pat_completeness auto
termination
  by (relation "measure (\<lambda>(P, f, d, it, acc). length d - fst it)") (auto simp: crv_valid_def next_chunk_def)

function ranges_until :: "(range \<Rightarrow> nat \<Rightarrow> bool) \<Rightarrow> (nat \<Rightarrow> nat \<Rightarrow> nat) \<Rightarrow> chunk list \<Rightarrow> crv_it \<Rightarrow> nat \<Rightarrow> crv_it \<times> nat" where
  "ranges_until P f d it acc =
     (if crv_valid d it \<and> P (crv_get d it) acc
      then ranges_until P f d (crv_next d it) (f acc (snd (crv_get d it) - fst (crv_get d it))) else (it, acc))"
  by pat_completeness auto
termination
  by (relation "measures [\<lambda>(P, f, d, it, acc). length d - fst it, \<lambda>(P, f, d, it, acc). length (c_data (d ! fst it)) - snd it]")
    (auto simp: crv_valid_def crv_next_def next_chunk_def)

declare chunks_until.simps [simp del] ranges_until.simps [simp del]

definition is_add_shifted :: "nat \<Rightarrow> nat \<Rightarrow> chunk list \<Rightarrow> (nat \<times> chunk list) result" where
  "is_add_shifted mx index d =
     (let (it1, index1) = chunks_until (\<lambda>e i. e \<le> i) (+) d (crv_begin d) index;
          (it2, index2) = ranges_until (\<lambda>r i. fst r \<le> i) (+) d it1 index1
      in rbind (do_add mx it2 index2 d) (\<lambda>(it, d'). Inr (index2, d')))"

subsection \<open>Inserting and erasing positions\<close>

fun insert_loop :: "nat \<Rightarrow> nat \<Rightarrow> nat \<Rightarrow> crv_it \<Rightarrow> chunk list \<Rightarrow> chunk list result" where
  "insert_loop mx 0 index pos d = Inr d"
| "insert_loop mx (Suc n) index pos d =
     rbind (do_add mx pos index d) (\<lambda>(p, d'). insert_loop mx n (Suc index) (crv_next d' p) d')"

definition is_insert_at :: "nat \<Rightarrow> nat \<Rightarrow> nat \<Rightarrow> chunk list \<Rightarrow> chunk list result" where
  "is_insert_at mx index count d =
     rbind (rassert (0 < count)) (\<lambda>_.
       let pos = is_find index d;
           (in_existing, d1) =
             (if crv_valid d pos
              then let inside = (fst (crv_get d pos) \<le> index);
                       d' = (if inside then it_adjust 0 (int count) pos d else it_shift (int count) pos d)
                in (inside, shift_until_end (int count) (crv_next d' pos) d')
              else (False, d))
       in if \<not> in_existing then insert_loop mx count index pos d1 else Inr d1)"

definition is_shift_for_insert_at :: "nat \<Rightarrow> nat \<Rightarrow> nat \<Rightarrow> chunk list \<Rightarrow> chunk list result" where
  "is_shift_for_insert_at mx index count d =
     rbind (rassert (0 < count)) (\<lambda>_.
       let it = is_find index d
       in if \<not> crv_valid d it then Inr d
          else let d1 = shift_until_end (int count) it d; r = crv_get d1 it
            in if fst r < index + count
               then let d2 = it_set (fst r - count) index it d1
                 in rbind (crv_insert mx (crv_next d2 it) (index + count, snd r) d2) (\<lambda>(it', d3). Inr d3)
               else Inr d1)"

definition do_erase :: "crv_it \<Rightarrow> nat \<Rightarrow> chunk list \<Rightarrow> chunk list" where
  "do_erase it index d =
     (let r = crv_get d it;
          (it', d') =
            (if fst r \<le> index
             then if fst r + 1 = snd r then crv_erase it d
                  else let d1 = it_adjust 0 (-1) it d in (crv_next d1 it, d1)
             else if it \<noteq> crv_begin d \<and> snd (crv_get d (crv_prev d it)) + 1 = fst r
             then crv_erase it (it_adjust 0 (int (snd r) - int (fst r)) (crv_prev d it) d)
             else (it, d))
      in shift_until_end (-1) it' d')"

definition is_erase_at :: "nat \<Rightarrow> chunk list \<Rightarrow> chunk list" where
  "is_erase_at index d =
     (let it = is_find index d in if crv_valid d it then do_erase it index d else d)"

definition is_erase_or_unshift :: "nat \<Rightarrow> chunk list \<Rightarrow> nat \<times> chunk list" where
  "is_erase_or_unshift index d =
     (let (it1, shifted1) = chunks_until (\<lambda>e _. e \<le> index) (-) d (crv_begin d) index;
          (it2, shifted2) = ranges_until (\<lambda>r _. snd r \<le> index) (-) d it1 shifted1
      in if \<not> crv_valid d it2 then (shifted2, d)
         else let shifted3 = (if fst (crv_get d it2) \<le> index then npos else shifted2)
           in (shifted3, do_erase it2 index d))"

subsection \<open>Removing\<close>

text \<open>The loop ends after at most one round more than there are ranges; the first argument bounds the rounds.\<close>

fun do_remove :: "nat \<Rightarrow> nat \<Rightarrow> crv_it \<Rightarrow> nat \<Rightarrow> nat \<Rightarrow> chunk list \<Rightarrow> (crv_it \<times> chunk list) result option" where
  "do_remove 0 mx it0 b e d = None"
| "do_remove (Suc fuel) mx it0 b e d =
     (let it = crv_find_from b it0 d
      in if \<not> (crv_valid d it \<and> fst (crv_get d it) < e) then Some (Inr (it, d))
         else let r = crv_get d it; b' = max (fst r) b
           in if fst r < b' \<and> e < snd r
              then let d1 = it_set (fst r) b' it d
                in (case crv_insert mx (crv_next d1 it) (e, snd r) d1 of
                      Inl err \<Rightarrow> Some (Inl err)
                    | Inr (it1, d2) \<Rightarrow> do_remove fuel mx (crv_prev d2 it1) b' e d2)
              else if b' = fst r \<and> snd r \<le> e
              then let (it1, d1) = crv_erase it d in do_remove fuel mx it1 b' e d1
              else if b' = fst r then do_remove fuel mx it b' e (it_set e (snd r) it d)
              else do_remove fuel mx it b' e (it_set (fst r) b' it d))"

definition remove_fuel :: "chunk list \<Rightarrow> nat" where
  "remove_fuel d = length (crv_ranges d) + 2"

definition is_remove :: "nat \<Rightarrow> nat \<Rightarrow> nat \<Rightarrow> chunk list \<Rightarrow> chunk list result option" where
  "is_remove mx index count d =
     map_option (\<lambda>r. rbind r (\<lambda>(it, d'). Inr d')) (do_remove (remove_fuel d) mx (is_find index d) index (index + count) d)"

fun is_remove_ranges :: "nat \<Rightarrow> range list \<Rightarrow> crv_it \<Rightarrow> chunk list \<Rightarrow> chunk list result option" where
  "is_remove_ranges mx [] it d = Some (Inr d)"
| "is_remove_ranges mx (r # rs) it d =
     (case do_remove (remove_fuel d) mx it (fst r) (snd r) d of
        None \<Rightarrow> None
      | Some (Inl err) \<Rightarrow> Some (Inl err)
      | Some (Inr (it', d')) \<Rightarrow> if \<not> crv_valid d' it' then Some (Inr d') else is_remove_ranges mx rs it' d')"

definition is_remove_all :: "nat \<Rightarrow> chunk list \<Rightarrow> chunk list \<Rightarrow> chunk list result option" where
  "is_remove_all mx values d = is_remove_ranges mx (crv_ranges values) (crv_begin d) d"

subsection \<open>Counting and shifting indices\<close>

text \<open>The loop of \<^verbatim>\<open>count\<close> over the rest of a chunk.\<close>

function count_rest :: "nat \<Rightarrow> chunk list \<Rightarrow> crv_it \<Rightarrow> nat \<Rightarrow> crv_it \<times> nat" where
  "count_rest end_index d it ret =
     (if crv_valid d it \<and> snd (crv_get d it) < end_index \<and> snd it \<noteq> 0
      then count_rest end_index d (crv_next d it) (ret + (snd (crv_get d it) - fst (crv_get d it))) else (it, ret))"
  by pat_completeness auto
termination
  by (relation "measures [\<lambda>(e, d, it, ret). length d - fst it, \<lambda>(e, d, it, ret). length (c_data (d ! fst it)) - snd it]")
    (auto simp: crv_valid_def crv_next_def next_chunk_def)

declare count_rest.simps [simp del]

definition is_count :: "nat \<Rightarrow> nat \<Rightarrow> chunk list \<Rightarrow> nat" where
  "is_count start_index end_index d =
     (let it = is_find start_index d; r = crv_get d it
      in if \<not> crv_valid d it \<or> end_index \<le> fst r then 0
         else if end_index \<le> snd r then min (snd r) end_index - max (fst r) start_index
         else
           let (early, it1, ret1) =
                 (if fst r < start_index \<or> snd it \<noteq> 0
                  then let ret = snd r - max (fst r) start_index;
                           (it', ret') = count_rest end_index d (crv_next d it) ret;
                           ret'' = (if crv_valid d it' \<and> fst (crv_get d it') < end_index \<and> snd it' \<noteq> 0
                                    then ret' + (end_index - fst (crv_get d it')) else ret')
                    in (\<not> crv_valid d it' \<or> end_index \<le> snd (crv_get d it'), it', ret'')
                  else (False, it, 0))
           in if early then ret1
              else let (it2, ret2) = chunks_until (\<lambda>e _. e \<le> end_index) (+) d it1 ret1;
                       (it3, ret3) = ranges_until (\<lambda>q _. snd q \<le> end_index) (+) d it2 ret2
                in if crv_valid d it3 \<and> fst (crv_get d it3) < end_index then ret3 + (end_index - fst (crv_get d it3))
                   else ret3)"

fun shift_ranges :: "range list \<Rightarrow> nat \<Rightarrow> nat" where
  "shift_ranges [] index = index"
| "shift_ranges (r # rs) index = (if index < fst r then index else shift_ranges rs (index + (snd r - fst r)))"

definition is_shift :: "nat \<Rightarrow> chunk list \<Rightarrow> nat" where
  "is_shift index d = shift_ranges (crv_ranges d) index"

definition is_unshift :: "nat \<Rightarrow> chunk list \<Rightarrow> nat" where
  "is_unshift index d = index - is_count 0 index d"

end
