(* ===== verification/Index_Set_Laws.thy ===== *)
theory Index_Set_Laws
  imports Index_Set
begin

text \<open>
  What the operations on index sets do. A well-formed set (\<open>crv_ok\<close>, the checks of \<open>verify\<close> and the bound on the
  chunk size) denotes the set \<open>idx\<close> of its indices.
\<close>

definition idx :: "range list \<Rightarrow> nat set" where
  "idx rs = (\<Union>r \<in> set rs. {fst r..<snd r})"

abbreviation indices :: "chunk list \<Rightarrow> nat set" where
  "indices d \<equiv> idx (crv_ranges d)"

lemma idx_simps [simp]: "idx [] = {}" "idx (r # rs) = {fst r..<snd r} \<union> idx rs" "idx (rs @ qs) = idx rs \<union> idx qs"
  by (auto simp: idx_def)

lemma set_as_indexes: "set (as_indexes d) = indices d"
  by (auto simp: as_indexes_def idx_def)

lemma idx_below: "x \<in> idx rs \<Longrightarrow> \<forall>r \<in> set rs. snd r \<le> k \<Longrightarrow> x < k"
  by (fastforce simp: idx_def)

lemma idx_above: "x \<in> idx rs \<Longrightarrow> \<forall>r \<in> set rs. k \<le> fst r \<Longrightarrow> k \<le> x"
  by (fastforce simp: idx_def)

subsection \<open>Shifting the rest\<close>

abbreviation shape :: "chunk list \<Rightarrow> nat list" where
  "shape d \<equiv> map (\<lambda>c. length (c_data c)) d"

lemma shape_ranges: "shape d = shape d' \<Longrightarrow> length (crv_ranges d) = length (crv_ranges d')"
  by (simp add: crv_ranges_def length_concat comp_def)

lemma it_adjust_shape: "shape (it_adjust f k it d) = shape d"
  by (auto simp: it_adjust_def Let_def map_update) (metis list_update_id map_update)

lemma it_set_shape: "shape (it_set f s it d) = shape d"
  by (auto simp: it_set_def Let_def map_update) (metis list_update_id map_update)

lemma crv_at_shape:
  assumes at: "crv_at d it as bs" and sh: "shape d' = shape d" and r: "crv_ranges d' = as' @ bs'" and l: "length as' = length as"
  shows "crv_at d' it as' bs'"
proof -
  have len: "length d' = length d" using sh map_eq_imp_length_eq by blast
  have lb: "length bs' = length bs"
    using shape_ranges [OF sh] crv_at_ranges [OF at] r l by simp
  show ?thesis
  proof (cases bs)
    case Nil
    then show ?thesis using at r len lb by (simp add: crv_at_end)
  next
    case (Cons b bs0)
    obtain d1 c d2 xs ys where d: "d = d1 @ c # d2" "c_data c = xs @ b # ys" "it = (length d1, length xs)"
      "as = crv_ranges d1 @ xs" "bs0 = ys @ crv_ranges d2"
      using at [unfolded Cons] by (rule crv_atE)
    have "shape d' = shape d1 @ length (c_data c) # shape d2" using sh d by simp
    then obtain d1' c' d2' where d': "d' = d1' @ c' # d2'" "shape d1' = shape d1" "length (c_data c') = length (c_data c)"
      by (auto simp: map_eq_append_conv map_eq_Cons_conv)
    define xs' where "xs' = take (length xs) (c_data c')"
    obtain y' ys' where c': "c_data c' = xs' @ y' # ys'" "length xs' = length xs"
      using d'(3) d(2) id_take_nth_drop [of "length xs" "c_data c'"] by (auto simp: xs'_def)
    have "length (crv_ranges d1' @ xs') = length as'"
      using shape_ranges [OF d'(2)] c'(2) l d(4) by simp
    moreover have "(crv_ranges d1' @ xs') @ (y' # ys' @ crv_ranges d2') = as' @ bs'"
      using r d'(1) c'(1) by simp
    ultimately have "as' = crv_ranges d1' @ xs'" "bs' = y' # ys' @ crv_ranges d2'"
      by (metis append_eq_append_conv)+
    moreover have "it = (length d1', length xs')" using d(3) c'(2) map_eq_imp_length_eq [OF d'(2)] by simp
    ultimately show ?thesis by (intro crv_atI [OF d'(1) c'(1)])
  qed
qed

definition shr :: "int \<Rightarrow> range \<Rightarrow> range" where
  "shr k r = (plus_diff (fst r) k, plus_diff (snd r) k)"

lemma shift_until_end_at:
  assumes "chunks_ok mx d" "crv_at d it as bs" "\<forall>r \<in> set bs. fst r \<le> snd r \<and> 0 \<le> int (fst r) + k"
  shows "chunks_ok mx (shift_until_end k it d)" "crv_ranges (shift_until_end k it d) = as @ map (shr k) bs"
    "shape (shift_until_end k it d) = shape d"
proof -
  have "chunks_ok mx (shift_until_end k it d) \<and> crv_ranges (shift_until_end k it d) = as @ map (shr k) bs \<and>
    shape (shift_until_end k it d) = shape d"
    using assms
  proof (induction bs arbitrary: d it as)
    case Nil
    then show ?case using crv_at_valid [OF Nil.prems(2)] crv_at_ranges [OF Nil.prems(2)]
      by (simp add: shift_until_end.simps)
  next
    case (Cons b bs)
    have b: "fst b \<le> snd b" "0 \<le> int (fst b) + k" using Cons.prems(3) by simp_all
    then have e: "int (fst (shr k b)) = int (fst b) + k" "int (snd (shr k b)) = int (snd b) + k"
      by (simp_all add: shr_def plus_diff_def)
    note S = crv_at_shift [OF Cons.prems(1,2) b(1) e]
    have n: "crv_at (it_shift k it d) (crv_next (it_shift k it d) it) (as @ [shr k b]) bs"
      using crv_at_next [OF S(1), of it as "(fst (shr k b), snd (shr k b))" bs] S(2) by simp
    have "shift_until_end k it d = shift_until_end k (crv_next (it_shift k it d) it) (it_shift k it d)"
      using crv_at_valid [OF Cons.prems(2)] by (subst shift_until_end.simps) (simp add: Let_def)
    then show ?case using Cons.IH [OF S(1) n] Cons.prems(3) by simp
  qed
  then show "chunks_ok mx (shift_until_end k it d)" "crv_ranges (shift_until_end k it d) = as @ map (shr k) bs"
    "shape (shift_until_end k it d) = shape d" by simp_all
qed

subsection \<open>Searching\<close>

text \<open>\<open>found x as bs\<close>: the position between \<open>as\<close> and \<open>bs\<close> is the one \<^verbatim>\<open>find\<close> returns for \<open>x\<close>.\<close>

definition found :: "nat \<Rightarrow> range list \<Rightarrow> range list \<Rightarrow> bool" where
  "found x as bs \<longleftrightarrow> (\<forall>r \<in> set as. snd r \<le> x) \<and> (bs \<noteq> [] \<longrightarrow> x < snd (hd bs))"

lemma crv_find_from_found:
  assumes "crv_ok mx d" "crv_at d it as bs" "\<forall>r \<in> set as. snd r \<le> x"
  shows "\<exists>as' bs'. crv_at d (crv_find_from x it d) as' bs' \<and> found x as' bs' \<and> as' @ bs' = as @ bs"
proof -
  define P where "P = (\<lambda>r :: range. snd r \<le> x)"
  have "crv_at d (crv_find_from x it d) (as @ takeWhile P bs) (dropWhile P bs)"
    using crv_at_find_from [OF _ _ assms(2,3)] assms(1) unfolding crv_ok_def P_def by blast
  moreover have "found x (as @ takeWhile P bs) (dropWhile P bs)"
    using assms(3) hd_dropWhile [of P bs] set_takeWhileD [of _ P bs]
    unfolding found_def P_def set_append Un_iff not_le by blast
  ultimately show ?thesis by (metis append.assoc takeWhile_dropWhile_id)
qed

lemma is_find_found:
  assumes "crv_ok mx d"
  shows "\<exists>as bs. crv_at d (is_find x d) as bs \<and> found x as bs \<and> crv_ranges d = as @ bs"
proof -
  have "crv_at d (crv_begin d) [] (crv_ranges d)" using assms by (intro crv_at_begin [of mx]) (simp add: crv_ok_def)
  from crv_find_from_found [OF assms this, of x] show ?thesis unfolding is_find_def by (metis append_Nil empty_iff empty_set)
qed

lemma found_contains:
  assumes "sep (as @ bs)" "found x as bs"
  shows "x \<in> idx (as @ bs) \<longleftrightarrow> bs \<noteq> [] \<and> fst (hd bs) \<le> x"
proof (cases bs)
  case Nil
  then show ?thesis using idx_below [of x as x] assms(2) by (auto simp: found_def)
next
  case (Cons b bs')
  have "x \<notin> idx as" using idx_below [of x as x] assms(2) by (auto simp: found_def)
  moreover have "x \<notin> idx bs'" using idx_above [of x bs' "snd b"] assms Cons
    by (fastforce simp: found_def sep_append sep_Cons intro: less_imp_le)
  ultimately show ?thesis using assms Cons by (auto simp: found_def)
qed

lemma is_contains_idx:
  assumes "crv_ok mx d"
  shows "is_contains x d \<longleftrightarrow> x \<in> indices d"
proof -
  obtain as bs where at: "crv_at d (is_find x d) as bs" "found x as bs" "crv_ranges d = as @ bs"
    using is_find_found [OF assms] by blast
  have "is_contains x d \<longleftrightarrow> bs \<noteq> [] \<and> fst (hd bs) \<le> x"
    using crv_at_valid [OF at(1)] crv_at_get [of d "is_find x d" as "hd bs" "tl bs"] at(1)
    by (cases bs) (auto simp: is_contains_def Let_def)
  then show ?thesis using found_contains at(2,3) assms by (simp add: crv_ok_def)
qed

subsection \<open>Adding an index\<close>

text \<open>The outcome of adding \<open>x\<close>: the iterator is at the range that holds it.\<close>

definition added :: "nat \<Rightarrow> nat \<Rightarrow> range list \<Rightarrow> range list \<Rightarrow> crv_it \<Rightarrow> chunk list \<Rightarrow> bool" where
  "added mx x as bs it' d' \<longleftrightarrow> (\<exists>as' b' bs'. chunks_ok mx d' \<and> crv_at d' it' as' (b' # bs') \<and> sep (as' @ b' # bs') \<and>
     fst b' \<le> x \<and> x < snd b' \<and> idx (as' @ b' # bs') = insert x (idx (as @ bs)) \<and>
     ((bs = [] \<or> x + 1 < fst (hd bs)) \<longrightarrow> snd b' = x + 1 \<and> bs' = bs))"

lemma addedI:
  "chunks_ok mx d' \<Longrightarrow> crv_at d' it' as' (b' # bs') \<Longrightarrow> sep (as' @ b' # bs') \<Longrightarrow> fst b' \<le> x \<Longrightarrow> x < snd b' \<Longrightarrow>
   idx (as' @ b' # bs') = insert x (idx (as @ bs)) \<Longrightarrow>
   ((bs = [] \<or> x + 1 < fst (hd bs)) \<Longrightarrow> snd b' = x + 1 \<and> bs' = bs) \<Longrightarrow> added mx x as bs it' d'"
  unfolding added_def by blast

lemma do_add_prev:
  assumes ok: "chunks_ok mx d" and at: "crv_at d it (as @ [a]) bs" and sp: "sep (as @ a # bs)"
    and x: "snd a = x" "bs \<noteq> [] \<longrightarrow> x < fst (hd bs)"
  shows "\<exists>it' d'. do_add mx it x d = Inr (it', d') \<and> added mx x (as @ [a]) bs it' d'"
proof -
  note P = crv_at_prev [OF ok at]
  have beg: "it \<noteq> crv_begin d" using crv_at_is_begin [OF ok at] by simp
  have gp: "crv_get d (crv_prev d it) = a" by (rule crv_at_get [OF P])
  have fa: "fst a < snd a" using sp by (simp add: sep_append sep_Cons)
  define d1 where "d1 = it_adjust 0 1 (crv_prev d it) d"
  define a1 where "a1 = (fst a, x + 1)"
  have d1: "chunks_ok mx d1" "crv_at d1 (crv_prev d it) as (a1 # bs)"
    using crv_at_adjust [OF ok P, of "fst a" 0 "x + 1" 1] fa x by (simp_all add: d1_def a1_def)
  have at1: "crv_at d1 it (as @ [a1]) bs"
    using crv_at_shape [OF at, of d1 "as @ [a1]" bs] crv_at_ranges [OF d1(2)] by (simp add: d1_def it_adjust_shape)
  have val: "crv_valid d it \<longleftrightarrow> bs \<noteq> []" using crv_at_valid [OF at] .
  have gt: "crv_get d it = hd bs" "crv_get d1 it = hd bs" if "bs \<noteq> []"
    using that crv_at_get [of d it "as @ [a]" "hd bs" "tl bs"] crv_at_get [of d1 it "as @ [a1]" "hd bs" "tl bs"] at at1 by simp_all
  have g1: "crv_get d1 (crv_prev d it) = a1" by (rule crv_at_get [OF d1(2)])
  show ?thesis
  proof (cases "bs \<noteq> [] \<and> fst (hd bs) = x + 1")
    case False
    then have "do_add mx it x d = Inr (crv_prev d it, d1)"
      using beg gp x gt val g1 by (auto simp: do_add_def Let_def d1_def [symmetric] a1_def)
    moreover have "added mx x (as @ [a]) bs (crv_prev d it) d1"
    proof (rule addedI [OF d1])
      show "sep (as @ a1 # bs)" using sp x False fa by (cases bs) (auto simp: sep_append sep_Cons a1_def)
      show "idx (as @ a1 # bs) = insert x (idx ((as @ [a]) @ bs))" using fa x by (auto simp: a1_def)
    qed (use fa x in \<open>simp_all add: a1_def\<close>)
    ultimately show ?thesis by blast
  next
    case True
    then obtain b bs2 where b: "bs = b # bs2" "fst b = x + 1" by (cases bs) auto
    have fb: "fst b < snd b" using sp b by (simp add: sep_append sep_Cons)
    define d2 where "d2 = it_adjust 0 (int (snd b) - int (fst b)) (crv_prev d it) d1"
    define a2 where "a2 = (fst a, snd b)"
    have d2: "chunks_ok mx d2" "crv_at d2 (crv_prev d it) as (a2 # bs)"
      using crv_at_adjust [OF d1, of "fst a" 0 "snd b" "int (snd b) - int (fst b)"] fa fb x b
      by (simp_all add: d2_def a2_def a1_def)
    have "crv_at d2 it (as @ [a2]) (b # bs2)"
      using crv_at_shape [OF at1, of d2 "as @ [a2]" bs] crv_at_ranges [OF d2(2)] b by (simp add: d2_def it_adjust_shape)
    then obtain it' d3 where e: "crv_erase it d2 = (it', d3)" "chunks_ok mx d3" "crv_at d3 it' (as @ [a2]) bs2"
      using crv_at_erase [OF d2(1)] by blast
    have "do_add mx it x d = Inr (crv_prev d3 it', d3)"
      using beg gp x gt val g1 True b e(1) [unfolded d2_def] by (simp add: do_add_def Let_def d1_def [symmetric] a1_def)
    moreover have "added mx x (as @ [a]) bs (crv_prev d3 it') d3"
    proof (rule addedI [OF e(2) crv_at_prev [OF e(2,3)]])
      show "sep (as @ a2 # bs2)" using sp x b fa fb by (auto simp: sep_append sep_Cons a2_def)
      show "idx (as @ a2 # bs2) = insert x (idx ((as @ [a]) @ bs))" using fa fb x b by (auto simp: a2_def)
    qed (use fa fb x b in \<open>simp_all add: a2_def\<close>)
    ultimately show ?thesis by blast
  qed
qed

lemma do_add_correct:
  assumes ok: "chunks_ok mx d" and mx: "2 \<le> mx" "even mx" and at: "crv_at d it as bs" and sp: "sep (as @ bs)"
    and fd: "found x as bs"
  shows "\<exists>it' d'. do_add mx it x d = Inr (it', d') \<and> added mx x as bs it' d'"
proof -
  have pre: "\<not> (it \<noteq> crv_begin d) \<or> snd (crv_get d (crv_prev d it)) \<le> x"
    and prev: "it \<noteq> crv_begin d \<Longrightarrow> as \<noteq> [] \<and> crv_get d (crv_prev d it) = last as"
  proof -
    show pv: "as \<noteq> [] \<and> crv_get d (crv_prev d it) = last as" if "it \<noteq> crv_begin d"
      using that crv_at_is_begin [OF ok at] crv_at_prev [OF ok, of it "butlast as" "last as" bs] at
        crv_at_get [of d "crv_prev d it" "butlast as" "last as" bs] by auto
    show "\<not> (it \<noteq> crv_begin d) \<or> snd (crv_get d (crv_prev d it)) \<le> x"
      using pv fd last_in_set [of as] unfolding found_def by metis
  qed
  have strict: "\<forall>r \<in> set as. snd r < x" if "as \<noteq> [] \<longrightarrow> snd (last as) \<noteq> x"
    using that fd sp sep_last_ge [of as] last_in_set [of as] unfolding found_def sep_append
    by (metis empty_iff empty_set le_neq_implies_less order_antisym)
  have ra: "rassert (\<not> (it \<noteq> crv_begin d) \<or> snd (crv_get d (crv_prev d it)) \<le> x) = Inr ()" using pre by (simp add: rassert_def)
  have np: "\<not> (it \<noteq> crv_begin d \<and> snd (crv_get d (crv_prev d it)) = x)" if "as \<noteq> [] \<longrightarrow> snd (last as) \<noteq> x"
    using that prev by metis
  note val = crv_at_valid [OF at]
  have gt: "crv_get d it = hd bs" if "bs \<noteq> []" using that crv_at_get [of d it as "hd bs" "tl bs"] at by simp
  consider (in_set) "bs \<noteq> []" "fst (hd bs) \<le> x"
    | (after) "bs \<noteq> [] \<longrightarrow> x < fst (hd bs)" "as \<noteq> []" "snd (last as) = x"
    | (before) "bs \<noteq> []" "fst (hd bs) = x + 1" "as \<noteq> [] \<longrightarrow> snd (last as) \<noteq> x"
    | (alone) "bs \<noteq> [] \<longrightarrow> x + 1 < fst (hd bs)" "as \<noteq> [] \<longrightarrow> snd (last as) \<noteq> x"
    by linarith
  then show ?thesis
  proof cases
    case in_set
    then have "do_add mx it x d = Inr (it, d)" using pre val gt fd by (auto simp: do_add_def Let_def found_def)
    moreover have "added mx x as bs it d"
    proof (rule addedI [OF ok, of it as "hd bs" "tl bs"])
      show "idx (as @ hd bs # tl bs) = insert x (idx (as @ bs))"
        using found_contains [OF sp fd] in_set by (simp add: insert_absorb)
    qed (use at sp fd in_set in \<open>simp_all add: found_def\<close>)
    ultimately show ?thesis by blast
  next
    case after
    then show ?thesis using do_add_prev [OF ok, of it "butlast as" "last as" bs x] at sp
      append_butlast_last_id [OF after(2)] by (metis append_Cons append_Nil append_assoc)
  next
    case before
    then obtain b bs' where b: "bs = b # bs'" "fst b = x + 1" by (cases bs) auto
    have fb: "fst b < snd b" using sp b by (simp add: sep_append sep_Cons)
    define d1 where "d1 = it_adjust (-1) 0 it d"
    have d1: "chunks_ok mx d1" "crv_at d1 it as ((x, snd b) # bs')"
      using crv_at_adjust [OF ok at [unfolded b(1)], of x "-1" "snd b" 0] fb b by (simp_all add: d1_def)
    have "do_add mx it x d = Inr (it, d1)"
      unfolding do_add_def Let_def ra using np [OF before(3)] val gt b by (auto simp: d1_def)
    moreover have "added mx x as bs it d1"
    proof (rule addedI [OF d1])
      show "sep (as @ (x, snd b) # bs')" using strict [OF before(3)] sp fb b by (auto simp: sep_append sep_Cons)
      show "idx (as @ (x, snd b) # bs') = insert x (idx (as @ bs))" using fb b by auto
    qed (use fb b in simp_all)
    ultimately show ?thesis by blast
  next
    case alone
    have s: "sep (as @ (x, x + 1) # bs)"
    proof (cases bs)
      case (Cons b bs')
      then show ?thesis using strict [OF alone(2)] sp alone(1) by (fastforce simp: sep_append sep_Cons)
    qed (use strict [OF alone(2)] sp in \<open>simp add: sep_append\<close>)
    obtain it' d' where i: "crv_insert mx it (x, x + 1) d = Inr (it', d')" "chunks_ok mx d'" "crv_at d' it' as ((x, x + 1) # bs)"
      using crv_at_insert [OF ok mx at s] by blast
    have "do_add mx it x d = Inr (it', d')"
      unfolding do_add_def Let_def ra using np [OF alone(2)] val gt i(1) alone(1) by auto
    moreover have "added mx x as bs it' d'"
      by (rule addedI [OF i(2,3) s]) auto
    ultimately show ?thesis by blast
  qed
qed

text \<open>Sizes of chunks for which the split of a full chunk is even, as in both builds.\<close>

definition chunk_size_ok :: "nat \<Rightarrow> bool" where
  "chunk_size_ok mx \<longleftrightarrow> 2 \<le> mx \<and> even mx"

lemma added_ok: "added mx x as bs it' d' \<Longrightarrow> crv_ok mx d' \<and> indices d' = insert x (idx (as @ bs))"
  unfolding added_def crv_ok_def by (metis crv_at_ranges)

lemma is_add_correct:
  assumes "crv_ok mx d" "chunk_size_ok mx"
  shows "\<exists>d'. is_add mx x d = Inr d' \<and> crv_ok mx d' \<and> indices d' = insert x (indices d)"
proof -
  obtain as bs where at: "crv_at d (is_find x d) as bs" "found x as bs" "crv_ranges d = as @ bs"
    using is_find_found [OF assms(1)] by blast
  obtain it' d' where a: "do_add mx (is_find x d) x d = Inr (it', d')" "added mx x as bs it' d'"
    using do_add_correct [of mx d "is_find x d" as bs x] assms at by (auto simp: crv_ok_def chunk_size_ok_def)
  show ?thesis using a(1) added_ok [OF a(2)] at(3) by (simp add: is_add_def)
qed

lemma is_add_list_correct:
  assumes "crv_ok mx d" "chunk_size_ok mx" "crv_at d it as bs" "sorted_wrt (<) is" "\<forall>i \<in> set is. \<forall>r \<in> set as. snd r \<le> i"
  shows "\<exists>d'. is_add_list mx is it d = Inr d' \<and> crv_ok mx d' \<and> indices d' = set is \<union> indices d"
  using assms
proof (induction "is" arbitrary: it d as bs)
  case (Cons x xs)
  obtain as1 bs1 where at: "crv_at d (crv_find_from x it d) as1 bs1" "found x as1 bs1" "as1 @ bs1 = as @ bs"
    using crv_find_from_found [OF Cons.prems(1,3), of x] Cons.prems(5) by auto
  have r: "crv_ranges d = as1 @ bs1" using crv_at_ranges [OF at(1)] .
  obtain it' d' where a: "do_add mx (crv_find_from x it d) x d = Inr (it', d')" "added mx x as1 bs1 it' d'"
    using do_add_correct [of mx d "crv_find_from x it d" as1 bs1 x] Cons.prems(1,2) at r
    by (auto simp: crv_ok_def chunk_size_ok_def)
  obtain as' b' bs' where A: "crv_at d' it' as' (b' # bs')" "sep (as' @ b' # bs')" "fst b' \<le> x"
    using a(2) by (auto simp: added_def)
  have "\<forall>i \<in> set xs. \<forall>r \<in> set as'. snd r \<le> i"
    using A(2,3) Cons.prems(4) by (fastforce simp: sep_append)
  from Cons.IH [OF _ Cons.prems(2) A(1) _ this] added_ok [OF a(2)] Cons.prems(4)
  show ?case using a(1) r by auto
qed auto

lemma as_indexes_sorted: "sep (crv_ranges d) \<Longrightarrow> sorted_wrt (<) (as_indexes d)"
proof -
  have "sorted_wrt (<) (concat (map (\<lambda>r. [fst r..<snd r]) rs))" if "sep rs" for rs
    using that
  proof (induction rs)
    case (Cons r rs)
    have "y < z" if "y < snd r" "q \<in> set rs" "fst q \<le> z" for y z q
      using Cons.prems that by (fastforce simp: sep_Cons)
    then show ?case using Cons by (auto simp: sorted_wrt_append sep_Cons strict_sorted_iff)
  qed simp
  then show "sep (crv_ranges d) \<Longrightarrow> sorted_wrt (<) (as_indexes d)" by (simp add: as_indexes_def)
qed

subsection \<open>Positions inserted and erased\<close>

lemma shr_simps [simp]: "fst (shr (int n) r) = fst r + n" "snd (shr (int n) r) = snd r + n"
  "fst (shr (-1) r) = fst r - 1" "snd (shr (-1) r) = snd r - 1"
  by (simp_all add: shr_def)

lemma sep_bounds: "sep rs \<Longrightarrow> r \<in> set rs \<Longrightarrow> fst r < snd r"
  by (simp add: sep_def)

lemma idx_shr: "y \<in> idx (map (shr (int n)) bs) \<longleftrightarrow> n \<le> y \<and> y - n \<in> idx bs"
  by (induction bs) auto

lemma idx_shr_neg: "\<forall>r \<in> set bs. 0 < fst r \<Longrightarrow> y \<in> idx (map (shr (-1)) bs) \<longleftrightarrow> Suc y \<in> idx bs"
  by (force simp: idx_def)

lemma sep_shr: "sep bs \<Longrightarrow> sep (map (shr (int n)) bs)"
  by (induction bs) (auto simp: sep_Cons)

lemma sep_shr_neg: "sep bs \<Longrightarrow> \<forall>r \<in> set bs. 0 < fst r \<Longrightarrow> sep (map (shr (-1)) bs)"
  by (induction bs) (fastforce simp: sep_Cons)+

lemma found_tail: "sep (as @ b # bs) \<Longrightarrow> found x as (b # bs) \<Longrightarrow> q \<in> set bs \<Longrightarrow> x + 1 < fst q"
  by (fastforce simp: sep_append sep_Cons found_def)

lemma insert_loop_correct:
  assumes "chunks_ok mx d" "chunk_size_ok mx" "crv_at d pos as bs" "sep (as @ bs)"
    "\<forall>r \<in> set as. snd r \<le> x" "bs \<noteq> [] \<longrightarrow> x + n < fst (hd bs)"
  shows "\<exists>d'. insert_loop mx n x pos d = Inr d' \<and> crv_ok mx d' \<and> indices d' = {x..<x + n} \<union> idx (as @ bs)"
  using assms
proof (induction n arbitrary: x pos d as)
  case 0
  then show ?case using crv_at_ranges [OF 0(3)] by (simp add: crv_ok_def)
next
  case (Suc n)
  have "bs \<noteq> [] \<longrightarrow> x < snd (hd bs)"
    using Suc.prems(4,6) by (cases bs) (auto simp: sep_append sep_Cons)
  then have "found x as bs" using Suc.prems(5) by (simp add: found_def)
  then obtain p d1 where a: "do_add mx pos x d = Inr (p, d1)" "added mx x as bs p d1"
    using do_add_correct [OF Suc.prems(1) _ _ Suc.prems(3,4), of x] Suc.prems(2) unfolding chunk_size_ok_def by metis
  moreover have "bs = [] \<or> x + 1 < fst (hd bs)" using Suc.prems(6) by auto
  ultimately obtain as' b' where A: "chunks_ok mx d1" "crv_at d1 p as' (b' # bs)" "sep (as' @ b' # bs)" "fst b' \<le> x"
    "snd b' = x + 1" "idx (as' @ b' # bs) = insert x (idx (as @ bs))"
    unfolding added_def by blast
  have le: "\<forall>r \<in> set (as' @ [b']). snd r \<le> Suc x"
    using A(3,4,5) by (fastforce simp: sep_append)
  have lt: "bs \<noteq> [] \<longrightarrow> Suc x + n < fst (hd bs)" using Suc.prems(6) by simp
  have sp: "sep ((as' @ [b']) @ bs)" using A(3) by simp
  obtain d' where "insert_loop mx n (Suc x) (crv_next d1 p) d1 = Inr d'" "crv_ok mx d'"
    "indices d' = {Suc x..<Suc x + n} \<union> idx ((as' @ [b']) @ bs)"
    using Suc.IH [OF A(1) Suc.prems(2) crv_at_next [OF A(1,2)] sp le lt] by blast
  moreover have "{x..<x + Suc n} = insert x {Suc x..<Suc x + n}" by auto
  moreover have "idx ((as' @ [b']) @ bs) = insert x (idx (as @ bs))" using A(6) by simp
  ultimately show ?case using a(1) by simp
qed

text \<open>What an insertion of \<open>n\<close> positions at \<open>x\<close> makes of a set.\<close>

definition after_insert :: "nat \<Rightarrow> nat \<Rightarrow> nat set \<Rightarrow> nat \<Rightarrow> bool" where
  "after_insert x n S y \<longleftrightarrow> (if y < x then y \<in> S else if y < x + n then False else y - n \<in> S)"

lemma after_insert_split:
  assumes "\<And>z. z \<in> A \<Longrightarrow> z < x" "\<And>z. z \<in> B \<Longrightarrow> x \<le> z"
  shows "after_insert x n (A \<union> B) y \<longleftrightarrow> y \<in> A \<or> (n \<le> y \<and> y - n \<in> B)"
proof (cases "y < x + n")
  case True
  then have "\<not> (n \<le> y \<and> y - n \<in> B)" using assms(2) [of "y - n"] by auto
  then show ?thesis using True assms(1) [of y] assms(2) [of y] by (auto simp: after_insert_def)
next
  case False
  then have "\<not> y - n < x" "\<not> y < x" by auto
  then show ?thesis using False assms(1) [of y] assms(1) [of "y - n"] by (auto simp: after_insert_def)
qed

lemma is_insert_at_correct:
  assumes ok: "crv_ok mx d" and mx: "chunk_size_ok mx" and n: "0 < n"
  shows "\<exists>d'. is_insert_at mx x n d = Inr d' \<and> crv_ok mx d' \<and>
    indices d' = {x..<x + n} \<union> {y. after_insert x n (indices d) y}"
proof -
  obtain as bs where at: "crv_at d (is_find x d) as bs" "found x as bs" "crv_ranges d = as @ bs"
    using is_find_found [OF ok] by blast
  have C: "chunks_ok mx d" "sep (as @ bs)" using ok at(3) by (simp_all add: crv_ok_def)
  define pos where "pos = is_find x d"
  note ap = at(1) [folded pos_def]
  note val = crv_at_valid [OF ap]
  show ?thesis
  proof (cases "bs \<noteq> [] \<and> fst (hd bs) \<le> x")
    case True
    then obtain b bs' where b: "bs = b # bs'" "fst b \<le> x" "x < snd b" "fst b < snd b"
      using at(2) C(2) by (cases bs) (auto simp: found_def sep_append sep_Cons)
    define d1 where "d1 = it_adjust 0 (int n) pos d"
    have d1: "chunks_ok mx d1" "crv_at d1 pos as ((fst b, snd b + n) # bs')"
      using crv_at_adjust [OF C(1) ap [unfolded b(1)], of "fst b" 0 "snd b + n" "int n"] b by (simp_all add: d1_def)
    have bs': "\<forall>r \<in> set bs'. fst r \<le> snd r \<and> 0 \<le> int (fst r) + int n"
      using C(2) b(1) by (auto simp: sep_append sep_Cons dest: sep_bounds intro: less_imp_le)
    define d2 where "d2 = shift_until_end (int n) (crv_next d1 pos) d1"
    have d2: "chunks_ok mx d2" "crv_ranges d2 = as @ (fst b, snd b + n) # map (shr (int n)) bs'"
      using shift_until_end_at(1,2) [OF d1(1) crv_at_next [OF d1] bs'] by (simp_all add: d2_def)
    have "is_insert_at mx x n d = Inr d2"
      using n val b crv_at_get [OF ap [unfolded b(1)]]
      by (simp add: is_insert_at_def Let_def pos_def [symmetric] d1_def [symmetric] d2_def [symmetric])
    moreover have "crv_ok mx d2"
      using d2 C(2) b sep_shr [of bs' n] by (auto simp: crv_ok_def sep_append sep_Cons intro: trans_less_add1)
    moreover have "y \<in> indices d2 \<longleftrightarrow> y \<in> {x..<x + n} \<union> {y. after_insert x n (indices d) y}" for y
    proof -
      have "z < fst b" if "z \<in> idx as" for z
        using that C(2) b(1) idx_below [of z as "fst b"] by (auto simp: sep_append intro: less_imp_le)
      moreover have "snd b < z" if "z \<in> idx bs'" for z
        using that C(2) b(1) idx_above [of z bs' "Suc (snd b)"] by (auto simp: sep_append sep_Cons Suc_le_eq)
      ultimately have "after_insert x n ((idx as \<union> {fst b..<x}) \<union> ({x..<snd b} \<union> idx bs')) y \<longleftrightarrow>
          y \<in> idx as \<union> {fst b..<x} \<or> (n \<le> y \<and> y - n \<in> {x..<snd b} \<union> idx bs')"
        using b by (intro after_insert_split) fastforce+
      moreover have "(idx as \<union> {fst b..<x}) \<union> ({x..<snd b} \<union> idx bs') = indices d" using b at(3) by auto
      ultimately show ?thesis using b by (auto simp: d2(2) idx_shr)
    qed
    ultimately show ?thesis by blast
  next
    case False
    have lt: "bs \<noteq> [] \<longrightarrow> x < fst (hd bs)" using False by auto
    have bs: "\<forall>r \<in> set bs. fst r \<le> snd r \<and> 0 \<le> int (fst r) + int n" using C(2) by (auto simp: sep_append dest: sep_bounds intro: less_imp_le)
    define d1 where "d1 = shift_until_end (int n) pos d"
    note S = shift_until_end_at [OF C(1) ap bs, folded d1_def]
    have at1: "crv_at d1 pos as (map (shr (int n)) bs)"
      using crv_at_shape [OF ap, of d1 as "map (shr (int n)) bs"] S(2,3) by simp
    have sep1: "sep (as @ map (shr (int n)) bs)" using C(2) sep_shr [of bs n] by (auto simp: sep_append intro: trans_less_add1)
    have "map (shr (int n)) bs \<noteq> [] \<longrightarrow> x + n < fst (hd (map (shr (int n)) bs))" using lt by (cases bs) auto
    then obtain d' where d': "insert_loop mx n x pos d1 = Inr d'" "crv_ok mx d'"
      "indices d' = {x..<x + n} \<union> idx (as @ map (shr (int n)) bs)"
      using insert_loop_correct [OF S(1) mx at1 sep1, of x n] at(2) unfolding found_def by metis
    have "is_insert_at mx x n d = Inr d'"
    proof (cases "crv_valid d pos")
      case True
      then have "d1 = shift_until_end (int n) (crv_next (it_shift (int n) pos d) pos) (it_shift (int n) pos d)"
        unfolding d1_def by (subst shift_until_end.simps) (simp add: Let_def)
      moreover have "\<not> fst (crv_get d pos) \<le> x"
        using lt True val crv_at_get [of d pos as "hd bs" "tl bs"] ap by simp
      ultimately show ?thesis using n True d'(1) by (simp add: is_insert_at_def Let_def pos_def [symmetric])
    next
      case False
      then have "d1 = d" unfolding d1_def by (subst shift_until_end.simps) simp
      then show ?thesis using n False d'(1) by (simp add: is_insert_at_def Let_def pos_def [symmetric])
    qed
    moreover have "after_insert x n (indices d) y \<longleftrightarrow> y \<in> idx (as @ map (shr (int n)) bs)" for y
    proof -
      have "\<forall>r \<in> set bs. x \<le> fst r" using lt C(2) by (cases bs) (auto simp: sep_append sep_Cons)
      then show ?thesis
        using after_insert_split [of "idx as" x "idx bs" n y] idx_below [of _ as x] idx_above [of _ bs x] at(2,3)
        by (auto simp: found_def idx_shr)
    qed
    ultimately show ?thesis using d'(2,3) by auto
  qed
qed

end
