(* ===== verification/Index_Set_Erase.thy ===== *)
theory Index_Set_Erase
  imports Index_Set_Laws
begin

text \<open>
  Shifting the indices behind an insertion or a deletion, removing ranges and counting: the remaining operations
  of \<^verbatim>\<open>IndexSet\<close> that work in place.
\<close>

subsection \<open>Making room for an insertion\<close>

lemma is_shift_for_insert_at_correct:
  assumes ok: "crv_ok mx d" and mx: "chunk_size_ok mx" and n: "0 < n"
  shows "\<exists>d'. is_shift_for_insert_at mx x n d = Inr d' \<and> crv_ok mx d' \<and> indices d' = {y. after_insert x n (indices d) y}"
proof -
  obtain as bs where at: "crv_at d (is_find x d) as bs" "found x as bs" "crv_ranges d = as @ bs"
    using is_find_found [OF ok] by blast
  have C: "chunks_ok mx d" "sep (as @ bs)" using ok at(3) by (simp_all add: crv_ok_def)
  define pos where "pos = is_find x d"
  note ap = at(1) [folded pos_def]
  have below: "z < x" if "z \<in> idx as" for z using that idx_below [of z as x] at(2) by (simp add: found_def)
  show ?thesis
  proof (cases bs)
    case Nil
    then have "is_shift_for_insert_at mx x n d = Inr d"
      using n crv_at_valid [OF ap] by (simp add: is_shift_for_insert_at_def Let_def pos_def [symmetric])
    moreover have "after_insert x n (indices d) y \<longleftrightarrow> y \<in> indices d" for y
      using after_insert_split [of "idx as" x "{}" n y, OF below] Nil at(3) by simp
    ultimately show ?thesis using ok by auto
  next
    case (Cons b bs')
    have b: "fst b < snd b" "x < snd b" "\<forall>q \<in> set bs'. snd b < fst q" "\<forall>a \<in> set as. snd a < fst b"
      using C(2) at(2) Cons by (auto simp: sep_append sep_Cons found_def)
    have bs: "\<forall>r \<in> set bs. fst r \<le> snd r \<and> 0 \<le> int (fst r) + int n"
      using C(2) by (auto simp: sep_append dest: sep_bounds intro: less_imp_le)
    have above: "snd b < z" if "z \<in> idx bs'" for z
      using that b(3) idx_above [of z bs' "Suc (snd b)"] by (auto simp: Suc_le_eq)
    define d1 where "d1 = shift_until_end (int n) pos d"
    note S = shift_until_end_at [OF C(1) ap bs, folded d1_def]
    have at1: "crv_at d1 pos as (shr (int n) b # map (shr (int n)) bs')"
      using crv_at_shape [OF ap, of d1 as "map (shr (int n)) bs"] S(2,3) Cons by simp
    have sep1: "sep (as @ map (shr (int n)) bs)"
      using C(2) sep_shr [of bs n] by (auto simp: sep_append intro: trans_less_add1)
    note g = crv_at_get [OF at1] and v = crv_at_valid [OF ap]
    show ?thesis
    proof (cases "fst b < x")
      case False
      then have "is_shift_for_insert_at mx x n d = Inr d1"
        using n g v Cons by (simp add: is_shift_for_insert_at_def Let_def pos_def [symmetric] d1_def [symmetric])
      moreover have "after_insert x n (indices d) y \<longleftrightarrow> y \<in> indices d1" for y
      proof -
        have "x \<le> z" if "z \<in> idx bs" for z using that above [of z] False b Cons by auto
        from after_insert_split [of "idx as" x "idx bs" n y, OF below this] show ?thesis
          using at(3) S(2) by (simp add: idx_shr)
      qed
      ultimately show ?thesis using S sep1 by (auto simp: crv_ok_def)
    next
      case True
      define d2 where "d2 = it_set (fst b) x pos d1"
      note D2 = crv_at_set [OF S(1) at1, of "fst b" x, folded d2_def]
      have s: "sep ((as @ [(fst b, x)]) @ (x + n, snd b + n) # map (shr (int n)) bs')"
        using C(2) Cons sep_shr [of bs' n] True b n by (fastforce simp: sep_append sep_Cons)
      obtain it' d' where i: "crv_insert mx (crv_next d2 pos) (x + n, snd b + n) d2 = Inr (it', d')" "chunks_ok mx d'"
        "crv_at d' it' (as @ [(fst b, x)]) ((x + n, snd b + n) # map (shr (int n)) bs')"
        using crv_at_insert [OF D2(1) _ _ crv_at_next [OF D2] s] mx unfolding chunk_size_ok_def by blast
      have "is_shift_for_insert_at mx x n d = Inr d'"
        using n g v Cons True i(1)
        by (simp add: is_shift_for_insert_at_def Let_def pos_def [symmetric] d1_def [symmetric] d2_def [symmetric])
      moreover have "after_insert x n (indices d) y \<longleftrightarrow> y \<in> indices d'" for y
      proof -
        have "indices d = (idx as \<union> {fst b..<x}) \<union> ({x..<snd b} \<union> idx bs')" using True b at(3) Cons by auto
        then have "after_insert x n (indices d) y \<longleftrightarrow>
          y \<in> idx as \<union> {fst b..<x} \<or> (n \<le> y \<and> y - n \<in> {x..<snd b} \<union> idx bs')"
          using after_insert_split [of "idx as \<union> {fst b..<x}" x "{x..<snd b} \<union> idx bs'" n y] below above b(2) by fastforce
        then show ?thesis using crv_at_ranges [OF i(3)] by (auto simp: idx_shr)
      qed
      moreover have "crv_ok mx d'" using i(2) s crv_at_ranges [OF i(3)] by (simp add: crv_ok_def)
      ultimately show ?thesis by blast
    qed
  qed
qed

subsection \<open>Erasing a position\<close>

definition after_erase :: "nat \<Rightarrow> nat set \<Rightarrow> nat \<Rightarrow> bool" where
  "after_erase x S y \<longleftrightarrow> (if y < x then y \<in> S else Suc y \<in> S)"

lemma after_erase_split:
  assumes "\<And>z. z \<in> A \<Longrightarrow> z < x" "\<And>z. z \<in> B \<Longrightarrow> x < z" "S - {x} = A \<union> B"
  shows "after_erase x S y \<longleftrightarrow> y \<in> A \<or> Suc y \<in> B"
proof (cases "y < x")
  case True
  then have "y \<in> S \<longleftrightarrow> y \<in> A \<union> B" unfolding assms(3) [symmetric] by simp
  then show ?thesis using True assms(2) [of y] assms(2) [of "Suc y"] by (auto simp: after_erase_def)
next
  case False
  then have "Suc y \<in> S \<longleftrightarrow> Suc y \<in> A \<union> B" unfolding assms(3) [symmetric] by simp
  then show ?thesis using False assms(1) [of y] assms(1) [of "Suc y"] by (auto simp: after_erase_def)
qed

text \<open>The range that holds the erased position, or the two ranges around it, become one that is shorter by one.\<close>

lemma erase_mid:
  assumes "f \<le> x" "x < s" "\<forall>r \<in> set as. snd r \<le> f" "\<forall>r \<in> set bs. s \<le> fst r"
    and S: "S - {x} = (idx as \<union> {f..<x}) \<union> ({Suc x..<s} \<union> idx bs)"
  shows "idx as \<union> {f..<s - 1} \<union> idx (map (shr (-1)) bs) = {y. after_erase x S y}"
proof -
  have a: "z < f" if "z \<in> idx as" for z using that idx_below [of z as f] assms(3) by simp
  have b: "s \<le> z" if "z \<in> idx bs" for z using that idx_above [of z bs s] assms(4) by simp
  have "\<forall>r \<in> set bs. 0 < fst r" using assms(2,4) by fastforce
  then have n: "y \<in> idx (map (shr (-1)) bs) \<longleftrightarrow> Suc y \<in> idx bs" for y by (rule idx_shr_neg)
  have "after_erase x S y \<longleftrightarrow> y \<in> idx as \<union> {f..<x} \<or> Suc y \<in> {Suc x..<s} \<union> idx bs" for y
    using a b assms(1,2) by (intro after_erase_split [OF _ _ S]) fastforce+
  then show ?thesis using assms(1,2) n by auto
qed

lemma shift_back_at:
  assumes "chunks_ok mx d" "crv_at d it as bs" "sep bs" "\<forall>r \<in> set bs. x < fst r"
  shows "chunks_ok mx (shift_until_end (-1) it d)" "crv_ranges (shift_until_end (-1) it d) = as @ map (shr (-1)) bs"
    "sep (map (shr (-1)) bs)"
proof -
  have "\<forall>r \<in> set bs. fst r \<le> snd r \<and> 0 \<le> int (fst r) + -1"
    using assms(3,4) sep_bounds [of bs] by (fastforce intro: less_imp_le)
  from shift_until_end_at(1,2) [OF assms(1,2) this]
  show "chunks_ok mx (shift_until_end (-1) it d)" "crv_ranges (shift_until_end (-1) it d) = as @ map (shr (-1)) bs" .
  show "sep (map (shr (-1)) bs)" using sep_shr_neg [OF assms(3)] assms(4) by fastforce
qed

lemma do_erase_correct:
  assumes ok: "chunks_ok mx d" and at: "crv_at d it as (b # bs)" and sp: "sep (as @ b # bs)" and fd: "found x as (b # bs)"
  shows "crv_ok mx (do_erase it x d) \<and> indices (do_erase it x d) = {y. after_erase x (idx (as @ b # bs)) y}"
proof -
  note g = crv_at_get [OF at]
  have b: "fst b < snd b" "x < snd b" "\<forall>q \<in> set bs. snd b < fst q" "\<forall>a \<in> set as. snd a < fst b"
    "\<forall>a \<in> set as. snd a \<le> x" "sep as" "sep bs" "\<forall>q \<in> set bs. x < fst q"
    using sp fd by (auto simp: sep_append sep_Cons found_def)
  have shift: "crv_ok mx (shift_until_end (-1) it' d') \<and>
      indices (shift_until_end (-1) it' d') = {y. after_erase x (idx (as @ b # bs)) y}"
    if "chunks_ok mx d'" "crv_at d' it' (cs @ (if f = s - 1 then [] else [(f, s - 1)])) bs" "f \<le> x" "x < s" "sep cs"
      "\<forall>r \<in> set cs. snd r < f" "s \<le> snd b"
      "idx (as @ b # bs) - {x} = (idx cs \<union> {f..<x}) \<union> ({Suc x..<s} \<union> idx bs)" for d' it' cs f s
  proof -
    note B = shift_back_at [OF that(1,2) b(7,8)]
    have "s - 1 < q - 1" if "snd b < q" for q using that \<open>s \<le> snd b\<close> \<open>x < s\<close> by arith
    then have lt: "\<forall>q \<in> set bs. s - 1 < fst q - 1" using b(3) by blast
    have "sep ((cs @ (if f = s - 1 then [] else [(f, s - 1)])) @ map (shr (-1)) bs)"
      using that(3-6) B(3) lt by (fastforce simp: sep_append)
    moreover have "\<forall>r \<in> set cs. snd r \<le> f" "\<forall>r \<in> set bs. s \<le> fst r" using that(6,7) b(3) by fastforce+
    then have "idx cs \<union> {f..<s - 1} \<union> idx (map (shr (-1)) bs) = {y. after_erase x (idx (as @ b # bs)) y}"
      by (intro erase_mid that(3,4,8))
    ultimately show ?thesis using B(1,2) by (auto simp: crv_ok_def simp del: after_erase_def)
  qed
  consider (single) "fst b \<le> x" "fst b + 1 = snd b" | (inside) "fst b \<le> x" "fst b + 1 \<noteq> snd b"
    | (join) as0 a where "x < fst b" "as = as0 @ [a]" "snd a + 1 = fst b"
    | (apart) "x < fst b" "as = [] \<or> snd (last as) + 1 \<noteq> fst b"
    by (metis append_butlast_last_id not_le)
  then show ?thesis
  proof cases
    case single
    obtain it' d' where e: "crv_erase it d = (it', d')" "chunks_ok mx d'" "crv_at d' it' as bs"
      using crv_at_erase [OF ok at] by blast
    have x: "x = fst b" "snd b = Suc x" using single b by auto
    have "do_erase it x d = shift_until_end (-1) it' d'" using single g e(1) by (simp add: do_erase_def Let_def)
    moreover have "idx (as @ b # bs) - {x} = (idx as \<union> {x..<x}) \<union> ({Suc x..<Suc x} \<union> idx bs)"
      using x b idx_below [of x as x] idx_above [of x bs "Suc x"] by fastforce
    ultimately show ?thesis using shift [of d' it' as x "Suc x"] e b x by simp
  next
    case inside
    define d1 where "d1 = it_adjust 0 (-1) it d"
    have d1: "chunks_ok mx d1" "crv_at d1 it as ((fst b, snd b - 1) # bs)"
      using crv_at_adjust [OF ok at, of "fst b" 0 "snd b - 1" "-1"] b(1) by (simp_all add: d1_def)
    have "do_erase it x d = shift_until_end (-1) (crv_next d1 it) d1" using inside g by (simp add: do_erase_def Let_def d1_def)
    moreover have "idx (as @ b # bs) - {x} = (idx as \<union> {fst b..<x}) \<union> ({Suc x..<snd b} \<union> idx bs)"
      using inside b idx_below [of x as "fst b"] idx_above [of x bs "Suc (snd b)"] by fastforce
    moreover have "fst b \<noteq> snd b - 1" using inside b(1) by arith
    ultimately show ?thesis using shift [of d1 "crv_next d1 it" as "fst b" "snd b"] d1(1) crv_at_next [OF d1] b inside by simp
  next
    case join
    define d1 where "d1 = it_adjust 0 (int (snd b) - int (fst b)) (crv_prev d it) d"
    note P = crv_at_prev [OF ok at [unfolded join(2)]]
    have x: "x = snd a" using join b(5) by simp
    have fa: "fst a < snd a" using b(6) join(2) by (simp add: sep_append)
    have d1: "chunks_ok mx d1" "crv_at d1 (crv_prev d it) as0 ((fst a, snd b - 1) # b # bs)"
      using crv_at_adjust [OF ok P, of "fst a" 0 "snd b - 1" "int (snd b) - int (fst b)"] b(1) fa join by (simp_all add: d1_def)
    have at1: "crv_at d1 it (as0 @ [(fst a, snd b - 1)]) (b # bs)"
      using crv_at_shape [OF at, of d1 "as0 @ [(fst a, snd b - 1)]" "b # bs"] crv_at_ranges [OF d1(2)] join(2)
      by (simp add: d1_def it_adjust_shape)
    obtain it' d' where e: "crv_erase it d1 = (it', d')" "chunks_ok mx d'" "crv_at d' it' (as0 @ [(fst a, snd b - 1)]) bs"
      using crv_at_erase [OF d1(1) at1] by blast
    have "it \<noteq> crv_begin d" using crv_at_is_begin [OF ok at] join by simp
    then have "do_erase it x d = shift_until_end (-1) it' d'"
      using join(1,3) g crv_at_get [OF P] e(1) [unfolded d1_def] by (simp add: do_erase_def Let_def)
    moreover have "idx (as @ b # bs) - {x} = (idx as0 \<union> {fst a..<x}) \<union> ({Suc x..<snd b} \<union> idx bs)"
      using join x fa b(4,6) idx_below [of x as0 "fst a"] idx_above [of x bs "Suc (snd b)"] b by (fastforce simp: sep_append)
    moreover have "fst a \<noteq> snd b - 1" "fst a \<le> x" using join(3) fa b(1) x by arith+
    ultimately show ?thesis
      using shift [of d' it' as0 "fst a" "snd b"] e b join x fa by (simp add: sep_append)
  next
    case apart
    have "snd (last as) + 1 < fst b" if "as \<noteq> []" using that apart b(4) last_in_set [of as] by fastforce
    then have lt: "\<forall>a \<in> set as. snd a < fst b - 1" using sep_last_ge [OF b(6)] by fastforce
    have "\<not> (it \<noteq> crv_begin d \<and> snd (crv_get d (crv_prev d it)) + 1 = fst b)"
      using apart(2) crv_at_is_begin [OF ok at] crv_at_prev [OF ok, of it "butlast as" "last as" "b # bs"] at
        crv_at_get [of d "crv_prev d it" "butlast as" "last as" "b # bs"] by auto
    then have "do_erase it x d = shift_until_end (-1) it d" using apart(1) g by (auto simp: do_erase_def Let_def)
    moreover have "sep (b # bs)" "\<forall>q \<in> set (b # bs). x < fst q" using b apart by (auto simp: sep_Cons)
    note B = shift_back_at [OF ok at this]
    moreover have "sep (as @ map (shr (-1)) (b # bs))"
      using B(3) b lt by (fastforce simp: sep_append)
    moreover have "idx as \<union> idx (map (shr (-1)) (b # bs)) = {y. after_erase x (idx (as @ b # bs)) y}"
    proof -
      have "after_erase x (idx (as @ b # bs)) y \<longleftrightarrow> y \<in> idx as \<or> Suc y \<in> idx (b # bs)" for y
        using idx_below [of _ as x] b(5) idx_above [of _ "b # bs" "Suc x"] b apart(1)
        by (intro after_erase_split) fastforce+
      then show ?thesis using idx_shr_neg [of "b # bs"] b apart(1) by fastforce
    qed
    ultimately show ?thesis by (simp add: crv_ok_def)
  qed
qed

lemma is_erase_at_correct:
  assumes ok: "crv_ok mx d"
  shows "crv_ok mx (is_erase_at x d) \<and> indices (is_erase_at x d) = {y. after_erase x (indices d) y}"
proof -
  obtain as bs where at: "crv_at d (is_find x d) as bs" "found x as bs" "crv_ranges d = as @ bs"
    using is_find_found [OF ok] by blast
  have C: "chunks_ok mx d" "sep (as @ bs)" using ok at(3) by (simp_all add: crv_ok_def)
  show ?thesis
  proof (cases bs)
    case Nil
    have "\<And>z. z \<in> idx as \<Longrightarrow> z < x" using idx_below [of _ as x] at(2) by (simp add: found_def)
    then have "after_erase x (indices d) y \<longleftrightarrow> y \<in> indices d" for y
      using after_erase_split [of "idx as" x "{}" "idx as" y] at(3) Nil by fastforce
    then show ?thesis using ok crv_at_valid [OF at(1)] Nil by (simp add: is_erase_at_def Let_def)
  next
    case (Cons b bs')
    then show ?thesis using do_erase_correct [OF C(1), of "is_find x d" as b bs' x] C(2) at crv_at_valid [OF at(1)]
      by (simp add: is_erase_at_def Let_def)
  qed
qed

subsection \<open>The accumulating loops\<close>

text \<open>An invariant of the ranges passed, the ranges ahead and the accumulator.\<close>

lemma chunks_until_rule:
  assumes "chunks_ok mx d" "d = d1 @ d2" "it = (length d1, 0)" "INV (crv_ranges d1) (crv_ranges d2) acc"
    and step: "\<And>as c d3 a. INV as (crv_ranges (c # d3)) a \<Longrightarrow> chunks_ok mx (c # d3) \<Longrightarrow> P (snd (last (c_data c))) a \<Longrightarrow>
      INV (as @ c_data c) (crv_ranges d3) (f a (rlens (c_data c)))"
  shows "\<exists>as bs it' acc'. chunks_until P f d it acc = (it', acc') \<and> crv_at d it' as bs \<and> INV as bs acc'"
  using assms(1-4)
proof (induction d2 arbitrary: d1 it acc)
  case Nil
  then have "\<not> crv_valid d it" by (simp add: crv_valid_def)
  then have "chunks_until P f d it acc = (it, acc)" by (subst chunks_until.simps) simp
  moreover have "crv_at d it (crv_ranges d1) []" using Nil by (simp add: crv_at_end)
  ultimately show ?case using Nil.prems(4) by fastforce
next
  case (Cons c d3)
  have c: "chunk_ok mx c" "chunks_ok mx (c # d3)" using Cons.prems(1,2) by simp_all
  have at: "crv_at d it (crv_ranges d1) (crv_ranges (c # d3))"
    using crv_at_first [OF c(2), of d1] Cons.prems(2,3) by simp
  then have v: "crv_valid d it" using crv_at_valid [OF at] c crv_ranges_empty [OF c(2)] by simp
  have g: "d ! fst it = c" "c_end c = snd (last (c_data c))" "c_count c = rlens (c_data c)"
    using Cons.prems(2,3) c(1) by (auto elim!: chunk_okE)
  show ?case
  proof (cases "P (c_end c) acc")
    case False
    then have "chunks_until P f d it acc = (it, acc)" using g(1) by (subst chunks_until.simps) simp
    then show ?thesis using at Cons.prems(4) by blast
  next
    case True
    then have "chunks_until P f d it acc = chunks_until P f d (next_chunk it) (f acc (c_count c))"
      using v g(1) by (subst chunks_until.simps) simp
    moreover have "INV (crv_ranges (d1 @ [c])) (crv_ranges d3) (f acc (c_count c))"
      using step [OF Cons.prems(4) c(2)] True g(2,3) by simp
    ultimately show ?thesis
      using Cons.IH [OF Cons.prems(1), of "d1 @ [c]" "next_chunk it" "f acc (c_count c)"] Cons.prems(2,3)
      by (simp add: next_chunk_def)
  qed
qed

lemma ranges_until_rule:
  assumes "chunks_ok mx d" "crv_at d it as bs" "INV as bs acc"
    and step: "\<And>as b bs a. INV as (b # bs) a \<Longrightarrow> P b a \<Longrightarrow> INV (as @ [b]) bs (f a (snd b - fst b))"
  shows "\<exists>as' bs' it' acc'. ranges_until P f d it acc = (it', acc') \<and> crv_at d it' as' bs' \<and> INV as' bs' acc' \<and>
    (bs' \<noteq> [] \<longrightarrow> \<not> P (hd bs') acc')"
  using assms(2,3)
proof (induction bs arbitrary: as it acc)
  case Nil
  have "ranges_until P f d it acc = (it, acc)" using crv_at_valid [OF Nil(1)] by (subst ranges_until.simps) simp
  then show ?case using Nil by blast
next
  case (Cons b bs)
  note v = crv_at_valid [OF Cons.prems(1)] and g = crv_at_get [OF Cons.prems(1)]
  show ?case
  proof (cases "P b acc")
    case False
    then have "ranges_until P f d it acc = (it, acc)" using g by (subst ranges_until.simps) simp
    then show ?thesis using Cons.prems False by fastforce
  next
    case True
    then have "ranges_until P f d it acc = ranges_until P f d (crv_next d it) (f acc (snd b - fst b))"
      using v g by (subst ranges_until.simps) simp
    then show ?thesis
      using Cons.IH [OF crv_at_next [OF assms(1) Cons.prems(1)] step [OF Cons.prems(2) True]] by simp
  qed
qed

text \<open>The two loops in sequence, as every client runs them.\<close>

lemma until_rule:
  assumes "chunks_ok mx d" "INV [] (crv_ranges d) acc"
    and "\<And>as c d3 a. INV as (crv_ranges (c # d3)) a \<Longrightarrow> chunks_ok mx (c # d3) \<Longrightarrow> P (snd (last (c_data c))) a \<Longrightarrow>
      INV (as @ c_data c) (crv_ranges d3) (f a (rlens (c_data c)))"
    and "\<And>as b bs a. INV as (b # bs) a \<Longrightarrow> Q b a \<Longrightarrow> INV (as @ [b]) bs (f a (snd b - fst b))"
  shows "\<exists>as bs it1 acc1 it2 acc2. chunks_until P f d (crv_begin d) acc = (it1, acc1) \<and>
    ranges_until Q f d it1 acc1 = (it2, acc2) \<and> crv_at d it2 as bs \<and> crv_ranges d = as @ bs \<and> INV as bs acc2 \<and>
    (bs \<noteq> [] \<longrightarrow> \<not> Q (hd bs) acc2)"
proof -
  have beg: "crv_begin d = (length ([] :: chunk list), 0)" by (simp add: crv_begin_def crv_end_def)
  obtain as bs it1 acc1 where 1: "chunks_until P f d (crv_begin d) acc = (it1, acc1)" "crv_at d it1 as bs" "INV as bs acc1"
    using chunks_until_rule [of mx d "[]" d "crv_begin d" INV acc P f, OF assms(1) _ beg _ assms(3)] assms(2)
    unfolding append_Nil crv_ranges_simps(1) by blast
  obtain as' bs' it2 acc2 where "ranges_until Q f d it1 acc1 = (it2, acc2)" "crv_at d it2 as' bs'" "INV as' bs' acc2"
    "bs' \<noteq> [] \<longrightarrow> \<not> Q (hd bs') acc2"
    using ranges_until_rule [of mx d it1 as bs INV acc1 Q f] 1 assms(1,4) by blast
  then show ?thesis using 1(1) crv_at_ranges by blast
qed

lemma chunk_ends: "sep (c_data c) \<Longrightarrow> snd (last (c_data c)) \<le> x \<Longrightarrow> r \<in> set (c_data c) \<Longrightarrow> snd r \<le> x"
  using sep_last_ge [of "c_data c" r] by simp


end
