(* ===== verification/Index_Set_Count.thy ===== *)
theory Index_Set_Count
  imports Index_Set_Erase
begin

text \<open>
  Counting indices, translating positions between a collection with and without the indices of a set, and
  removing ranges.
\<close>

subsection \<open>Counting\<close>

lemma finite_idx [simp]: "finite (idx rs)"
  by (simp add: idx_def)

lemma card_idx: "sep rs \<Longrightarrow> card (idx rs) = rlens rs"
proof (induction rs)
  case (Cons r rs)
  have "{fst r..<snd r} \<inter> idx rs = {}"
    using Cons.prems idx_above [of _ rs "Suc (snd r)"] by (fastforce simp: sep_Cons Suc_le_eq)
  then show ?case using Cons by (simp add: sep_Cons card_Un_disjoint)
qed simp

text \<open>The indices below a position that \<^verbatim>\<open>find\<close> returns.\<close>

lemma card_below:
  assumes sp: "sep (as @ bs)" and fd: "found x as bs"
  shows "card (idx (as @ bs) \<inter> {..<x}) = rlens as + (if bs = [] then 0 else x - fst (hd bs))"
proof -
  have a: "idx as \<inter> {..<x} = idx as" using idx_below [of _ as x] fd by (auto simp: found_def)
  have "card (idx (as @ bs) \<inter> {..<x}) = card (idx as) + card (idx bs \<inter> {..<x})"
  proof (cases bs)
    case (Cons b bs')
    have "idx as \<inter> (idx bs \<inter> {..<x}) = {}"
      using sp Cons idx_below [of _ as "fst b"] idx_above [of _ bs "fst b"]
      by (fastforce simp: sep_append sep_Cons simp del: idx_simps intro: less_imp_le)
    then show ?thesis using a by (simp add: Int_Un_distrib2 card_Un_disjoint)
  qed (use a in simp)
  moreover have "idx bs \<inter> {..<x} = {fst (hd bs)..<x}" if "bs \<noteq> []"
  proof -
    obtain b bs' where b: "bs = b # bs'" using \<open>bs \<noteq> []\<close> by (cases bs) auto
    have "x \<le> z" if "z \<in> idx bs'" for z
      using that sp fd b idx_above [of z bs' x] by (fastforce simp: sep_append sep_Cons found_def)
    then show ?thesis using b fd by (fastforce simp: found_def)
  qed
  ultimately show ?thesis using card_idx [of as] sp by (cases bs) (simp_all add: sep_append)
qed

lemma is_count_zero:
  assumes ok: "crv_ok mx d"
  shows "is_count 0 e d = card (indices d \<inter> {..<e})"
proof -
  have C: "chunks_ok mx d" "sep (crv_ranges d)" using ok by (simp_all add: crv_ok_def)
  obtain as0 bs0 where at0: "crv_at d (is_find 0 d) as0 bs0" "found 0 as0 bs0" "crv_ranges d = as0 @ bs0"
    using is_find_found [OF ok] by blast
  have "as0 = []" using at0(2,3) C(2) by (cases as0) (auto simp: found_def sep_Cons)
  then have b0: "is_find 0 d = crv_begin d" "bs0 = crv_ranges d" using crv_at_is_begin [OF C(1) at0(1)] at0(3) by simp_all
  note v0 = crv_at_valid [OF at0(1)]
  show ?thesis
  proof (cases bs0)
    case Nil
    then show ?thesis using v0 b0 by (simp add: is_count_def Let_def)
  next
    case (Cons r rs)
    note g = crv_at_get [OF at0(1) [unfolded Cons]]
    have sr: "fst r < snd r" "sep (r # rs)" using C(2) sep_Cons [of r rs] unfolding b0(2) [symmetric] Cons by simp_all
    show ?thesis
    proof (cases "e \<le> snd r")
      case True
      have "indices d \<inter> {..<e} = {fst r..<e}"
      proof -
        have "snd r < z" if "z \<in> idx rs" for z
          using that sr(2) idx_above [of z rs "Suc (snd r)"] by (auto simp: sep_Cons Suc_le_eq)
        then show ?thesis using True b0(2) Cons by fastforce
      qed
      then show ?thesis using True v0 Cons g by (simp add: is_count_def Let_def min_def)
    next
      case False
      define INV where "INV = (\<lambda>as (bs :: range list) a. sep (as @ bs) \<and> a = rlens as \<and> (\<forall>r \<in> set as. snd r \<le> e))"
      obtain as bs it1 acc1 it2 acc2 where L: "chunks_until (\<lambda>q _. q \<le> e) (+) d (crv_begin d) 0 = (it1, acc1)"
        "ranges_until (\<lambda>q _. snd q \<le> e) (+) d it1 acc1 = (it2, acc2)" "crv_at d it2 as bs" "crv_ranges d = as @ bs"
        "INV as bs acc2" "bs \<noteq> [] \<longrightarrow> \<not> snd (hd bs) \<le> e"
      proof -
        have "INV [] (crv_ranges d) 0" using C(2) by (simp add: INV_def)
        moreover have "INV (as @ c_data c) (crv_ranges d3) (a + rlens (c_data c))"
          if "INV as (crv_ranges (c # d3)) a" "snd (last (c_data c)) \<le> e" for as c d3 a
          using that chunk_ends [of c e] by (auto simp: INV_def sep_append)
        moreover have "INV (as @ [b]) bs (a + (snd b - fst b))" if "INV as (b # bs) a" "snd b \<le> e" for as b bs a
          using that by (auto simp: INV_def)
        ultimately show ?thesis
          using until_rule [OF C(1), of INV 0 "\<lambda>q _. q \<le> e" "(+)" "\<lambda>q _. snd q \<le> e"] that by blast
      qed
      have fd: "found e as bs" using L(5,6) by (auto simp: INV_def found_def)
      have o: "snd (crv_begin d) = 0" by (simp add: crv_begin_def crv_end_def)
      have "is_count 0 e d = acc2 + (if crv_valid d it2 \<and> fst (crv_get d it2) < e then e - fst (crv_get d it2) else 0)"
        using v0 Cons g False sr L(1,2) o by (simp add: is_count_def Let_def b0(1))
      moreover have "crv_valid d it2 \<longleftrightarrow> bs \<noteq> []" using crv_at_valid [OF L(3)] .
      moreover have "crv_get d it2 = hd bs" if "bs \<noteq> []" using that crv_at_get [of d it2 as "hd bs" "tl bs"] L(3) by simp
      ultimately show ?thesis using card_below [OF _ fd] L(4,5) by (auto simp: INV_def)
    qed
  qed
qed

lemma is_erase_or_unshift_correct:
  assumes ok: "crv_ok mx d"
  shows "\<exists>s d'. is_erase_or_unshift x d = (s, d') \<and> s = (if x \<in> indices d then npos else x - card (indices d \<inter> {..<x})) \<and>
    crv_ok mx d' \<and> indices d' = {y. after_erase x (indices d) y}"
proof -
  have C: "chunks_ok mx d" "sep (crv_ranges d)" using ok by (simp_all add: crv_ok_def)
  define INV where "INV = (\<lambda>as (bs :: range list) a. sep (as @ bs) \<and> a = x - rlens as \<and> (\<forall>r \<in> set as. snd r \<le> x))"
  obtain as bs it1 s1 it2 s2 where L: "chunks_until (\<lambda>q _. q \<le> x) (-) d (crv_begin d) x = (it1, s1)"
    "ranges_until (\<lambda>q _. snd q \<le> x) (-) d it1 s1 = (it2, s2)" "crv_at d it2 as bs" "crv_ranges d = as @ bs"
    "INV as bs s2" "bs \<noteq> [] \<longrightarrow> \<not> snd (hd bs) \<le> x"
  proof -
    have "INV [] (crv_ranges d) x" using C(2) by (simp add: INV_def)
    moreover have "INV (as @ c_data c) (crv_ranges d3) (a - rlens (c_data c))"
      if "INV as (crv_ranges (c # d3)) a" "snd (last (c_data c)) \<le> x" for as c d3 a
      using that chunk_ends [of c x] by (auto simp: INV_def sep_append)
    moreover have "INV (as @ [b]) bs (a - (snd b - fst b))" if "INV as (b # bs) a" "snd b \<le> x" for as b bs a
      using that by (auto simp: INV_def)
    ultimately show ?thesis
      using until_rule [OF C(1), of INV x "\<lambda>q _. q \<le> x" "(-)" "\<lambda>q _. snd q \<le> x"] that by blast
  qed
  have fd: "found x as bs" using L(5,6) by (auto simp: INV_def found_def)
  have sp: "sep (as @ bs)" using C(2) L(4) by simp
  have s2: "s2 = x - rlens as" using L(5) by (simp add: INV_def)
  have e: "is_erase_or_unshift x d = (if \<not> crv_valid d it2 then (s2, d)
      else (if fst (crv_get d it2) \<le> x then npos else s2, do_erase it2 x d))"
    using L(1,2) by (simp add: is_erase_or_unshift_def Let_def)
  note v = crv_at_valid [OF L(3)] and card = card_below [OF sp fd] and mem = found_contains [OF sp fd]
  show ?thesis
  proof (cases bs)
    case Nil
    have "\<And>z. z \<in> idx as \<Longrightarrow> z < x" using idx_below [of _ as x] fd by (simp add: found_def)
    then have "after_erase x (indices d) y \<longleftrightarrow> y \<in> indices d" for y
      using after_erase_split [of "idx as" x "{}" "idx as" y] L(4) Nil by fastforce
    then show ?thesis using e v Nil s2 card mem L(4) ok by simp
  next
    case (Cons b bs')
    have "crv_get d it2 = b" using crv_at_get L(3) Cons by blast
    then have "is_erase_or_unshift x d = (if fst b \<le> x then npos else s2, do_erase it2 x d)" using e v Cons by simp
    moreover note do_erase_correct [OF C(1) L(3) [unfolded Cons] sp [unfolded Cons] fd [unfolded Cons]]
    ultimately show ?thesis using s2 card mem L(4) Cons by auto
  qed
qed

subsection \<open>Shifting\<close>

lemma shift_ranges_pass:
  "\<forall>r \<in> set as. fst r \<le> x \<Longrightarrow> shift_ranges (as @ bs) x = shift_ranges bs (x + rlens as)"
proof (induction as arbitrary: x)
  case (Cons a as)
  have "\<forall>r \<in> set as. fst r \<le> x + (snd a - fst a)" using Cons.prems by (auto intro: trans_le_add1)
  from Cons.IH [OF this] show ?case using Cons.prems by (simp add: add.assoc)
qed simp

text \<open>The index that \<^verbatim>\<open>shift\<close> returns is the first free one with \<open>x\<close> free indices below it.\<close>

lemma shift_ranges_found:
  assumes "sep rs"
  shows "\<exists>as bs. rs = as @ bs \<and> found (shift_ranges rs x) as bs \<and> shift_ranges rs x = x + rlens as \<and>
    (bs \<noteq> [] \<longrightarrow> shift_ranges rs x < fst (hd bs))"
  using assms
proof (induction rs arbitrary: x)
  case (Cons r rs)
  show ?case
  proof (cases "x < fst r")
    case True
    then show ?thesis using Cons.prems by (intro exI [of _ "[]"] exI [of _ "r # rs"]) (auto simp: found_def sep_Cons)
  next
    case False
    define y where "y = x + (snd r - fst r)"
    have e: "shift_ranges (r # rs) x = shift_ranges rs y" using False by (simp add: y_def)
    obtain as bs where I: "rs = as @ bs" "found (shift_ranges rs y) as bs" "shift_ranges rs y = y + rlens as"
      "bs \<noteq> [] \<longrightarrow> shift_ranges rs y < fst (hd bs)"
      using Cons.IH [of y] Cons.prems unfolding sep_Cons by blast
    have "snd r \<le> y" using False Cons.prems by (simp add: y_def sep_Cons)
    then have "found (shift_ranges rs y) (r # as) bs" using I(2,3) by (simp add: found_def)
    then show ?thesis unfolding e using I by (intro exI [of _ "r # as"] exI [of _ bs]) (simp add: y_def)
  qed
qed (simp add: found_def)

lemma is_shift_free:
  assumes ok: "crv_ok mx d"
  shows "is_shift x d \<notin> indices d" "is_shift x d = x + card (indices d \<inter> {..<is_shift x d})"
proof -
  have sp: "sep (crv_ranges d)" using ok by (simp add: crv_ok_def)
  obtain as bs where I: "crv_ranges d = as @ bs" "found (is_shift x d) as bs" "is_shift x d = x + rlens as"
    "bs \<noteq> [] \<longrightarrow> is_shift x d < fst (hd bs)"
    using shift_ranges_found [OF sp, of x] unfolding is_shift_def by blast
  show "is_shift x d \<notin> indices d" using found_contains [OF _ I(2)] sp I(1,4) by auto
  show "is_shift x d = x + card (indices d \<inter> {..<is_shift x d})"
    using card_below [OF _ I(2)] sp I(1,3,4) by (cases bs) auto
qed

lemma is_unshift_shift: "crv_ok mx d \<Longrightarrow> is_unshift (is_shift x d) d = x"
  using is_shift_free(2) [of mx d x] is_count_zero [of mx d "is_shift x d"] by (simp add: is_unshift_def)

lemma is_add_shifted_correct:
  assumes ok: "crv_ok mx d" and mx: "chunk_size_ok mx"
  shows "\<exists>d'. is_add_shifted mx x d = Inr (is_shift x d, d') \<and> crv_ok mx d' \<and> indices d' = insert (is_shift x d) (indices d)"
proof -
  have C: "chunks_ok mx d" "sep (crv_ranges d)" using ok by (simp_all add: crv_ok_def)
  define INV where "INV = (\<lambda>as bs a. sep (as @ bs) \<and> shift_ranges bs a = is_shift x d \<and> (\<forall>r \<in> set as. snd r \<le> a))"
  obtain as bs it1 s1 it2 s2 where L: "chunks_until (\<lambda>e i. e \<le> i) (+) d (crv_begin d) x = (it1, s1)"
    "ranges_until (\<lambda>r i. fst r \<le> i) (+) d it1 s1 = (it2, s2)" "crv_at d it2 as bs" "crv_ranges d = as @ bs"
    "INV as bs s2" "bs \<noteq> [] \<longrightarrow> \<not> fst (hd bs) \<le> s2"
  proof -
    have "INV [] (crv_ranges d) x" using C(2) by (simp add: INV_def is_shift_def)
    moreover have "INV (as @ c_data c) (crv_ranges d3) (a + rlens (c_data c))"
      if I: "INV as (crv_ranges (c # d3)) a" and le: "snd (last (c_data c)) \<le> a" for as c d3 a
    proof -
      have s: "sep (c_data c)" using I by (simp add: INV_def sep_append)
      have en: "\<forall>r \<in> set (c_data c). snd r \<le> a" using chunk_ends [OF s le] by blast
      then have "\<forall>r \<in> set (c_data c). fst r \<le> a" using sep_bounds [OF s] by (meson less_imp_le order.trans)
      then show ?thesis using I en shift_ranges_pass [of "c_data c" a "crv_ranges d3"]
        by (auto simp: INV_def intro: trans_le_add1)
    qed
    moreover have "INV (as @ [b]) bs (a + (snd b - fst b))" if "INV as (b # bs) a" "fst b \<le> a" for as b bs a
      using that by (auto simp: INV_def intro: trans_le_add1)
    ultimately show ?thesis
      using until_rule [OF C(1), of INV x "\<lambda>e i. e \<le> i" "(+)" "\<lambda>r i. fst r \<le> i"] that by blast
  qed
  have sp: "sep (as @ bs)" and s2: "s2 = is_shift x d" "\<forall>r \<in> set as. snd r \<le> s2"
    using L(5,6) by (cases bs; auto simp: INV_def)+
  have fd: "found s2 as bs" using s2(2) L(6) sp by (cases bs) (auto simp: found_def sep_append sep_Cons)
  obtain it' d' where a: "do_add mx it2 s2 d = Inr (it', d')" "added mx s2 as bs it' d'"
    using do_add_correct [OF C(1) _ _ L(3) sp fd] mx unfolding chunk_size_ok_def by metis
  then show ?thesis using L(1,2,4) added_ok [OF a(2)] s2(1) by (simp add: is_add_shifted_def Let_def)
qed

subsection \<open>Removing\<close>

abbreviation hits :: "nat \<Rightarrow> nat \<Rightarrow> range list \<Rightarrow> nat" where
  "hits b e rs \<equiv> length (filter (\<lambda>r. b < snd r \<and> fst r < e) rs)"

lemma hits_mono: "b \<le> b' \<Longrightarrow> hits b' e rs \<le> hits b e rs"
  by (induction rs) auto

lemma hits_drop: "hits b e (dropWhile P rs) \<le> hits b e rs"
  by (induction rs) auto

text \<open>The outcome of removing the indices from \<open>b\<close> to \<open>e\<close>.\<close>

definition removed :: "nat \<Rightarrow> nat \<Rightarrow> nat \<Rightarrow> nat set \<Rightarrow> (crv_it \<times> chunk list) result option \<Rightarrow> bool" where
  "removed mx b e S r \<longleftrightarrow> (\<exists>it d as bs. r = Some (Inr (it, d)) \<and> chunks_ok mx d \<and> crv_at d it as bs \<and> sep (as @ bs) \<and>
     (\<forall>q \<in> set as. snd q \<le> e) \<and> idx (as @ bs) = S - {b..<e})"

lemma removed_cong: "removed mx b' e S' r \<Longrightarrow> S' - {b'..<e} = S - {b..<e} \<Longrightarrow> removed mx b e S r"
  unfolding removed_def by simp

text \<open>One round: the first range \<open>q\<close> that ends after \<open>b\<close> starts before \<open>e\<close>. Its part inside the interval goes.\<close>

definition cut :: "nat \<Rightarrow> nat \<Rightarrow> range \<Rightarrow> range list" where
  "cut b e q = (if fst q < b then [(fst q, b)] else []) @ (if e < snd q then [(e, snd q)] else [])"

lemma sep_cut:
  assumes "sep (as @ q # bs)" "b < e" "fst q < e" "b < snd q"
  shows "sep (as @ cut b e q @ bs)" "idx (cut b e q) = {fst q..<snd q} - {b..<e}"
proof -
  have s: "sep as" "sep bs" "fst q < snd q" "\<forall>a \<in> set as. snd a < fst q" "\<forall>r \<in> set bs. snd q < fst r"
    "\<forall>a \<in> set as. \<forall>r \<in> set bs. snd a < fst r"
    using assms(1) by (simp_all add: sep_append sep_Cons)
  then have "\<forall>a \<in> set as. snd a < e" "\<forall>r \<in> set bs. b < fst r" using assms(3,4) by fastforce+
  then show "sep (as @ cut b e q @ bs)" using s assms(2-4) by (simp add: cut_def sep_append sep_Cons)
  show "idx (cut b e q) = {fst q..<snd q} - {b..<e}" using assms(2-4) s(3) by (auto simp: cut_def)
qed

lemma do_remove_step:
  assumes ok: "chunks_ok mx d" and mx: "chunk_size_ok mx" and it: "it = crv_find_from b it0 d"
    and at: "crv_at d it as (q # bs)" and sp: "sep (as @ q # bs)" and q: "b < snd q" "fst q < e" "b < e"
  shows "\<exists>it' d'. do_remove (Suc fuel) mx it0 b e d = do_remove fuel mx it' (max (fst q) b) e d' \<and>
    chunks_ok mx d' \<and> crv_at d' it' as (cut b e q @ bs)"
proof -
  note v = crv_at_valid [OF at] and g = crv_at_get [OF at]
  have e: "do_remove (Suc fuel) mx it0 b e d =
     (if fst q < b \<and> e < snd q
      then let d1 = it_set (fst q) b it d
        in (case crv_insert mx (crv_next d1 it) (e, snd q) d1 of
              Inl err \<Rightarrow> Some (Inl err)
            | Inr (it1, d2) \<Rightarrow> do_remove fuel mx (crv_prev d2 it1) b e d2)
      else if b \<le> fst q \<and> snd q \<le> e
      then let (it1, d1) = crv_erase it d in do_remove fuel mx it1 (fst q) e d1
      else if b \<le> fst q then do_remove fuel mx it (fst q) e (it_set e (snd q) it d)
      else do_remove fuel mx it b e (it_set (fst q) b it d))"
    using v g q(2) by (simp add: it [symmetric] Let_def max_def)
  consider (both) "fst q < b" "e < snd q" | (erase) "b \<le> fst q" "snd q \<le> e" | (fore) "b \<le> fst q" "e < snd q"
    | (rear) "fst q < b" "snd q \<le> e" by linarith
  then show ?thesis
  proof cases
    case both
    define d1 where "d1 = it_set (fst q) b it d"
    note D = crv_at_set [OF ok at, of "fst q" b, folded d1_def]
    have s: "sep ((as @ [(fst q, b)]) @ (e, snd q) # bs)" using sep_cut(1) [OF sp q(3,2,1)] both by (simp add: cut_def)
    obtain it1 d2 where i: "crv_insert mx (crv_next d1 it) (e, snd q) d1 = Inr (it1, d2)" "chunks_ok mx d2"
      "crv_at d2 it1 (as @ [(fst q, b)]) ((e, snd q) # bs)"
      using crv_at_insert [OF D(1) _ _ crv_at_next [OF D] s] mx unfolding chunk_size_ok_def by blast
    then have "do_remove (Suc fuel) mx it0 b e d = do_remove fuel mx (crv_prev d2 it1) b e d2"
      using both e by (simp add: Let_def d1_def)
    moreover have "cut b e q @ bs = (fst q, b) # (e, snd q) # bs" "max (fst q) b = b" using both by (simp_all add: cut_def)
    ultimately show ?thesis using i(2) crv_at_prev [OF i(2,3)] by metis
  next
    case erase
    obtain it1 d1 where r: "crv_erase it d = (it1, d1)" "chunks_ok mx d1" "crv_at d1 it1 as bs"
      using crv_at_erase [OF ok at] by blast
    moreover have "cut b e q @ bs = bs" "max (fst q) b = fst q" using erase by (auto simp: cut_def max_def)
    moreover have "do_remove (Suc fuel) mx it0 b e d = do_remove fuel mx it1 (fst q) e d1" using erase e r(1) by simp
    ultimately show ?thesis by metis
  next
    case fore
    have "cut b e q @ bs = (e, snd q) # bs" "max (fst q) b = fst q" using fore by (auto simp: cut_def max_def)
    moreover have "do_remove (Suc fuel) mx it0 b e d = do_remove fuel mx it (fst q) e (it_set e (snd q) it d)"
      using fore e by simp
    ultimately show ?thesis using crv_at_set [OF ok at, of e "snd q"] by metis
  next
    case rear
    have "cut b e q @ bs = (fst q, b) # bs" "max (fst q) b = b" using rear by (auto simp: cut_def max_def)
    moreover have "do_remove (Suc fuel) mx it0 b e d = do_remove fuel mx it b e (it_set (fst q) b it d)"
      using rear e by simp
    ultimately show ?thesis using crv_at_set [OF ok at, of "fst q" b] by metis
  qed
qed

lemma do_remove_correct:
  assumes "chunks_ok mx d" "chunk_size_ok mx" "crv_at d it as bs" "sep (as @ bs)" "\<forall>r \<in> set as. snd r \<le> b" "b < e"
    "hits b e bs < fuel"
  shows "removed mx b e (idx (as @ bs)) (do_remove fuel mx it b e d)"
  using assms
proof (induction fuel arbitrary: d it as bs b)
  case (Suc fuel)
  define P where "P = (\<lambda>r :: range. snd r \<le> b)"
  define as1 bs1 it1 where "as1 = as @ takeWhile P bs" "bs1 = dropWhile P bs" "it1 = crv_find_from b it d"
  have r: "crv_ranges d = as @ bs" "as1 @ bs1 = as @ bs" using crv_at_ranges [OF Suc.prems(3)] by (simp_all add: as1_bs1_it1_def)
  have at: "crv_at d it1 as1 bs1"
    using crv_at_find_from [OF Suc.prems(1) _ Suc.prems(3,5)] Suc.prems(4) r(1) by (simp add: as1_bs1_it1_def P_def)
  have le: "\<forall>r \<in> set as1. snd r \<le> b"
    using Suc.prems(5) set_takeWhileD [of _ P bs] unfolding as1_bs1_it1_def P_def set_append by blast
  have hd: "bs1 \<noteq> [] \<longrightarrow> b < snd (hd bs1)" using hd_dropWhile [of P bs] unfolding as1_bs1_it1_def P_def not_le by blast
  have sp: "sep (as1 @ bs1)" using Suc.prems(4) r(2) by simp
  note v = crv_at_valid [OF at]
  have below: "z < b" if "z \<in> idx as1" for z using that idx_below [of z as1 b] le by simp
  show ?case
  proof (cases "bs1 \<noteq> [] \<and> fst (hd bs1) < e")
    case False
    have "crv_get d it1 = hd bs1" if "bs1 \<noteq> []" using that crv_at_get [of d it1 as1 "hd bs1" "tl bs1"] at by simp
    then have "do_remove (Suc fuel) mx it b e d = Some (Inr (it1, d))"
      using False v by (auto simp: as1_bs1_it1_def(3) [symmetric] Let_def)
    moreover have "e \<le> z" if "z \<in> idx bs1" for z
    proof -
      have "\<forall>r \<in> set bs1. e \<le> fst r" using False that sp by (cases bs1) (auto simp: sep_append sep_Cons)
      then show ?thesis using idx_above [OF that] by blast
    qed
    then have "idx (as1 @ bs1) = idx (as @ bs) - {b..<e}" unfolding r(2) [symmetric] using below by fastforce
    moreover have "\<forall>r \<in> set as1. snd r \<le> e" using le Suc.prems(6) by auto
    ultimately show ?thesis unfolding removed_def using Suc.prems(1) at sp by blast
  next
    case True
    then obtain q bs2 where q: "bs1 = q # bs2" "b < snd q" "fst q < e" using hd by (cases bs1) auto
    define b' where "b' = max (fst q) b"
    obtain it' d' where D: "do_remove (Suc fuel) mx it b e d = do_remove fuel mx it' b' e d'" "chunks_ok mx d'"
      "crv_at d' it' as1 (cut b e q @ bs2)"
      using do_remove_step [OF Suc.prems(1,2) as1_bs1_it1_def(3) at [unfolded q(1)] sp [unfolded q(1)] q(2,3) Suc.prems(6)]
      unfolding b'_def by blast
    note K = sep_cut [OF sp [unfolded q(1)] Suc.prems(6) q(3,2)]
    have "hits b' e (cut b e q) = 0" by (auto simp: cut_def b'_def)
    moreover have "hits b' e bs2 \<le> hits b e bs2" by (rule hits_mono) (simp add: b'_def)
    moreover have "Suc (hits b e bs2) \<le> hits b e bs"
      using hits_drop [of b e P bs] q unfolding as1_bs1_it1_def(2) [symmetric] by simp
    ultimately have f: "hits b' e (cut b e q @ bs2) < fuel" using Suc.prems(7) by simp
    have b': "b \<le> b'" "b' < e" "b' < snd q" using Suc.prems(6) q(2,3) sp [unfolded q(1)] by (auto simp: b'_def sep_append sep_Cons)
    then have "\<forall>r \<in> set as1. snd r \<le> b'" using le by auto
    from Suc.IH [OF D(2) Suc.prems(2) D(3) K(1) this b'(2) f]
    have "removed mx b' e (idx (as1 @ cut b e q @ bs2)) (do_remove (Suc fuel) mx it b e d)" using D(1) by simp
    moreover have "idx (as1 @ cut b e q @ bs2) - {b'..<e} = idx (as @ bs) - {b..<e}"
    proof -
      have "snd q < z" if "z \<in> idx bs2" for z
        using that sp [unfolded q(1)] idx_above [of z bs2 "Suc (snd q)"] by (auto simp: sep_append sep_Cons Suc_le_eq)
      then have "idx bs2 - {b'..<e} = idx bs2 - {b..<e}" using b' q(2) by fastforce
      moreover have "idx as1 - {b'..<e} = idx as1 - {b..<e}" using below b'(1) by fastforce
      moreover have "({fst q..<snd q} - {b..<e}) - {b'..<e} = {fst q..<snd q} - {b..<e}" using b'(1) by auto
      ultimately show ?thesis unfolding r(2) [symmetric] q(1) idx_simps K(2) Un_Diff by blast
    qed
    ultimately show ?thesis by (rule removed_cong)
  qed
qed simp

lemma is_remove_correct:
  assumes ok: "crv_ok mx d" and mx: "chunk_size_ok mx" and n: "0 < n"
  shows "\<exists>d'. is_remove mx x n d = Some (Inr d') \<and> crv_ok mx d' \<and> indices d' = indices d - {x..<x + n}"
proof -
  obtain as bs where at: "crv_at d (is_find x d) as bs" "found x as bs" "crv_ranges d = as @ bs"
    using is_find_found [OF ok] by blast
  have C: "chunks_ok mx d" "sep (as @ bs)" using ok at(3) by (simp_all add: crv_ok_def)
  have "hits x (x + n) bs < remove_fuel d" using at(3) length_filter_le [of _ bs] by (simp add: remove_fuel_def less_Suc_eq_le le_SucI trans_le_add2)
  then have "removed mx x (x + n) (indices d) (do_remove (remove_fuel d) mx (is_find x d) x (x + n) d)"
    using do_remove_correct [OF C(1) mx at(1) C(2)] at(2,3) n by (simp add: found_def)
  then show ?thesis unfolding removed_def is_remove_def crv_ok_def
    by (elim exE conjE) (simp add: crv_at_ranges)
qed

lemma is_remove_ranges_correct:
  assumes "chunks_ok mx d" "chunk_size_ok mx" "crv_at d it as bs" "sep (as @ bs)" "sep rs" "\<forall>r \<in> set rs. \<forall>q \<in> set as. snd q \<le> fst r"
  shows "\<exists>d'. is_remove_ranges mx rs it d = Some (Inr d') \<and> crv_ok mx d' \<and> indices d' = idx (as @ bs) - idx rs"
  using assms
proof (induction rs arbitrary: d it as bs)
  case Nil
  then show ?case using crv_at_ranges [OF Nil(3)] by (simp add: crv_ok_def)
next
  case (Cons r rs)
  have r: "fst r < snd r" "sep rs" "\<forall>q \<in> set rs. snd r < fst q" using Cons.prems(5) by (simp_all add: sep_Cons)
  have "hits (fst r) (snd r) bs < remove_fuel d"
    using crv_at_ranges [OF Cons.prems(3)] by (simp add: remove_fuel_def less_Suc_eq_le le_SucI trans_le_add2)
  then have "removed mx (fst r) (snd r) (idx (as @ bs)) (do_remove (remove_fuel d) mx it (fst r) (snd r) d)"
    using do_remove_correct [OF Cons.prems(1-4)] Cons.prems(6) r(1) by simp
  then obtain it' d' as' bs' where D: "do_remove (remove_fuel d) mx it (fst r) (snd r) d = Some (Inr (it', d'))"
    "chunks_ok mx d'" "crv_at d' it' as' bs'" "sep (as' @ bs')" "\<forall>q \<in> set as'. snd q \<le> snd r"
    "idx (as' @ bs') = idx (as @ bs) - {fst r..<snd r}"
    unfolding removed_def by blast
  show ?case
  proof (cases bs')
    case Nil
    have "indices d' = idx (as @ bs) - idx (r # rs)"
    proof -
      have "z < snd r" if "z \<in> idx as'" for z using that D(5) idx_below [of z as' "snd r"] by simp
      moreover have "snd r < z" if "z \<in> idx rs" for z
        using that r(3) idx_above [of z rs "Suc (snd r)"] by (auto simp: Suc_le_eq)
      ultimately have "idx as' \<inter> idx rs = {}" by fastforce
      moreover have "indices d' = idx as'" "idx as' = idx (as @ bs) - {fst r..<snd r}"
        using D(6) crv_at_ranges [OF D(3)] Nil by simp_all
      ultimately show ?thesis by auto
    qed
    then show ?thesis using D(1,2,4) crv_at_ranges [OF D(3)] crv_at_valid [OF D(3)] Nil by (simp add: crv_ok_def)
  next
    case (Cons b2 bs2)
    have "\<forall>r' \<in> set rs. \<forall>q \<in> set as'. snd q \<le> fst r'" using D(5) r(3) by fastforce
    from Cons.IH [OF D(2) Cons.prems(2) D(3,4) r(2) this] show ?thesis
      using D(1,6) crv_at_valid [OF D(3)] Cons by auto
  qed
qed

lemma is_remove_all_correct:
  assumes "crv_ok mx d" "chunk_size_ok mx" "crv_ok mx v"
  shows "\<exists>d'. is_remove_all mx v d = Some (Inr d') \<and> crv_ok mx d' \<and> indices d' = indices d - indices v"
proof -
  have C: "chunks_ok mx d" "sep ([] @ crv_ranges d)" "sep (crv_ranges v)" using assms(1,3) by (simp_all add: crv_ok_def)
  from is_remove_ranges_correct [OF C(1) assms(2) crv_at_begin [OF C(1)] C(2,3)] show ?thesis by (simp add: is_remove_all_def)
qed

end
