(* ===== verification/Index_Set_Bulk.thy ===== *)
theory Index_Set_Bulk
  imports Index_Set_Count
begin

text \<open>
  The operations of \<^verbatim>\<open>IndexSet\<close> that combine two sets in one pass. They write the resulting indices in order to a
  \<^verbatim>\<open>ChunkedRangeVectorBuilder\<close>, which merges neighbours into ranges and fills one chunk after the other. Each pass is
  first related to the list of indices it pushes.
\<close>

subsection \<open>The builder\<close>

record builder =
  b_data :: "chunk list"
  b_outer :: nat

definition empty_chunk :: chunk where
  "empty_chunk = \<lparr>c_data = [], c_begin = 0, c_end = 0, c_count = 0\<rparr>"

definition builder_new :: "nat \<Rightarrow> chunk list \<Rightarrow> builder" where
  "builder_new mx expected =
     \<lparr>b_data = replicate (sum_list (map (\<lambda>c. length (c_data c)) expected) div mx + 1) empty_chunk, b_outer = 0\<rparr>"

definition builder_push :: "nat \<Rightarrow> range \<Rightarrow> builder \<Rightarrow> builder" where
  "builder_push mx r b =
     (let c = b_data b ! b_outer b; n = snd r - fst r; lst = last (c_data c);
          upd = (\<lambda>c'. b\<lparr>b_data := (b_data b)[b_outer b := c']\<rparr>)
      in if c_data c = [] then upd (c\<lparr>c_data := [r], c_count := n, c_begin := fst r\<rparr>)
         else if fst r = snd lst
         then upd (c\<lparr>c_data := butlast (c_data c) @ [(fst lst, snd r)], c_count := c_count c + n\<rparr>)
         else if length (c_data c) < mx then upd (c\<lparr>c_data := c_data c @ [r], c_count := c_count c + n\<rparr>)
         else let d1 = (b_data b)[b_outer b := c\<lparr>c_end := snd lst\<rparr>]; o1 = Suc (b_outer b)
           in if length d1 \<le> o1
              then \<lparr>b_data = d1 @ [\<lparr>c_data = [r], c_begin = fst r, c_end = 0, c_count = 1\<rparr>], b_outer = o1\<rparr>
              else let c' = d1 ! o1
                in \<lparr>b_data = d1[o1 := c'\<lparr>c_data := c_data c' @ [r], c_begin := fst r, c_count := n\<rparr>], b_outer = o1\<rparr>)"

definition builder_push_index :: "nat \<Rightarrow> nat \<Rightarrow> builder \<Rightarrow> builder" where
  "builder_push_index mx i b = builder_push mx (i, i + 1) b"

definition builder_finalize :: "builder \<Rightarrow> chunk list" where
  "builder_finalize b =
     (if b_data b = [] then []
      else let d = take (Suc (b_outer b)) (b_data b)
        in if c_data (last d) = [] then butlast d
           else butlast d @ [(last d)\<lparr>c_end := snd (last (c_data (last d)))\<rparr>])"

subsection \<open>The passes\<close>

fun insert_pass :: "nat \<Rightarrow> nat list \<Rightarrow> nat list \<Rightarrow> nat \<Rightarrow> builder \<Rightarrow> builder" where
  "insert_pass mx (x # xs) (y # ys) shift b =
     (if x + shift < y then insert_pass mx xs (y # ys) shift (builder_push_index mx (x + shift) b)
      else insert_pass mx (x # xs) ys (Suc shift) (builder_push_index mx y b))"
| "insert_pass mx (x # xs) [] shift b = insert_pass mx xs [] shift (builder_push_index mx (x + shift) b)"
| "insert_pass mx [] (y # ys) shift b = insert_pass mx [] ys shift (builder_push_index mx y b)"
| "insert_pass mx [] [] shift b = b"

definition is_insert_at_all :: "nat \<Rightarrow> chunk list \<Rightarrow> chunk list \<Rightarrow> chunk list" where
  "is_insert_at_all mx positions d =
     (if positions = [] then d
      else if d = [] then positions
      else builder_finalize (insert_pass mx (as_indexes d) (as_indexes positions) 0 (builder_new mx d)))"

fun shift_pass :: "nat \<Rightarrow> nat list \<Rightarrow> nat list \<Rightarrow> nat \<Rightarrow> builder \<Rightarrow> builder" where
  "shift_pass mx (x # xs) (y # ys) shift b =
     (if x + shift < y then shift_pass mx xs (y # ys) shift (builder_push_index mx (x + shift) b)
      else shift_pass mx (x # xs) ys (Suc shift) b)"
| "shift_pass mx (x # xs) [] shift b = shift_pass mx xs [] shift (builder_push_index mx (x + shift) b)"
| "shift_pass mx [] ys shift b = b"

definition is_shift_for_insert_at_all :: "nat \<Rightarrow> chunk list \<Rightarrow> chunk list \<Rightarrow> chunk list" where
  "is_shift_for_insert_at_all mx values d =
     (if d = [] \<or> values = [] then d
      else if c_end (last d) \<le> c_begin (hd values) then d
      else builder_finalize (shift_pass mx (as_indexes d) (as_indexes values) 0 (builder_new mx d)))"

fun erase_pass :: "nat \<Rightarrow> nat list \<Rightarrow> nat list \<Rightarrow> nat \<Rightarrow> builder \<Rightarrow> builder" where
  "erase_pass mx (x # xs) (y # ys) shift b =
     (if x < y then erase_pass mx xs (y # ys) shift (builder_push_index mx (x - shift) b)
      else if x = y then erase_pass mx xs ys (Suc shift) b
      else erase_pass mx (x # xs) ys (Suc shift) b)"
| "erase_pass mx (x # xs) [] shift b = erase_pass mx xs [] shift (builder_push_index mx (x - shift) b)"
| "erase_pass mx [] ys shift b = b"

definition is_erase_at_all :: "nat \<Rightarrow> chunk list \<Rightarrow> chunk list \<Rightarrow> chunk list" where
  "is_erase_at_all mx positions d =
     (if d = [] \<or> positions = [] then d
      else builder_finalize (erase_pass mx (as_indexes d) (as_indexes positions) 0 (builder_new mx d)))"

text \<open>\<^verbatim>\<open>add_shifted_by\<close>: the ranges of \<open>shifted_by\<close> that start at or before the index, the old ranges that lie before
  the translated index, and the index itself. Debug builds also compare the number of indices at the end.\<close>

fun pass_shifts :: "nat \<Rightarrow> range list \<Rightarrow> nat \<Rightarrow> nat \<Rightarrow> range list \<times> nat \<times> nat" where
  "pass_shifts index [] new_shift skip_until = ([], new_shift, skip_until)"
| "pass_shifts index (r # rs) new_shift skip_until =
     (if fst r \<le> index then pass_shifts index rs (new_shift + (snd r - fst r)) (snd r) else (r # rs, new_shift, skip_until))"

fun pass_olds :: "nat \<Rightarrow> nat \<Rightarrow> range list \<Rightarrow> nat \<Rightarrow> builder \<Rightarrow> range list \<times> nat \<times> builder" where
  "pass_olds mx base [] old_shift b = ([], old_shift, b)"
| "pass_olds mx base (r # rs) old_shift b =
     (if fst r \<le> base + old_shift
      then pass_olds mx base rs (old_shift + (snd r - fst r)) (fold (builder_push_index mx) [fst r..<snd r] b)
      else (r # rs, old_shift, b))"

fun shifted_by_pass ::
  "nat \<Rightarrow> nat list \<Rightarrow> range list \<Rightarrow> nat \<Rightarrow> nat \<Rightarrow> range list \<Rightarrow> nat \<Rightarrow> builder \<Rightarrow> (range list \<times> builder) result" where
  "shifted_by_pass mx [] shifts new_shift skip_until olds old_shift b = Inr (olds, b)"
| "shifted_by_pass mx (index # is) shifts new_shift skip_until olds old_shift b =
     (let (shifts', new_shift', skip_until') = pass_shifts index shifts new_shift skip_until
      in if index < skip_until' then shifted_by_pass mx is shifts' new_shift' skip_until' olds old_shift b
         else let (olds', old_shift', b') = pass_olds mx (index - new_shift') olds old_shift b
           in rbind (rassert (new_shift' \<le> index)) (\<lambda>_.
                shifted_by_pass mx is shifts' new_shift' skip_until' olds' old_shift'
                  (builder_push_index mx (index - new_shift' + old_shift') b')))"

definition is_add_shifted_by :: "nat \<Rightarrow> chunk list \<Rightarrow> chunk list \<Rightarrow> chunk list \<Rightarrow> chunk list result" where
  "is_add_shifted_by mx shifted_by values d =
     (if values = [] then Inr d
      else rbind (shifted_by_pass mx (as_indexes values) (crv_ranges shifted_by) 0 0 (crv_ranges d) 0 (builder_new mx d))
        (\<lambda>(olds, b). Inr (builder_finalize (fold (builder_push mx) olds b))))"

subsection \<open>What the builder builds\<close>

text \<open>The chunks before the current one are complete, the current one lacks its end, the others are fresh.\<close>

definition b_rep :: "nat \<Rightarrow> builder \<Rightarrow> range list \<Rightarrow> bool" where
  "b_rep mx b rs \<longleftrightarrow> (\<exists>done cur k e. b_data b = done @ cur # replicate k empty_chunk \<and> b_outer b = length done \<and>
     chunks_ok mx done \<and> rs = crv_ranges done @ c_data cur \<and>
     (if c_data cur = [] then done = [] \<and> cur = empty_chunk
      else length (c_data cur) \<le> mx \<and> cur = (mk_chunk (c_data cur))\<lparr>c_end := e\<rparr>))"

lemma b_rep_new: "b_rep mx (builder_new mx d) []"
  unfolding b_rep_def builder_new_def
  by (intro exI [of _ "[]"] exI [of _ empty_chunk] exI) (simp add: empty_chunk_def)

lemma b_repI:
  assumes "b_data b = done @ cur # replicate k empty_chunk" "b_outer b = length done" "chunks_ok mx done"
    "L \<noteq> []" "length L \<le> mx" "cur = (mk_chunk L)\<lparr>c_end := e\<rparr>" "rs = crv_ranges done @ L"
  shows "b_rep mx b rs"
  unfolding b_rep_def using assms
  by (intro exI [of _ "done"] exI [of _ cur] exI [of _ k] exI [of _ e]) (simp add: mk_chunk_def)

lemma b_rep_push:
  assumes rep: "b_rep mx b rs" and mx: "2 \<le> mx" and sp: "sep rs" and i: "\<forall>r \<in> set rs. snd r \<le> i"
  shows "\<exists>rs'. b_rep mx (builder_push_index mx i b) rs' \<and> sep rs' \<and> idx rs' = insert i (idx rs) \<and> (\<forall>r \<in> set rs'. snd r \<le> Suc i)"
proof -
  obtain dn cur k e where R: "b_data b = dn @ cur # replicate k empty_chunk" "b_outer b = length dn" "chunks_ok mx dn"
    "rs = crv_ranges dn @ c_data cur" "if c_data cur = [] then dn = [] \<and> cur = empty_chunk
      else length (c_data cur) \<le> mx \<and> cur = (mk_chunk (c_data cur))\<lparr>c_end := e\<rparr>"
    using rep unfolding b_rep_def by blast
  define b' where "b' = builder_push_index mx i b"
  note D = b'_def builder_push_index_def builder_push_def Let_def R(1,2)
  have "\<exists>rs'. b_rep mx b' rs' \<and> sep rs' \<and> idx rs' = insert i (idx rs) \<and> (\<forall>r \<in> set rs'. snd r \<le> Suc i)"
  proof (cases "c_data cur" rule: rev_cases)
    case Nil
    then have "b_data b' = [] @ (mk_chunk [(i, i + 1)])\<lparr>c_end := 0\<rparr> # replicate k empty_chunk" "b_outer b' = 0"
      using R(5) by (simp_all add: D empty_chunk_def mk_chunk_def)
    then have "b_rep mx b' [(i, i + 1)]" using mx by (intro b_repI [of b' "[]" _ k mx "[(i, i + 1)]" 0]) simp_all
    moreover have "rs = []" using Nil R(4,5) by simp
    ultimately show ?thesis by (intro exI [of _ "[(i, i + 1)]"]) simp
  next
    case (snoc K l)
    have cur: "length K < mx" "cur = (mk_chunk (K @ [l]))\<lparr>c_end := e\<rparr>" using R(5) snoc by auto
    have rs: "rs = crv_ranges dn @ K @ [l]" using R(4) snoc by simp
    have l: "fst l < snd l" "snd l \<le> i" using sp i rs by (simp_all add: sep_append)
    have ls: "\<forall>r \<in> set (crv_ranges dn @ K). snd r < fst l" "sep (crv_ranges dn @ K)"
      using sp unfolding rs append_assoc [symmetric] sep_append by simp_all
    show ?thesis
    proof (cases "i = snd l")
      case True
      let ?L = "K @ [(fst l, i + 1)]"
      have "hd ?L = hd (K @ [l]) \<or> K = []" by (cases K) auto
      then have "b_data b' = dn @ (mk_chunk ?L)\<lparr>c_end := e\<rparr> # replicate k empty_chunk" "b_outer b' = length dn"
        using True cur l by (auto simp: D mk_chunk_def)
      then have "b_rep mx b' (crv_ranges dn @ ?L)" using cur(1) R(3) by (intro b_repI) simp_all
      moreover have "sep (crv_ranges dn @ ?L)" using ls l True by (simp add: sep_append ball_Un)
      moreover have "idx (crv_ranges dn @ ?L) = insert i (idx rs)" using True l rs by auto
      moreover have "snd r \<le> Suc i" if "r \<in> set (crv_ranges dn @ K)" for r
        using bspec [OF ls(1) that] l by simp
      then have "\<forall>r \<in> set (crv_ranges dn @ ?L). snd r \<le> Suc i" by auto
      ultimately show ?thesis by blast
    next
      case False
      have lt: "snd l < i" using False l(2) by simp
      let ?rs = "rs @ [(i, i + 1)]"
      have "snd r < i" if "r \<in> set (crv_ranges dn @ K)" for r using bspec [OF ls(1) that] l(1) lt by simp
      then have "\<forall>r \<in> set rs. snd r < i" using lt unfolding rs by auto
      then have S: "sep ?rs" "idx ?rs = insert i (idx rs)" "\<forall>r \<in> set ?rs. snd r \<le> Suc i"
        using sp by (auto simp: sep_append)
      have "b_rep mx b' ?rs"
      proof (cases "length (c_data cur) < mx")
        case True
        let ?L = "K @ [l, (i, i + 1)]"
        have "hd ?L = hd (K @ [l])" by (cases K) auto
        then have "b_data b' = dn @ (mk_chunk ?L)\<lparr>c_end := e\<rparr> # replicate k empty_chunk" "b_outer b' = length dn"
          using True False cur snoc by (auto simp: D mk_chunk_def)
        then show ?thesis using R(3) rs True snoc by (intro b_repI) simp_all
      next
        case full: False
        have "cur\<lparr>c_end := snd l\<rparr> = mk_chunk (K @ [l])" using cur(2) by (simp add: mk_chunk_def)
        then have "b_data b' = (dn @ [mk_chunk (K @ [l])]) @ (mk_chunk [(i, i + 1)])\<lparr>c_end := 0\<rparr> # replicate (k - 1) empty_chunk"
          "b_outer b' = length (dn @ [mk_chunk (K @ [l])])"
          using full False snoc by (cases k; simp add: D list_update_append nth_append mk_chunk_def empty_chunk_def)+
        then show ?thesis using R(3) rs cur(1) mx
          by (intro b_repI [of b' "dn @ [mk_chunk (K @ [l])]" _ "k - 1" mx "[(i, i + 1)]" 0]) simp_all
      qed
      then show ?thesis using S by blast
    qed
  qed
  then show ?thesis by (simp add: b'_def)
qed

lemma b_rep_finalize:
  assumes "b_rep mx b rs" "sep rs"
  shows "crv_ok mx (builder_finalize b) \<and> crv_ranges (builder_finalize b) = rs"
proof -
  obtain dn cur k e where R: "b_data b = dn @ cur # replicate k empty_chunk" "b_outer b = length dn" "chunks_ok mx dn"
    "rs = crv_ranges dn @ c_data cur" "if c_data cur = [] then dn = [] \<and> cur = empty_chunk
      else length (c_data cur) \<le> mx \<and> cur = (mk_chunk (c_data cur))\<lparr>c_end := e\<rparr>"
    using assms(1) unfolding b_rep_def by blast
  show ?thesis
  proof (cases "c_data cur = []")
    case True
    then show ?thesis using R by (simp add: builder_finalize_def crv_ok_def empty_chunk_def)
  next
    case False
    then have "cur\<lparr>c_end := snd (last (c_data cur))\<rparr> = mk_chunk (c_data cur)" using R(5) by (metis (no_types, lifting) chunk.surjective chunk.update_convs(3) mk_chunk_def)
    then have "builder_finalize b = dn @ [mk_chunk (c_data cur)]" using R(1,2) False by (simp add: builder_finalize_def Let_def)
    then show ?thesis using R(3,4,5) False assms(2) by (simp add: crv_ok_def)
  qed
qed

text \<open>Pushing a list of increasing indices.\<close>

lemma b_rep_pushes:
  assumes "b_rep mx b rs" "2 \<le> mx" "sep rs" "sorted_wrt (<) is" "\<forall>i \<in> set is. \<forall>r \<in> set rs. snd r \<le> i"
  shows "\<exists>rs'. b_rep mx (fold (builder_push_index mx) is b) rs' \<and> sep rs' \<and> idx rs' = set is \<union> idx rs"
  using assms
proof (induction "is" arbitrary: b rs)
  case (Cons i "is")
  obtain rs' where R: "b_rep mx (builder_push_index mx i b) rs'" "sep rs'" "idx rs' = insert i (idx rs)"
    "\<forall>r \<in> set rs'. snd r \<le> Suc i"
    using b_rep_push [OF Cons.prems(1-3), of i] Cons.prems(5) by auto
  have "\<forall>j \<in> set is. \<forall>r \<in> set rs'. snd r \<le> j" using R(4) Cons.prems(4) by (fastforce simp: Suc_le_eq)
  then show ?case using Cons.IH [OF R(1) Cons.prems(2) R(2)] Cons.prems(4) R(3) by auto
qed auto

lemma build_indices:
  assumes "sorted_wrt (<) is" "chunk_size_ok mx" "b = fold (builder_push_index mx) is (builder_new mx d)"
  shows "crv_ok mx (builder_finalize b) \<and> indices (builder_finalize b) = set is"
proof -
  obtain rs where "b_rep mx b rs" "sep rs" "idx rs = set is"
    using b_rep_pushes [OF b_rep_new _ _ assms(1), of mx d] assms(2,3) by (auto simp: chunk_size_ok_def)
  then show ?thesis using b_rep_finalize [of mx b rs] by simp
qed

subsection \<open>The indices each pass pushes\<close>

fun insert_out :: "nat list \<Rightarrow> nat list \<Rightarrow> nat \<Rightarrow> nat list" where
  "insert_out (x # xs) (y # ys) k =
     (if x + k < y then (x + k) # insert_out xs (y # ys) k else y # insert_out (x # xs) ys (Suc k))"
| "insert_out xs [] k = map (\<lambda>x. x + k) xs"
| "insert_out [] ys k = ys"

fun shift_out :: "nat list \<Rightarrow> nat list \<Rightarrow> nat \<Rightarrow> nat list" where
  "shift_out (x # xs) (y # ys) k =
     (if x + k < y then (x + k) # shift_out xs (y # ys) k else shift_out (x # xs) ys (Suc k))"
| "shift_out xs [] k = map (\<lambda>x. x + k) xs"
| "shift_out [] ys k = []"

fun erase_out :: "nat list \<Rightarrow> nat list \<Rightarrow> nat \<Rightarrow> nat list" where
  "erase_out (x # xs) (y # ys) k =
     (if x < y then (x - k) # erase_out xs (y # ys) k
      else if x = y then erase_out xs ys (Suc k) else erase_out (x # xs) ys (Suc k))"
| "erase_out xs [] k = map (\<lambda>x. x - k) xs"
| "erase_out [] ys k = []"

lemma out_Nil [simp]: "insert_out [] ys k = ys" "shift_out [] ys k = []" "erase_out [] ys k = []"
  by (cases ys; simp)+

lemma insert_pass_out: "insert_pass mx xs ys k b = fold (builder_push_index mx) (insert_out xs ys k) b"
  by (induction mx xs ys k b rule: insert_pass.induct) (auto simp: fold_map comp_def)

lemma shift_pass_out: "shift_pass mx xs ys k b = fold (builder_push_index mx) (shift_out xs ys k) b"
  by (induction mx xs ys k b rule: shift_pass.induct) (auto simp: fold_map comp_def)

lemma erase_pass_out: "erase_pass mx xs ys k b = fold (builder_push_index mx) (erase_out xs ys k) b"
  by (induction mx xs ys k b rule: erase_pass.induct) (auto simp: fold_map comp_def)

text \<open>Every index is moved by the number of positions of the other set below its new place.\<close>

definition moved :: "nat set \<Rightarrow> nat set \<Rightarrow> nat \<Rightarrow> nat set" where
  "moved S P k = {z. z \<notin> P \<and> (\<exists>x \<in> S. z = x + k + card (P \<inter> {..<z}))}"

lemma moved_first:
  assumes "finite P" "\<forall>p \<in> P. x + k < p"
  shows "moved (insert x S) P k = insert (x + k) (moved S P k)"
proof -
  have "z = x + k + card (P \<inter> {..<z}) \<and> z \<notin> P \<longleftrightarrow> z = x + k" for z
  proof
    assume z: "z = x + k + card (P \<inter> {..<z}) \<and> z \<notin> P"
    have "P \<inter> {..<z} \<subseteq> {x + k + 1..<z}" using assms(2) by (auto simp: Suc_le_eq)
    then have "card (P \<inter> {..<z}) \<le> z - (x + k + 1)" using card_mono [of "{x + k + 1..<z}"] by simp
    then show "z = x + k" using z by linarith
  next
    assume "z = x + k"
    moreover from this have "P \<inter> {..<z} = {}" using assms(2) by (auto dest: bspec)
    ultimately show "z = x + k + card (P \<inter> {..<z}) \<and> z \<notin> P" using assms(2) by auto
  qed
  then show ?thesis unfolding moved_def by blast
qed

lemma moved_pass:
  assumes "finite P" "\<forall>p \<in> P. y < p" "\<forall>x \<in> S. y \<le> x + k"
  shows "moved S (insert y P) k = moved S P (Suc k)"
proof -
  have y: "y \<notin> P" using assms(2) by auto
  have c: "card (insert y P \<inter> {..<z}) = Suc (card (P \<inter> {..<z}))" if "y < z" for z
    using that y assms(1) by (simp add: Int_insert_left)
  have "z \<in> moved S (insert y P) k \<longleftrightarrow> z \<in> moved S P (Suc k)" for z
  proof (cases "y < z")
    case True
    then show ?thesis using c [OF True] by (auto simp: moved_def)
  next
    case False
    then have "z \<notin> moved S (insert y P) k" using assms(3) by (fastforce simp: moved_def)
    moreover have "z \<notin> moved S P (Suc k)" using assms(3) False by (fastforce simp: moved_def)
    ultimately show ?thesis by simp
  qed
  then show ?thesis by blast
qed

lemma moved_none [simp]: "moved {} P k = {}" "moved S {} k = (\<lambda>x. x + k) ` S"
  by (auto simp: moved_def)

lemma set_insert_out:
  assumes "sorted_wrt (<) xs" "sorted_wrt (<) ys"
  shows "set (insert_out xs ys k) = set ys \<union> moved (set xs) (set ys) k"
  using assms
proof (induction xs ys k rule: insert_out.induct)
  case (1 x xs y ys k)
  show ?case
  proof (cases "x + k < y")
    case True
    then have "\<forall>p \<in> set (y # ys). x + k < p" using "1.prems"(2) by auto
    from moved_first [OF _ this] show ?thesis using True 1 by simp
  next
    case False
    then have "\<forall>z \<in> set (x # xs). y \<le> z + k" using "1.prems"(1) by auto
    from moved_pass [OF _ _ this] show ?thesis using False 1 by simp
  qed
qed simp_all

lemma insert_out_sorted:
  assumes "sorted_wrt (<) xs" "sorted_wrt (<) ys"
  shows "sorted_wrt (<) (insert_out xs ys k)"
  using assms
proof (induction xs ys k rule: insert_out.induct)
  case (1 x xs y ys k)
  have low: "b \<le> z" if "z \<in> set (insert_out us vs j)" "sorted_wrt (<) us" "sorted_wrt (<) vs"
      "\<forall>u \<in> set us. b \<le> u + j" "\<forall>v \<in> set vs. b \<le> v" for us vs j b z
    using that by (fastforce simp: set_insert_out moved_def)
  show ?case
  proof (cases "x + k < y")
    case True
    have "Suc (x + k) \<le> z" if "z \<in> set (insert_out xs (y # ys) k)" for z
      using 1(3,4) True by (intro low [OF that]) (auto simp: Suc_le_eq)
    then show ?thesis using True 1 by (auto simp: Suc_le_eq)
  next
    case False
    have "Suc y \<le> z" if "z \<in> set (insert_out (x # xs) ys (Suc k))" for z
      using 1(3,4) False by (intro low [OF that]) (auto simp: Suc_le_eq)
    then show ?thesis using False 1 by (auto simp: Suc_le_eq)
  qed
qed (simp_all add: sorted_wrt_map)

lemma shift_out_filter:
  assumes "sorted_wrt (<) xs" "sorted_wrt (<) ys"
  shows "shift_out xs ys k = filter (\<lambda>z. z \<notin> set ys) (insert_out xs ys k)"
  using assms
proof (induction xs ys k rule: insert_out.induct)
  case (1 x xs y ys k)
  show ?case
  proof (cases "x + k < y")
    case True
    then have "x + k \<notin> set (y # ys)" using "1.prems"(2) by auto
    then show ?thesis using True 1 by simp
  next
    case False
    have "y < z" if "z \<in> set (insert_out (x # xs) ys (Suc k))" for z
      using that set_insert_out [of "x # xs" ys "Suc k"] 1(3,4) False by (fastforce simp: moved_def)
    then have "filter (\<lambda>z. z \<notin> set (y # ys)) (insert_out (x # xs) ys (Suc k)) =
        filter (\<lambda>z. z \<notin> set ys) (insert_out (x # xs) ys (Suc k))"
      by (intro filter_cong) auto
    then show ?thesis using False 1 by simp
  qed
qed simp_all

lemma erase_out_map:
  assumes "sorted_wrt (<) xs" "sorted_wrt (<) ys"
  shows "erase_out xs ys k = map (\<lambda>x. x - (k + card (set ys \<inter> {..<x}))) (filter (\<lambda>x. x \<notin> set ys) xs)"
  using assms
proof (induction xs ys k rule: erase_out.induct)
  case (1 x xs y ys k)
  have card: "card (set (y # ys) \<inter> {..<z}) = Suc (card (set ys \<inter> {..<z}))" if "y < z" for z
    using that 1(5) by (auto simp: Int_insert_left card_insert_if)
  consider "x < y" | "x = y" | "y < x" by linarith
  then show ?case
  proof cases
    case 1
    then have "x \<notin> set (y # ys)" "set (y # ys) \<inter> {..<x} = {}" using \<open>sorted_wrt (<) (y # ys)\<close> by auto
    then show ?thesis using 1 "1.IH"(1) "1.prems" by simp
  next
    case 2
    have "erase_out (x # xs) (y # ys) k = map (\<lambda>x. x - (Suc k + card (set ys \<inter> {..<x}))) (filter (\<lambda>x. x \<notin> set ys) xs)"
      using 2 "1.IH"(2) "1.prems" by simp
    moreover have "filter (\<lambda>x. x \<notin> set (y # ys)) (x # xs) = filter (\<lambda>x. x \<notin> set ys) xs"
      using 2 "1.prems"(1) by (auto intro: filter_cong)
    ultimately show ?thesis using 2 "1.prems"(1) card by simp
  next
    case 3
    have "erase_out (x # xs) (y # ys) k = map (\<lambda>x. x - (Suc k + card (set ys \<inter> {..<x}))) (filter (\<lambda>x. x \<notin> set ys) (x # xs))"
      using 3 "1.IH"(3) "1.prems" by simp
    moreover have "y < z" if "z \<in> set (x # xs)" for z using that 3 "1.prems"(1) by auto
    moreover from this have "filter (\<lambda>x. x \<notin> set (y # ys)) (x # xs) = filter (\<lambda>x. x \<notin> set ys) (x # xs)"
      by (intro filter_cong) auto
    ultimately show ?thesis using card by (auto simp del: filter.simps intro!: map_cong)
  qed
qed simp_all

lemma unshift_mono:
  assumes "finite P" "x \<notin> P" "x < z"
  shows "x - card (P \<inter> {..<x}) < z - card (P \<inter> {..<z})"
proof -
  have "P \<inter> {..<z} \<subseteq> (P \<inter> {..<x}) \<union> {Suc x..<z}" using assms(2,3) by (auto simp: Suc_le_eq) (metis nat_neq_iff)
  then have "card (P \<inter> {..<z}) \<le> card ((P \<inter> {..<x}) \<union> {Suc x..<z})" by (intro card_mono) auto
  also have "\<dots> \<le> card (P \<inter> {..<x}) + (z - Suc x)" using card_Un_le [of "P \<inter> {..<x}" "{Suc x..<z}"] by simp
  finally have "card (P \<inter> {..<z}) \<le> card (P \<inter> {..<x}) + (z - Suc x)" .
  moreover have "card (P \<inter> {..<x}) \<le> x" using card_mono [of "{..<x}" "P \<inter> {..<x}"] by simp
  ultimately show ?thesis using assms(3) by linarith
qed

lemma erase_out_sorted:
  assumes "sorted_wrt (<) xs" "sorted_wrt (<) ys"
  shows "sorted_wrt (<) (erase_out xs ys 0)"
  unfolding erase_out_map [OF assms] sorted_wrt_map
  using sorted_wrt_filter [OF assms(1)]
  by (rule sorted_wrt_mono_rel [rotated]) (auto intro!: unshift_mono)

subsection \<open>The operations\<close>

lemma as_indexes_facts:
  assumes "crv_ok mx d"
  shows "sorted_wrt (<) (as_indexes d)" "set (as_indexes d) = indices d"
  using assms as_indexes_sorted [of d] by (simp_all add: crv_ok_def set_as_indexes)

text \<open>The indices after positions are inserted: those whose place without the new positions was in the set.\<close>

definition opened :: "nat set \<Rightarrow> nat set \<Rightarrow> nat set" where
  "opened P S = {z. z \<notin> P \<and> z - card (P \<inter> {..<z}) \<in> S}"

lemma moved_opened: "finite P \<Longrightarrow> moved S P 0 = opened P S"
proof -
  have "z = x + card (P \<inter> {..<z}) \<longleftrightarrow> x = z - card (P \<inter> {..<z})" for x z
    using card_mono [of "{..<z}" "P \<inter> {..<z}"] by auto
  then show ?thesis unfolding moved_def opened_def by auto
qed

lemma opened_empty [simp]: "opened {} S = S" "opened P {} = {}"
  by (auto simp: opened_def)

lemma opened_below:
  assumes "finite P" "\<forall>x \<in> S. x < b" "\<forall>p \<in> P. b \<le> p"
  shows "opened P S = S"
proof -
  have "z \<in> opened P S \<longleftrightarrow> z \<in> S" for z
  proof (cases "z < b")
    case True
    then have "P \<inter> {..<z} = {}" "z \<notin> P" using assms(3) by fastforce+
    then show ?thesis by (simp add: opened_def)
  next
    case False
    have "P \<inter> {..<z} \<subseteq> {b..<z}" using assms(3) by auto
    then have "card (P \<inter> {..<z}) \<le> z - b" using card_mono [of "{b..<z}"] by simp
    then have "b \<le> z - card (P \<inter> {..<z})" using False by linarith
    then have "z \<notin> S" "z - card (P \<inter> {..<z}) \<notin> S" using assms(2) False leD by blast+
    then show ?thesis by (simp add: opened_def)
  qed
  then show ?thesis by blast
qed

lemma crv_bounds:
  assumes "chunks_ok mx d" "d \<noteq> []"
  shows "c_begin (hd d) = fst (hd (crv_ranges d))" "c_end (last d) = snd (last (crv_ranges d))" "crv_ranges d \<noteq> []"
proof -
  obtain c d' where c: "d = c # d'" "chunk_ok mx c" using assms by (cases d) auto
  then show "c_begin (hd d) = fst (hd (crv_ranges d))" by (auto elim!: chunk_okE)
  obtain e d'' where e: "d = d'' @ [e]" "chunk_ok mx e" using assms by (cases d rule: rev_cases) auto
  then show "c_end (last d) = snd (last (crv_ranges d))" by (auto elim!: chunk_okE)
  show "crv_ranges d \<noteq> []" using crv_ranges_empty [OF assms(1)] assms(2) by simp
qed

lemma is_insert_at_all_correct:
  assumes "crv_ok mx d" "crv_ok mx p" "chunk_size_ok mx"
  shows "crv_ok mx (is_insert_at_all mx p d) \<and> indices (is_insert_at_all mx p d) = indices p \<union> opened (indices p) (indices d)"
proof -
  note X = as_indexes_facts [OF assms(1)] and Y = as_indexes_facts [OF assms(2)]
  note B = build_indices [OF insert_out_sorted [OF X(1) Y(1), of 0] assms(3) insert_pass_out, of d]
  show ?thesis
    using assms(1,2) B set_insert_out [OF X(1) Y(1), of 0] X(2) Y(2) by (simp add: is_insert_at_all_def moved_opened)
qed

lemma is_erase_at_all_correct:
  assumes "crv_ok mx d" "crv_ok mx p" "chunk_size_ok mx"
  shows "crv_ok mx (is_erase_at_all mx p d) \<and>
    indices (is_erase_at_all mx p d) = (\<lambda>x. x - card (indices p \<inter> {..<x})) ` (indices d - indices p)"
proof -
  note X = as_indexes_facts [OF assms(1)] and Y = as_indexes_facts [OF assms(2)]
  note B = build_indices [OF erase_out_sorted [OF X(1) Y(1)] assms(3) erase_pass_out, of d]
  have "set (erase_out (as_indexes d) (as_indexes p) 0) = (\<lambda>x. x - card (indices p \<inter> {..<x})) ` (indices d - indices p)"
    using X(2) Y(2) by (auto simp: erase_out_map [OF X(1) Y(1)])
  then show ?thesis using assms(1) B by (auto simp: is_erase_at_all_def)
qed

lemma is_shift_for_insert_at_all_correct:
  assumes "crv_ok mx d" "crv_ok mx p" "chunk_size_ok mx"
  shows "crv_ok mx (is_shift_for_insert_at_all mx p d) \<and>
    indices (is_shift_for_insert_at_all mx p d) = opened (indices p) (indices d)"
proof -
  note X = as_indexes_facts [OF assms(1)] and Y = as_indexes_facts [OF assms(2)]
  define out where "out = shift_out (as_indexes d) (as_indexes p) 0"
  have out: "out = filter (\<lambda>z. z \<notin> indices p) (insert_out (as_indexes d) (as_indexes p) 0)"
    unfolding out_def using shift_out_filter [OF X(1) Y(1)] Y(2) by simp
  then have s: "sorted_wrt (<) out" using insert_out_sorted [OF X(1) Y(1), of 0] sorted_wrt_filter by blast
  have "set out = moved (indices d) (indices p) 0"
    unfolding out using set_insert_out [OF X(1) Y(1), of 0] X(2) Y(2) by (auto simp: moved_def)
  then have o: "set out = opened (indices p) (indices d)" by (simp add: moved_opened)
  note B = build_indices [OF s assms(3), of "shift_pass mx (as_indexes d) (as_indexes p) 0 (builder_new mx d)" d]
  show ?thesis
  proof (cases "d \<noteq> [] \<and> p \<noteq> [] \<and> c_end (last d) \<le> c_begin (hd p)")
    case True
    have C: "chunks_ok mx d" "sep (crv_ranges d)" "chunks_ok mx p" "sep (crv_ranges p)"
      using assms(1,2) by (simp_all add: crv_ok_def)
    have "\<forall>r \<in> set (crv_ranges d). snd r \<le> c_begin (hd p)"
      using sep_last_ge [OF C(2)] crv_bounds(2) [OF C(1)] True by fastforce
    then have "\<forall>z \<in> indices d. z < c_begin (hd p)" using idx_below by blast
    moreover have "\<forall>r \<in> set (crv_ranges p). c_begin (hd p) \<le> fst r"
      using crv_bounds [OF C(3)] C(4) True by (cases "crv_ranges p") (auto simp: sep_Cons dest!: bspec)
    then have "\<forall>z \<in> indices p. c_begin (hd p) \<le> z" using idx_above by blast
    ultimately have "opened (indices p) (indices d) = indices d" by (intro opened_below) simp_all
    then show ?thesis using True assms(1) by (simp add: is_shift_for_insert_at_all_def)
  next
    case False
    then show ?thesis using assms(1) B o by (auto simp: is_shift_for_insert_at_all_def shift_pass_out out_def)
  qed
qed

end
