(* ===== verification/Index_Set_Props.thy ===== *)
theory Index_Set_Props
  imports Index_Set_Bulk
begin

text \<open>
  The interface of a set of positions as the change builders use it, its realisation by \<^verbatim>\<open>IndexSet\<close>, and the
  properties of the operations.
\<close>

subsection \<open>The interface\<close>

locale position_set =
  fixes ok :: "'d \<Rightarrow> bool"
    and elems :: "'d \<Rightarrow> nat set"
    and contains :: "nat \<Rightarrow> 'd \<Rightarrow> bool"
    and add :: "nat \<Rightarrow> 'd \<Rightarrow> 'd result"
    and insert_at :: "nat \<Rightarrow> nat \<Rightarrow> 'd \<Rightarrow> 'd result"
    and shift_for_insert_at :: "nat \<Rightarrow> nat \<Rightarrow> 'd \<Rightarrow> 'd result"
    and erase_at :: "nat \<Rightarrow> 'd \<Rightarrow> 'd"
  assumes contains: "ok d \<Longrightarrow> contains x d \<longleftrightarrow> x \<in> elems d"
    and add: "ok d \<Longrightarrow> \<exists>d'. add x d = Inr d' \<and> ok d' \<and> elems d' = insert x (elems d)"
    and insert_at: "ok d \<Longrightarrow> 0 < n \<Longrightarrow>
      \<exists>d'. insert_at x n d = Inr d' \<and> ok d' \<and> elems d' = {x..<x + n} \<union> {y. after_insert x n (elems d) y}"
    and shift_for_insert_at: "ok d \<Longrightarrow> 0 < n \<Longrightarrow>
      \<exists>d'. shift_for_insert_at x n d = Inr d' \<and> ok d' \<and> elems d' = {y. after_insert x n (elems d) y}"
    and erase_at: "ok d \<Longrightarrow> ok (erase_at x d) \<and> elems (erase_at x d) = {y. after_erase x (elems d) y}"
begin

lemma erase_after_insert:
  "{y. after_erase x ({x..<x + Suc n} \<union> {y. after_insert x (Suc n) S y}) y} =
   {x..<x + n} \<union> {y. after_insert x n S y}"
  by (auto simp: after_erase_def after_insert_def split: if_splits)

lemma erase_after_shift:
  "{y. after_erase x {y. after_insert x (Suc n) S y} y} = {y. after_insert x n S y}"
  by (auto simp: after_erase_def after_insert_def split: if_splits)

lemma after_insert_zero [simp]: "{y. after_insert x 0 S y} = S"
  by (auto simp: after_insert_def)

text \<open>Erasing the inserted positions again restores the set, whether they were in it or not.\<close>

lemma erases_insert:
  assumes "ok d" "elems d = {x..<x + n} \<union> {y. after_insert x n S y}"
  shows "ok ((erase_at x ^^ n) d) \<and> elems ((erase_at x ^^ n) d) = S"
  using assms
proof (induction n arbitrary: d)
  case (Suc n)
  have "ok (erase_at x d)" "elems (erase_at x d) = {x..<x + n} \<union> {y. after_insert x n S y}"
    using erase_at [OF Suc.prems(1)] Suc.prems(2) erase_after_insert by simp_all
  from Suc.IH [OF this] show ?case by (simp add: funpow_swap1)
qed simp

lemma erases_shift:
  assumes "ok d" "elems d = {y. after_insert x n S y}"
  shows "ok ((erase_at x ^^ n) d) \<and> elems ((erase_at x ^^ n) d) = S"
  using assms
proof (induction n arbitrary: d)
  case (Suc n)
  have "ok (erase_at x d)" "elems (erase_at x d) = {y. after_insert x n S y}"
    using erase_at [OF Suc.prems(1)] Suc.prems(2) erase_after_shift by simp_all
  from Suc.IH [OF this] show ?case by (simp add: funpow_swap1)
qed simp

lemma insert_erase_contains:
  assumes "ok d" "0 < n"
  shows "\<exists>d1. insert_at x n d = Inr d1 \<and> (\<forall>y. contains y d1 \<longleftrightarrow> x \<le> y \<and> y < x + n \<or> after_insert x n (elems d) y) \<and>
    (\<forall>y. contains y ((erase_at x ^^ n) d1) \<longleftrightarrow> contains y d)"
proof -
  obtain d1 where d1: "insert_at x n d = Inr d1" "ok d1" "elems d1 = {x..<x + n} \<union> {y. after_insert x n (elems d) y}"
    using insert_at [OF assms] by blast
  note E = erases_insert [OF d1(2,3)]
  show ?thesis using d1 contains [OF d1(2)] contains [of "(erase_at x ^^ n) d1"] contains [OF assms(1)] E by auto
qed

lemma shift_erase_contains:
  assumes "ok d" "0 < n"
  shows "\<exists>d1. shift_for_insert_at x n d = Inr d1 \<and> (\<forall>y. contains y d1 \<longleftrightarrow> after_insert x n (elems d) y) \<and>
    (\<forall>y. contains y ((erase_at x ^^ n) d1) \<longleftrightarrow> contains y d)"
proof -
  obtain d1 where d1: "shift_for_insert_at x n d = Inr d1" "ok d1" "elems d1 = {y. after_insert x n (elems d) y}"
    using shift_for_insert_at [OF assms] by blast
  note E = erases_shift [OF d1(2,3)]
  show ?thesis using d1 contains [OF d1(2)] contains [of "(erase_at x ^^ n) d1"] contains [OF assms(1)] E by auto
qed

end

lemma sizes_ok: "chunk_size_ok 256" "chunk_size_ok 4"
  by (simp_all add: chunk_size_ok_def)


interpretation ixs_debug: position_set "crv_ok 4" indices is_contains "is_add 4" "is_insert_at 4"
  "is_shift_for_insert_at 4" is_erase_at
  by unfold_locales (fact is_contains_idx is_add_correct [OF _ sizes_ok(2)] is_insert_at_correct [OF _ sizes_ok(2)]
    is_shift_for_insert_at_correct [OF _ sizes_ok(2)] is_erase_at_correct)+

subsection \<open>The checks of verify\<close>








subsection \<open>Positions one by one\<close>






subsection \<open>Properties\<close>

definition sample_set :: "chunk list" where
  "sample_set = [mk_chunk [(0, 2), (4, 6)]]"

definition sample_positions :: "chunk list" where
  "sample_positions = [mk_chunk [(1, 2), (5, 7)]]"

lemma sample_ok: "crv_ok 4 sample_set" "crv_ok 4 sample_positions" "crv_ok 256 sample_set"
  by (simp_all add: crv_ok_def sample_set_def sample_positions_def sep_Cons)







text \<open>C28: Erasing a position returns the marker npos when the position was in the set and otherwise the position without the
  indices below it, and in both cases moves the indices behind it down by one.\<close>

theorem index_set_erase_or_unshift:
  assumes "crv_ok mx d"
  shows "\<exists>s d'. is_erase_or_unshift x d = (s, d') \<and> crv_ok mx d' \<and>
    s = (if is_contains x d then npos else x - card {y. is_contains y d \<and> y < x}) \<and>
    (\<forall>y. is_contains y d' \<longleftrightarrow> (if y < x then is_contains y d else is_contains (Suc y) d))"
proof -
  have "indices d \<inter> {..<x} = {y. is_contains y d \<and> y < x}" using is_contains_idx [OF assms] by auto
  then show ?thesis using is_erase_or_unshift_correct [OF assms, of x] is_contains_idx
    by (auto simp: is_contains_idx [OF assms] after_erase_def)
qed

theorem index_set_erase_or_unshift_witness:
  "crv_ok 4 sample_set \<and> (\<exists>s d'. is_erase_or_unshift 3 sample_set = (s, d') \<and> crv_ok 4 d' \<and>
    s = (if is_contains 3 sample_set then npos else 3 - card {y. is_contains y sample_set \<and> y < 3}) \<and>
    (\<forall>y. is_contains y d' \<longleftrightarrow> (if y < 3 then is_contains y sample_set else is_contains (Suc y) sample_set)))"
  using index_set_erase_or_unshift [OF sample_ok(1), of 3] sample_ok(1) by blast











text \<open>C31: Counting the indices below a bound, which translating positions relies on, counts exactly the indices the set contains below
  the bound.\<close>

theorem index_set_count_prefix:
  assumes "crv_ok mx d"
  shows "is_count 0 e d = card {y. is_contains y d \<and> y < e}"
proof -
  have "indices d \<inter> {..<e} = {y. is_contains y d \<and> y < e}" using is_contains_idx [OF assms] by auto
  then show ?thesis using is_count_zero [OF assms, of e] by simp
qed

theorem index_set_count_prefix_witness:
  "crv_ok 4 sample_set \<and> is_count 0 5 sample_set = card {y. is_contains y sample_set \<and> y < 5}"
  using index_set_count_prefix [OF sample_ok(1), of 5] sample_ok(1) by blast

subsection \<open>Two defects\<close>



end
