(* ===== verification/Integer_Codec.thy ===== *)
theory Integer_Codec
  imports Barq_Prelude
begin

text \<open>
  The variable length coding of integers of the synchronisation protocol (\<open>sync/noinst/integer_codec.hpp\<close>). A byte holds
  seven bits of the value and says in its top bit whether another byte follows; the last byte holds six bits and the
  sign. The templates are modelled with the integer type as an argument and the input as a function that reads a byte.
  Values are unbounded integers that the lemmas restrict to the range of the type; the wrap-around of the negation in
  the decoder is written out.
\<close>

datatype ity = I64 | U64 | I32 | U32 | U8

fun ity_signed :: "ity \<Rightarrow> bool" where
  "ity_signed I64 = True"
| "ity_signed I32 = True"
| "ity_signed _ = False"

fun ity_digits :: "ity \<Rightarrow> nat" where
  "ity_digits I64 = 63"
| "ity_digits U64 = 64"
| "ity_digits I32 = 31"
| "ity_digits U32 = 32"
| "ity_digits U8 = 8"

definition ity_max :: "ity \<Rightarrow> nat" where
  "ity_max T = 2 ^ ity_digits T - 1"

definition ity_range :: "ity \<Rightarrow> int \<Rightarrow> bool" where
  "ity_range T v \<longleftrightarrow> (if ity_signed T then - int (ity_max T) - 1 else 0) \<le> v \<and> v \<le> int (ity_max T)"

subsection \<open>Operations with overflow detection\<close>

definition int_shift_left_with_overflow_detect :: "ity \<Rightarrow> nat \<Rightarrow> nat \<Rightarrow> nat option" where
  "int_shift_left_with_overflow_detect T lval i =
     (if drop_bit i (ity_max T) < lval then None else Some (push_bit i lval))"

definition int_subtract_with_overflow_detect :: "ity \<Rightarrow> int \<Rightarrow> int \<Rightarrow> int option" where
  "int_subtract_with_overflow_detect T lval rval = (if ity_range T (lval - rval) then Some (lval - rval) else None)"

subsection \<open>Encoding\<close>

definition encode_int_max_bytes :: "ity \<Rightarrow> nat" where
  "encode_int_max_bytes T = ((1 + ity_digits T) + (7 - 1)) div 7"

fun encode_loop :: "nat \<Rightarrow> nat \<Rightarrow> u8 list \<times> nat" where
  "encode_loop 0 value = ([], value)"
| "encode_loop (Suc n) value =
     (if drop_bit 6 value = 0 then ([], value)
      else let (bytes, rest) = encode_loop n (drop_bit 7 value) in (of_nat (128 OR take_bit 7 value) # bytes, rest))"

definition encode_int :: "ity \<Rightarrow> int \<Rightarrow> u8 list" where
  "encode_int T value =
     (let negative = (ity_signed T \<and> value < 0);
          value2 = (if negative then - (value + 1) else value);
          (bytes, rest) = encode_loop (encode_int_max_bytes T) (nat value2)
      in bytes @ [of_nat (if negative then 64 OR rest else rest)])"

text \<open>The coding of the two words of a decimal coefficient, without a sign. The loop ends because the number that the two words
  form is divided by 128 in every round.\<close>

definition words_value :: "u64 \<Rightarrow> u64 \<Rightarrow> nat" where
  "words_value v0 v1 = unat v0 + 2 ^ 64 * unat v1"

definition words_shift :: "u64 \<Rightarrow> u64 \<Rightarrow> u64 \<times> u64" where
  "words_shift v0 v1 =
     (if v1 \<noteq> 0 then (drop_bit 7 v0 OR push_bit (64 - 7) (v1 AND 127), drop_bit 7 v1) else (drop_bit 7 v0, v1))"

lemma and_127: "(n :: nat) AND 127 = n mod 128"
  using take_bit_eq_mask [of 7 n] by (simp add: mask_eq_exp_minus_1 take_bit_eq_mod)

lemma and_63: "(n :: nat) AND 63 = n mod 64"
  using take_bit_eq_mask [of 6 n] by (simp add: mask_eq_exp_minus_1 take_bit_eq_mod)

lemma or_push_nat:
  assumes "a < 2 ^ k"
  shows "(a :: nat) OR push_bit k b = a + 2 ^ k * b"
proof -
  have "a + push_bit k b = a OR push_bit k b"
    using bit_nat_less [OF assms] by (intro disjunctive_add) (fastforce simp: bit_push_bit_iff_nat dest: leD)
  then show ?thesis by (simp add: push_bit_eq_mult mult.commute)
qed

lemma unat_or_push:
  fixes x p :: "'a :: len word"
  assumes "unat x < 2 ^ k" "unat p * 2 ^ k < 2 ^ LENGTH('a)"
  shows "unat (x OR push_bit k p) = unat x + 2 ^ k * unat p"
proof -
  have "unat (push_bit k p) = push_bit k (unat p)"
    unfolding unsigned_push_bit_eq using assms(2) by (simp add: take_bit_nat_eq_self push_bit_eq_mult)
  then show ?thesis using or_push_nat [OF assms(1)] by (simp add: unsigned_or_eq)
qed

lemma words_shift_value:
  assumes "words_shift v0 v1 = (w0, w1)"
  shows "words_value w0 w1 = words_value v0 v1 div 128"
proof (cases "v1 = 0")
  case True
  have "unat (drop_bit 7 v0) = unat v0 div 128" unfolding unat_drop_bit_eq by (simp add: drop_bit_eq_div)
  then show ?thesis using assms True by (auto simp: words_shift_def words_value_def)
next
  case False
  have d: "unat (drop_bit 7 v0) = unat v0 div 128" "unat (drop_bit 7 v1) = unat v1 div 128"
    unfolding unat_drop_bit_eq by (simp_all add: drop_bit_eq_div)
  have m: "unat (v1 AND 127) = unat v1 mod 128" by (simp add: unsigned_and_eq and_127)
  have "unat v0 < 2 ^ 64" using unsigned_less [of v0, where ?'a = nat] by simp
  then have "unat (drop_bit 7 v0) < 2 ^ 57" using d(1) by (simp add: less_mult_imp_div_less)
  moreover have "unat (v1 AND 127) * 2 ^ 57 < 2 ^ 64" using m by simp
  ultimately have "unat (drop_bit 7 v0 OR push_bit 57 (v1 AND 127)) = unat v0 div 128 + 2 ^ 57 * (unat v1 mod 128)"
    using unat_or_push [of "drop_bit 7 v0" 57 "v1 AND 127"] d m by simp
  moreover have "(unat v0 + 2 ^ 64 * unat v1) div 128 = unat v0 div 128 + 2 ^ 57 * unat v1"
    using div_mult_self2 [of 128 "unat v0" "2 ^ 57 * unat v1"] by (simp add: add.commute)
  moreover have "2 ^ 57 * (unat v1 mod 128 + 128 * (unat v1 div 128)) = 2 ^ 57 * unat v1" unfolding mod_mult_div_eq ..
  then have "2 ^ 57 * (unat v1 mod 128) + 2 ^ 64 * (unat v1 div 128) = 2 ^ 57 * unat v1" unfolding distrib_left by simp
  ultimately show ?thesis using assms False d(2) by (simp add: words_shift_def words_value_def)
qed

function encode_bid :: "u64 \<Rightarrow> u64 \<Rightarrow> u8 list" where
  "encode_bid v0 v1 =
     (if drop_bit 6 v0 \<noteq> 0 \<or> v1 \<noteq> 0
      then let (w0, w1) = words_shift v0 v1 in (128 OR ucast (v0 AND 127)) # encode_bid w0 w1
      else [ucast v0])"
  by pat_completeness auto
termination
proof (relation "measure (\<lambda>(v0, v1). words_value v0 v1)")
  fix v0 v1 w0 w1 :: u64 and p
  assume v: "drop_bit 6 v0 \<noteq> 0 \<or> v1 \<noteq> 0" and p: "p = words_shift v0 v1" "(w0, w1) = p"
  have "words_value w0 w1 = words_value v0 v1 div 128" using words_shift_value p by simp
  moreover have "words_value v0 v1 \<noteq> 0" using v by (auto simp: words_value_def unat_eq_0)
  ultimately show "((w0, w1), (v0, v1)) \<in> measure (\<lambda>(v0, v1). words_value v0 v1)" by simp
qed simp

declare encode_bid.simps [simp del]

subsection \<open>Decoding\<close>

text \<open>The loop over the bytes, with the number of bytes left before the limit, the index of the byte and the value so far. The
  result is the value, the last byte and the rest of the input.\<close>

fun decode_loop ::
  "ity \<Rightarrow> ('s \<Rightarrow> (u8 \<times> 's) option) \<Rightarrow> nat \<Rightarrow> nat \<Rightarrow> nat \<Rightarrow> 's \<Rightarrow> (nat \<times> nat \<times> 's) option" where
  "decode_loop T read_char 0 i value s = Some (value, 0, s)"
| "decode_loop T read_char (Suc n) i value s =
     (case read_char s of
        None \<Rightarrow> None
      | Some (c, s') \<Rightarrow>
          let part = unat c
          in if part AND 0x80 = 0
             then (case int_shift_left_with_overflow_detect T (part AND 0x3F) (i * 7) of
                     None \<Rightarrow> None
                   | Some p \<Rightarrow> Some (value OR p, part, s'))
             else if n = 0 then None
             else decode_loop T read_char n (Suc i) (value OR push_bit (i * 7) (part AND 0x7F)) s')"

definition ity_negate :: "ity \<Rightarrow> nat \<Rightarrow> int" where
  "ity_negate T value = (if ity_signed T then - int value else (- int value) mod 2 ^ ity_digits T)"

definition decode_int :: "ity \<Rightarrow> ('s \<Rightarrow> (u8 \<times> 's) option) \<Rightarrow> 's \<Rightarrow> (int \<times> 's) option" where
  "decode_int T read_char s =
     (case decode_loop T read_char (encode_int_max_bytes T) 0 0 s of
        None \<Rightarrow> None
      | Some (value, part, s') \<Rightarrow>
          if part AND 0x40 \<noteq> 0
          then (case int_subtract_with_overflow_detect T (ity_negate T value) 1 of
                  None \<Rightarrow> None
                | Some v \<Rightarrow> Some (v, s'))
          else Some (int value, s'))"

function decode_bid_loop :: "('s \<Rightarrow> (u8 \<times> 's) option) \<Rightarrow> nat \<Rightarrow> u64 \<Rightarrow> u64 \<Rightarrow> 's \<Rightarrow> (u64 \<times> u64 \<times> 's) option" where
  "decode_bid_loop read_char i v0 v1 s =
     (case read_char s of
        None \<Rightarrow> None
      | Some (c, s') \<Rightarrow>
          let part = (ucast (c AND 0x7F) :: u64)
          in if 17 \<le> i then None
             else let (w0, w1) =
                    (if i < 9 then (v0 OR push_bit (7 * i) part, v1)
                     else if i = 9 then (v0 OR push_bit 63 part, v1 OR drop_bit 1 part)
                     else (v0, v1 OR push_bit (7 * i - 64) part))
               in if c AND 0x80 = 0 then Some (w0, w1, s') else decode_bid_loop read_char (Suc i) w0 w1 s')"
  by pat_completeness auto
termination
  by (relation "measure (\<lambda>(rc, i, v0, v1, s). 17 - i)") auto

declare decode_bid_loop.simps [simp del]

definition decode_bid :: "('s \<Rightarrow> (u8 \<times> 's) option) \<Rightarrow> 's \<Rightarrow> ((u64 \<times> u64) \<times> 's) option" where
  "decode_bid read_char s = map_option (\<lambda>(w0, w1, s'). ((w0, w1), s')) (decode_bid_loop read_char 0 0 0 s)"

text \<open>Decoding from a buffer: the value and the number of bytes used, or nothing.\<close>

fun buffer_read_char :: "u8 list \<Rightarrow> (u8 \<times> u8 list) option" where
  "buffer_read_char [] = None"
| "buffer_read_char (c # cs) = Some (c, cs)"

definition decode_int_buffer :: "ity \<Rightarrow> u8 list \<Rightarrow> (int \<times> nat) option" where
  "decode_int_buffer T buffer =
     (case decode_int T buffer_read_char buffer of
        None \<Rightarrow> None
      | Some (v, rest) \<Rightarrow> Some (v, length buffer - length rest))"

subsection \<open>The coding of a natural number\<close>

function vlq :: "bool \<Rightarrow> nat \<Rightarrow> u8 list" where
  "vlq neg m = (if m < 64 then [of_nat (m + (if neg then 64 else 0))] else of_nat (128 + m mod 128) # vlq neg (m div 128))"
  by pat_completeness auto
termination
  by (relation "measure snd") auto

declare vlq.simps [simp del]

lemma or_128: "m < 128 \<Longrightarrow> 128 OR (m :: nat) = 128 + m"
  using or_push_nat [of m 7 1] by (simp add: or.commute push_bit_eq_mult)

lemma or_64: "m < 64 \<Longrightarrow> 64 OR (m :: nat) = 64 + m"
  using or_push_nat [of m 6 1] by (simp add: or.commute push_bit_eq_mult)

lemma encode_loop_vlq:
  assumes "m < 2 ^ (7 * n)"
  shows "(case encode_loop n m of (bs, r) \<Rightarrow> bs @ [of_nat (if neg then 64 OR r else r)]) = vlq neg m"
  using assms
proof (induction n arbitrary: m)
  case 0
  then show ?case by (simp add: vlq.simps)
next
  case (Suc n)
  have d: "drop_bit 6 m = m div 64" "drop_bit 7 m = m div 128" "take_bit 7 m = m mod 128"
    by (simp_all add: drop_bit_eq_div take_bit_eq_mod)
  show ?case
  proof (cases "m < 64")
    case True
    then show ?thesis using d(1) by (simp add: vlq.simps or_64)
  next
    case False
    have "m div 128 < 2 ^ (7 * n)" using Suc.prems by (simp add: less_mult_imp_div_less power_add mult.commute)
    from Suc.IH [OF this] show ?thesis
      using False d by (subst vlq.simps) (auto simp: or_128 div_eq_0_iff split: prod.splits)
  qed
qed

definition ity_code :: "ity \<Rightarrow> int \<Rightarrow> bool \<times> nat" where
  "ity_code T v = (if ity_signed T \<and> v < 0 then (True, nat (- (v + 1))) else (False, nat v))"

lemma encode_int_vlq:
  assumes "ity_range T v"
  shows "encode_int T v = (case ity_code T v of (neg, m) \<Rightarrow> vlq neg m)"
proof -
  have "snd (ity_code T v) < 2 ^ ity_digits T"
    using assms by (cases T) (auto simp: ity_range_def ity_code_def ity_max_def)
  also have "\<dots> \<le> 2 ^ (7 * encode_int_max_bytes T)" by (cases T) (simp_all add: encode_int_max_bytes_def)
  finally show ?thesis
    using encode_loop_vlq [of "snd (ity_code T v)" "encode_int_max_bytes T" "fst (ity_code T v)"]
    by (auto simp: encode_int_def ity_code_def Let_def split: prod.splits)
qed

subsection \<open>Round trips\<close>

text \<open>\<open>delivers rc s bs s'\<close>: reading from \<open>s\<close> gives the bytes \<open>bs\<close> and then is at \<open>s'\<close>.\<close>

fun delivers :: "('s \<Rightarrow> (u8 \<times> 's) option) \<Rightarrow> 's \<Rightarrow> u8 list \<Rightarrow> 's \<Rightarrow> bool" where
  "delivers rc s [] s' \<longleftrightarrow> s' = s"
| "delivers rc s (b # bs) s' \<longleftrightarrow> (\<exists>t. rc s = Some (b, t) \<and> delivers rc t bs s')"

lemma delivers_buffer [simp]: "delivers buffer_read_char (bs @ rest) bs rest"
  by (induction bs) auto

lemma and_bit7: "n < 256 \<Longrightarrow> (n :: nat) AND 128 = 0 \<longleftrightarrow> n < 128"
proof -
  assume n: "n < 256"
  have "n AND 128 = 0 \<longleftrightarrow> even (n div 128)" using and_exp_eq_0_iff_not_bit [of n 7] by (simp add: bit_iff_odd)
  moreover have "n div 128 = 0 \<or> n div 128 = 1" using n by linarith
  ultimately show ?thesis by (auto simp: div_eq_0_iff)
qed

lemma and_bit6: "n < 128 \<Longrightarrow> (n :: nat) AND 64 = 0 \<longleftrightarrow> n < 64"
proof -
  assume n: "n < 128"
  have "n AND 64 = 0 \<longleftrightarrow> even (n div 64)" using and_exp_eq_0_iff_not_bit [of n 6] by (simp add: bit_iff_odd)
  moreover have "n div 64 = 0 \<or> n div 64 = 1" using n by linarith
  ultimately show ?thesis by (auto simp: div_eq_0_iff)
qed

lemma unat_byte: "n < 256 \<Longrightarrow> unat (of_nat n :: u8) = n"
  by (simp add: unsigned_of_nat take_bit_nat_eq_self)

lemma decode_loop_last:
  assumes "rc s = Some (c, s')" "unat c = b" "b < 128" "b mod 64 \<le> drop_bit (i * 7) (ity_max T)"
  shows "decode_loop T rc (Suc n) i acc s = Some (acc OR push_bit (i * 7) (b mod 64), b, s')"
proof -
  have "b AND 128 = 0" using and_bit7 [of b] assms(3) by simp
  then show ?thesis using assms by (simp add: Let_def and_63 int_shift_left_with_overflow_detect_def)
qed

lemma decode_loop_more:
  assumes "rc s = Some (c, t)" "unat c = b" "128 \<le> b" "0 < n"
  shows "decode_loop T rc (Suc n) i acc s = decode_loop T rc n (Suc i) (acc OR push_bit (i * 7) (b mod 128)) t"
proof -
  have "b < 256" using assms(2) unsigned_less [of c, where ?'a = nat] by simp
  then have "b AND 128 \<noteq> 0" using and_bit7 [of b] assms(3) by simp
  then show ?thesis using assms by (simp add: Let_def and_127)
qed

lemma decode_loop_vlq:
  assumes "m * 2 ^ (i * 7) \<le> ity_max T" "n = encode_int_max_bytes T - i" "0 < n" "acc < 2 ^ (i * 7)" "delivers rc s (vlq neg m) s'"
  shows "\<exists>part. decode_loop T rc n i acc s = Some (acc + 2 ^ (i * 7) * m, part, s') \<and> (part AND 0x40 \<noteq> 0 \<longleftrightarrow> neg)"
  using assms
proof (induction neg m arbitrary: i n acc s rule: vlq.induct)
  case (1 neg m)
  obtain n' where n: "n = Suc n'" using "1.prems"(3) by (cases n) auto
  show ?case
  proof (cases "m < 64")
    case True
    define b where "b = m + (if neg then 64 else 0)"
    have b: "b < 128" "b mod 64 = m" using True by (auto simp: b_def)
    have "rc s = Some (of_nat b, s')" using "1.prems"(5) True by (simp add: vlq.simps b_def)
    moreover have "m \<le> drop_bit (i * 7) (ity_max T)" using "1.prems"(1) by (simp add: drop_bit_eq_div less_eq_div_iff_mult_less_eq)
    ultimately have "decode_loop T rc n i acc s = Some (acc OR push_bit (i * 7) m, b, s')"
      using decode_loop_last [of rc s "of_nat b" s' b i T n' acc] b n by (simp add: unat_byte)
    moreover have "b AND 64 \<noteq> 0 \<longleftrightarrow> neg" using and_bit6 [OF b(1)] True by (simp add: b_def)
    ultimately show ?thesis using or_push_nat [OF "1.prems"(4)] by auto
  next
    case False
    define b where "b = 128 + m mod 128"
    have "b < 256" "128 \<le> b" "b mod 128 = m mod 128" by (simp_all add: b_def)
    then have b: "unat (of_nat b :: u8) = b" "128 \<le> b" "b mod 128 = m mod 128" by (simp_all add: unat_byte)
    have "vlq neg m = of_nat b # vlq neg (m div 128)" using False by (subst vlq.simps) (simp add: b_def)
    then obtain t where t: "rc s = Some (of_nat b, t)" "delivers rc t (vlq neg (m div 128)) s'"
      using "1.prems"(5) by auto
    have "2 ^ 6 * 2 ^ (i * 7) \<le> m * 2 ^ (i * 7)" using False by simp
    also have "\<dots> \<le> ity_max T" by (rule "1.prems"(1))
    also have "\<dots> < 2 ^ ity_digits T" by (simp add: ity_max_def)
    finally have "2 ^ (6 + i * 7) < (2 :: nat) ^ ity_digits T" by (simp add: power_add)
    then have "6 + i * 7 < ity_digits T" using power_less_imp_less_exp [of 2] by simp
    then have n0: "n' = encode_int_max_bytes T - Suc i" "0 < n'"
      using "1.prems"(2) n by (auto simp: encode_int_max_bytes_def)
    have v: "acc OR push_bit (i * 7) (b mod 128) = acc + 2 ^ (i * 7) * (m mod 128)"
      unfolding b(3) by (rule or_push_nat [OF "1.prems"(4)])
    have "acc + 2 ^ (i * 7) * (m mod 128) < 2 ^ (i * 7) + 2 ^ (i * 7) * (m mod 128)" using "1.prems"(4) by simp
    also have "\<dots> = 2 ^ (i * 7) * (1 + m mod 128)" by (simp add: algebra_simps)
    also have "\<dots> \<le> 2 ^ (i * 7) * 128" by (intro mult_le_mono) simp_all
    finally have lt: "acc + 2 ^ (i * 7) * (m mod 128) < 2 ^ (Suc i * 7)" by (simp add: power_add mult.commute)
    have "m div 128 * 2 ^ (Suc i * 7) = (m div 128 * 128) * 2 ^ (i * 7)" by (simp add: power_add)
    also have "\<dots> \<le> m * 2 ^ (i * 7)" by (intro mult_le_mono) simp_all
    finally have le: "m div 128 * 2 ^ (Suc i * 7) \<le> ity_max T" using "1.prems"(1) by simp
    from "1.IH" [OF False le n0 lt t(2)] obtain part where P: "part AND 0x40 \<noteq> 0 \<longleftrightarrow> neg"
      "decode_loop T rc n' (Suc i) (acc + 2 ^ (i * 7) * (m mod 128)) t =
         Some (acc + 2 ^ (i * 7) * (m mod 128) + 2 ^ (Suc i * 7) * (m div 128), part, s')" by blast
    have p7: "(2 :: nat) ^ (Suc i * 7) = 2 ^ (i * 7) * 128" by (simp add: power_add)
    have "2 ^ (i * 7) * (m mod 128) + 2 ^ (Suc i * 7) * (m div 128) = 2 ^ (i * 7) * (m mod 128 + 128 * (m div 128))"
      using p7 by (simp only: distrib_left mult.assoc)
    also have "\<dots> = 2 ^ (i * 7) * m" unfolding mod_mult_div_eq ..
    finally have "acc + 2 ^ (i * 7) * (m mod 128) + 2 ^ (Suc i * 7) * (m div 128) = acc + 2 ^ (i * 7) * m" by simp
    moreover have "decode_loop T rc n i acc s = decode_loop T rc n' (Suc i) (acc OR push_bit (i * 7) (b mod 128)) t"
      unfolding n by (rule decode_loop_more [of rc s, OF t(1) b(1,2) n0(2)])
    ultimately show ?thesis unfolding v using P by auto
  qed
qed

text \<open>A value written for one type is read for any type that holds it, as long as both give it the same sign.\<close>

lemma decode_encode_int:
  assumes "ity_range T v" "ity_range T' v" "delivers rc s (encode_int T v) s'"
  shows "decode_int T' rc s = Some (v, s')"
proof -
  obtain neg m where c: "ity_code T v = (neg, m)" by force
  have e: "delivers rc s (vlq neg m) s'" using assms(3) encode_int_vlq [OF assms(1)] c by simp
  have m: "m \<le> ity_max T'" "neg \<longrightarrow> ity_signed T'" "v = (if neg then - int m - 1 else int m)"
    using c assms(1,2) by (auto simp: ity_code_def ity_range_def split: if_splits)
  have mb: "0 < encode_int_max_bytes T'" by (simp add: encode_int_max_bytes_def)
  obtain part where P: "decode_loop T' rc (encode_int_max_bytes T') 0 0 s = Some (m, part, s')" "part AND 0x40 \<noteq> 0 \<longleftrightarrow> neg"
    using decode_loop_vlq [of m 0 T' "encode_int_max_bytes T'" 0 rc s neg s'] m(1) mb e by auto
  show ?thesis
    using P m assms(2) by (auto simp: decode_int_def ity_negate_def int_subtract_with_overflow_detect_def)
qed

lemma decode_int_buffer_encode:
  assumes "ity_range T v"
  shows "decode_int_buffer T (encode_int T v @ rest) = Some (v, length (encode_int T v))"
  using decode_encode_int [OF assms assms delivers_buffer, of rest] by (simp add: decode_int_buffer_def)

subsection \<open>Decimal coefficients\<close>

lemma encode_bid_vlq: "encode_bid v0 v1 = vlq False (words_value v0 v1)"
proof (induction v0 v1 rule: encode_bid.induct)
  case (1 v0 v1)
  have d: "drop_bit 6 v0 = 0 \<longleftrightarrow> unat v0 < 64"
  proof -
    have "drop_bit 6 v0 = 0 \<longleftrightarrow> unat (drop_bit 6 v0) = 0" by (simp add: unat_eq_0)
    then show ?thesis unfolding unat_drop_bit_eq by (simp add: drop_bit_eq_div div_eq_0_iff)
  qed
  show ?case
  proof (cases "drop_bit 6 v0 \<noteq> 0 \<or> v1 \<noteq> 0")
    case True
    obtain w0 w1 where w: "words_shift v0 v1 = (w0, w1)" by force
    have m: "words_value v0 v1 mod 128 = unat v0 mod 128"
      using mod_mult_self2 [of "unat v0" 128 "2 ^ 57 * unat v1"] by (simp add: words_value_def)
    have "0 < unat v1" if "v1 \<noteq> 0" using that unat_eq_0 [of v1] by simp
    then have "\<not> words_value v0 v1 < 64" using True d by (cases "v1 = 0") (auto simp: words_value_def)
    then have "vlq False (words_value v0 v1) = of_nat (128 + unat v0 mod 128) # vlq False (words_value w0 w1)"
      using words_shift_value [OF w] m by (subst vlq.simps) simp
    moreover have "128 OR ucast (v0 AND 127) = (of_nat (128 + unat v0 mod 128) :: u8)"
    proof -
      have "ucast (v0 AND 127) = (of_nat (unat v0 mod 128) :: u8)"
      proof -
        have "unat (v0 AND 127) = unat v0 mod 128" by (simp add: unsigned_and_eq and_127)
        then show ?thesis using of_nat_unat [of "v0 AND 127", where ?'a = u8] by metis
      qed
      then show ?thesis using of_nat_or_eq [of 128 "unat v0 mod 128", where ?'a = u8] by (simp add: or_128)
    qed
    ultimately show ?thesis using True w "1.IH" [OF True w [symmetric]] by (subst encode_bid.simps) (simp add: w)
  next
    case False
    then show ?thesis using d by (subst encode_bid.simps, subst vlq.simps) (simp add: words_value_def)
  qed
qed

definition bid_step :: "nat \<Rightarrow> u64 \<Rightarrow> u64 \<Rightarrow> u64 \<Rightarrow> u64 \<times> u64" where
  "bid_step i part v0 v1 =
     (if i < 9 then (v0 OR push_bit (7 * i) part, v1)
      else if i = 9 then (v0 OR push_bit 63 part, v1 OR drop_bit 1 part)
      else (v0, v1 OR push_bit (7 * i - 64) part))"

lemma words_value_small: "words_value v0 v1 < 2 ^ k \<Longrightarrow> k \<le> 64 \<Longrightarrow> v1 = 0 \<and> unat v0 < 2 ^ k"
proof -
  assume a: "words_value v0 v1 < 2 ^ k" "k \<le> 64"
  have "(2 :: nat) ^ k \<le> 2 ^ 64" using a(2) by (rule power_increasing) simp
  then have "2 ^ 64 * unat v1 < 2 ^ 64" using a(1) unfolding words_value_def by linarith
  then have "unat v1 = 0" by simp
  then show ?thesis using a(1) by (simp add: words_value_def unat_eq_0)
qed

lemma bid_step_value:
  assumes "bid_step i part v0 v1 = (w0, w1)" "i \<le> 16" "unat part < 128" "words_value v0 v1 < 2 ^ (7 * i)"
  shows "words_value w0 w1 = words_value v0 v1 + 2 ^ (7 * i) * unat part"
proof -
  consider "i < 9" | "i = 9" | "9 < i" by linarith
  then show ?thesis
  proof cases
    case 1
    have "7 * i \<le> 64" using 1 by simp
    from words_value_small [OF assms(4) this] have v: "v1 = 0" "unat v0 < 2 ^ (7 * i)" by simp_all
    have "unat part * 2 ^ (7 * i) < 2 ^ 7 * 2 ^ (7 * i)" using assms(3) by simp
    also have "\<dots> = 2 ^ (7 + 7 * i)" by (simp only: power_add)
    also have "\<dots> \<le> 2 ^ 64" using 1 by (intro power_increasing) simp_all
    finally have "unat (v0 OR push_bit (7 * i) part) = unat v0 + 2 ^ (7 * i) * unat part"
      using unat_or_push [OF v(2), of part] by simp
    then show ?thesis using assms(1) 1 v(1) by (auto simp: bid_step_def words_value_def)
  next
    case 2
    from words_value_small [OF assms(4)] 2 have v: "v1 = 0" "unat v0 < 2 ^ 63" by simp_all
    have "push_bit 63 part = push_bit 63 (part AND 1)"
      by (rule bit_word_eqI) (simp only: bit_push_bit_iff bit_and_iff bit_1_iff, auto)
    moreover have p1: "unat (part AND 1) = unat part mod 2" unfolding unsigned_and_eq by (simp add: and_one_eq)
    ultimately have "unat (v0 OR push_bit 63 part) = unat v0 + 2 ^ 63 * (unat part mod 2)"
      using unat_or_push [OF v(2), of "part AND 1"] by simp
    moreover have "unat (drop_bit 1 part) = unat part div 2" unfolding unat_drop_bit_eq by (simp add: drop_bit_eq_div)
    moreover have "2 ^ 63 * (unat part mod 2) + 2 ^ 64 * (unat part div 2) = 2 ^ 63 * (unat part mod 2 + 2 * (unat part div 2))"
      by (simp only: distrib_left) simp
    then have "2 ^ 63 * (unat part mod 2) + 2 ^ 64 * (unat part div 2) = 2 ^ 63 * unat part" unfolding mod_mult_div_eq .
    ultimately show ?thesis using assms(1) 2 v(1) by (simp add: bid_step_def words_value_def)
  next
    case 3
    let ?k = "7 * i - 64"
    have k: "7 * i = 64 + ?k" using 3 by simp
    have "2 ^ 64 * unat v1 < 2 ^ 64 * 2 ^ ?k"
      using assms(4) unfolding words_value_def by (subst (asm) k) (simp add: power_add)
    then have v: "unat v1 < 2 ^ ?k" by simp
    have "unat part * 2 ^ ?k < 2 ^ 7 * 2 ^ ?k" using assms(3) by simp
    also have "\<dots> = 2 ^ (7 + ?k)" by (simp only: power_add)
    also have "\<dots> \<le> 2 ^ 64" using assms(2) by (intro power_increasing) simp_all
    finally have "unat (v1 OR push_bit ?k part) = unat v1 + 2 ^ ?k * unat part"
      using unat_or_push [OF v, of part] by simp
    moreover have "w0 = v0" "w1 = v1 OR push_bit ?k part" using assms(1) 3 by (auto simp: bid_step_def)
    ultimately have "words_value w0 w1 = words_value v0 v1 + (2 ^ 64 * 2 ^ ?k) * unat part"
      by (simp add: words_value_def distrib_left)
    then show ?thesis by (subst k) (simp add: power_add)
  qed
qed

lemma decode_bid_loop_step:
  assumes "rc s = Some (c, t)" "i \<le> 16" "bid_step i (ucast (c AND 0x7F)) v0 v1 = (w0, w1)"
  shows "decode_bid_loop rc i v0 v1 s = (if unat c < 128 then Some (w0, w1, t) else decode_bid_loop rc (Suc i) w0 w1 t)"
proof -
  have "c AND 0x80 = 0 \<longleftrightarrow> unat (c AND 0x80) = 0" by (simp add: unat_eq_0)
  also have "\<dots> \<longleftrightarrow> unat c < 128"
    using and_bit7 [of "unat c"] unsigned_less [of c, where ?'a = nat] by (simp add: unsigned_and_eq)
  finally have "c AND 0x80 = 0 \<longleftrightarrow> unat c < 128" .
  then show ?thesis
    using assms by (subst decode_bid_loop.simps) (simp add: Let_def bid_step_def [symmetric] split del: if_split)
qed

lemma decode_bid_loop_vlq:
  assumes "m * 2 ^ (7 * i) < 2 ^ 113" "i \<le> 16" "words_value v0 v1 < 2 ^ (7 * i)" "delivers rc s (vlq False m) s'"
  shows "\<exists>w0 w1. decode_bid_loop rc i v0 v1 s = Some (w0, w1, s') \<and> words_value w0 w1 = words_value v0 v1 + 2 ^ (7 * i) * m"
  using assms
proof (induction "False" m arbitrary: i v0 v1 s rule: vlq.induct)
  case (1 m)
  define b where "b = (if m < 64 then m else 128 + m mod 128)"
  have b: "b < 256" "b mod 128 = m mod 128" by (simp_all add: b_def)
  define c where "c = (of_nat b :: u8)"
  have c: "unat c = b" "unat (ucast (c AND 0x7F) :: u64) = m mod 128"
  proof -
    show u: "unat c = b" unfolding c_def by (rule unat_byte [OF b(1)])
    have "unat (ucast (c AND 0x7F) :: u64) = unat (c AND 0x7F)"
    proof -
      have "unat (c AND 0x7F) < 2 ^ 64" using unsigned_less [of "c AND 0x7F", where ?'a = nat] by simp
      then show ?thesis unfolding unsigned_ucast_eq by (simp add: take_bit_nat_eq_self)
    qed
    then show "unat (ucast (c AND 0x7F) :: u64) = m mod 128" using u b(2) by (simp add: unsigned_and_eq and_127)
  qed
  obtain w0 w1 where w: "bid_step i (ucast (c AND 0x7F)) v0 v1 = (w0, w1)" by force
  have W: "words_value w0 w1 = words_value v0 v1 + 2 ^ (7 * i) * (m mod 128)"
    using bid_step_value [OF w "1.prems"(2) _ "1.prems"(3)] c(2) by simp
  show ?case
  proof (cases "m < 64")
    case True
    have "rc s = Some (c, s')" using "1.prems"(4) True by (simp add: vlq.simps c_def b_def)
    from decode_bid_loop_step [of rc s, OF this "1.prems"(2) w] show ?thesis using True W c(1) by (simp add: b_def)
  next
    case False
    have "vlq False m = c # vlq False (m div 128)" using False by (subst vlq.simps) (simp add: b_def c_def)
    then obtain t where t: "rc s = Some (c, t)" "delivers rc t (vlq False (m div 128)) s'" using "1.prems"(4) by auto
    have "2 ^ 6 * 2 ^ (7 * i) \<le> m * 2 ^ (7 * i)" using False by simp
    then have "2 ^ (6 + 7 * i) < (2 :: nat) ^ 113" using "1.prems"(1) by (simp only: power_add)
    then have i: "Suc i \<le> 16" using power_less_imp_less_exp [of "2 :: nat" "6 + 7 * i" 113] by simp
    have p7: "(2 :: nat) ^ (7 * Suc i) = 2 ^ (7 * i) * 128" by (simp add: power_add)
    have "words_value w0 w1 < 2 ^ (7 * i) + 2 ^ (7 * i) * (m mod 128)" using "1.prems"(3) W by simp
    also have "\<dots> = 2 ^ (7 * i) * (1 + m mod 128)" by (simp add: algebra_simps)
    also have "\<dots> \<le> 2 ^ (7 * i) * 128" by (intro mult_le_mono) simp_all
    finally have lt: "words_value w0 w1 < 2 ^ (7 * Suc i)" unfolding p7 .
    have "m div 128 * 2 ^ (7 * Suc i) = (m div 128 * 128) * 2 ^ (7 * i)" unfolding p7 by simp
    also have "\<dots> \<le> m * 2 ^ (7 * i)" by (intro mult_le_mono) simp_all
    finally have le: "m div 128 * 2 ^ (7 * Suc i) < 2 ^ 113" using "1.prems"(1) by simp
    obtain x0 x1 where X: "decode_bid_loop rc (Suc i) w0 w1 t = Some (x0, x1, s')"
      "words_value x0 x1 = words_value w0 w1 + 2 ^ (7 * Suc i) * (m div 128)"
      using "1.hyps" [OF False le i lt t(2)] by blast
    have "2 ^ (7 * i) * (m mod 128) + 2 ^ (7 * Suc i) * (m div 128) = 2 ^ (7 * i) * (m mod 128 + 128 * (m div 128))"
      using p7 by (simp only: distrib_left mult.assoc)
    also have "\<dots> = 2 ^ (7 * i) * m" unfolding mod_mult_div_eq ..
    finally have "words_value x0 x1 = words_value v0 v1 + 2 ^ (7 * i) * m" using X(2) W by simp
    then show ?thesis using decode_bid_loop_step [of rc s, OF t(1) "1.prems"(2) w] X(1) c(1) False by (simp add: b_def)
  qed
qed

lemma words_value_inj: "words_value v0 v1 = words_value w0 w1 \<Longrightarrow> v0 = w0 \<and> v1 = w1"
proof -
  assume a: "words_value v0 v1 = words_value w0 w1"
  have l: "unat v0 < 2 ^ 64" "unat w0 < 2 ^ 64" using unsigned_less [of v0, where ?'a = nat] unsigned_less [of w0, where ?'a = nat] by simp_all
  have "words_value v0 v1 mod 2 ^ 64 = unat v0" "words_value w0 w1 mod 2 ^ 64 = unat w0" using l by (simp_all add: words_value_def)
  then have "unat v0 = unat w0" using a by simp
  then show ?thesis using a by (simp add: words_value_def word_eq_iff_unsigned [where ?'a = nat])
qed

lemma decode_encode_bid:
  assumes "unat v1 < 2 ^ 49" "delivers rc s (encode_bid v0 v1) s'"
  shows "decode_bid rc s = Some ((v0, v1), s')"
proof -
  have "unat v0 < 2 ^ 64" using unsigned_less [of v0, where ?'a = nat] by simp
  then have "words_value v0 v1 < 2 ^ 113" using assms(1) by (simp add: words_value_def)
  then obtain w0 w1 where w: "decode_bid_loop rc 0 0 0 s = Some (w0, w1, s')" "words_value w0 w1 = words_value v0 v1"
    using decode_bid_loop_vlq [of "words_value v0 v1" 0 0 0 rc s s'] assms(2) by (auto simp: encode_bid_vlq words_value_def)
  then show ?thesis using words_value_inj [of w0 w1 v0 v1] by (simp add: decode_bid_def)
qed

subsection \<open>Bounds\<close>

lemma shifted_max:
  assumes "p \<le> drop_bit k (ity_max T)" "v < 2 ^ k" "k \<le> ity_digits T"
  shows "v + 2 ^ k * p \<le> ity_max T"
proof -
  obtain j where j: "ity_digits T = k + j" using assms(3) le_Suc_ex by blast
  have "(2 ^ (k + j) - 1) div 2 ^ k < (2 :: nat) ^ j" by (rule less_mult_imp_div_less) (simp add: power_add mult.commute)
  then have "p < 2 ^ j" using assms(1) j by (simp add: drop_bit_eq_div ity_max_def)
  then have "2 ^ k * (p + 1) \<le> 2 ^ k * 2 ^ j" by (intro mult_le_mono2) simp
  then have "v + 2 ^ k * p < 2 ^ (k + j)" using assms(2) by (simp add: power_add)
  then show ?thesis using j by (simp add: ity_max_def)
qed

lemma decode_loop_bounds:
  assumes "decode_loop T buffer_read_char n i acc s = Some (w, part, s')" "n = encode_int_max_bytes T - i" "0 < n" "acc < 2 ^ (i * 7)"
  shows "w \<le> ity_max T \<and> length s' < length s \<and> length s \<le> length s' + n"
  using assms
proof (induction n arbitrary: i acc s)
  case (Suc n)
  have i: "i * 7 \<le> ity_digits T" using Suc.prems(2) by (simp add: encode_int_max_bytes_def)
  obtain c t where s: "s = c # t" using Suc.prems(1) by (cases s) simp_all
  have c: "unat c < 256" using unsigned_less [of c, where ?'a = nat] by simp
  show ?case
  proof (cases "unat c AND 128 = 0")
    case True
    then have w: "unat c AND 63 \<le> drop_bit (i * 7) (ity_max T)" "w = acc OR push_bit (i * 7) (unat c AND 63)" "s' = t"
      using Suc.prems(1) s by (auto simp: Let_def int_shift_left_with_overflow_detect_def split: if_splits)
    have "w \<le> ity_max T" unfolding w(2) or_push_nat [OF Suc.prems(4)] by (rule shifted_max [OF w(1) Suc.prems(4) i])
    then show ?thesis using w(3) s by simp
  next
    case False
    let ?acc = "acc OR push_bit (i * 7) (unat c AND 127)"
    have n: "0 < n" and d: "decode_loop T buffer_read_char n (Suc i) ?acc t = Some (w, part, s')"
      using Suc.prems(1) s False by (auto simp: Let_def split: if_splits)
    have "?acc = acc + 2 ^ (i * 7) * (unat c mod 128)" using or_push_nat [OF Suc.prems(4)] by (simp add: and_127)
    also have "\<dots> < 2 ^ (i * 7) + 2 ^ (i * 7) * (unat c mod 128)" using Suc.prems(4) by simp
    also have "\<dots> = 2 ^ (i * 7) * (1 + unat c mod 128)" by (simp add: algebra_simps)
    also have "\<dots> \<le> 2 ^ (i * 7) * 128" by (intro mult_le_mono) simp_all
    finally have "?acc < 2 ^ (Suc i * 7)" by (simp add: power_add mult.commute)
    moreover have "n = encode_int_max_bytes T - Suc i" using Suc.prems(2) by simp
    ultimately have "w \<le> ity_max T \<and> length s' < length t \<and> length t \<le> length s' + n" using Suc.IH [OF d _ n] by blast
    then show ?thesis using s by simp
  qed
qed simp

lemma ity_negate_range: "v \<le> ity_max T \<Longrightarrow> ity_range T (int v)"
  by (cases T) (auto simp: ity_range_def)

lemma decode_int_buffer_bounds:
  assumes "decode_int_buffer T buffer = Some (v, n)"
  shows "ity_range T v \<and> 0 < n \<and> n \<le> encode_int_max_bytes T \<and> n \<le> length buffer"
proof -
  obtain rest where d: "decode_int T buffer_read_char buffer = Some (v, rest)" "n = length buffer - length rest"
    using assms by (auto simp: decode_int_buffer_def split: option.splits)
  obtain w part where l: "decode_loop T buffer_read_char (encode_int_max_bytes T) 0 0 buffer = Some (w, part, rest)"
    "v = int w \<or> ity_range T v"
    using d(1) by (auto simp: decode_int_def int_subtract_with_overflow_detect_def split: option.splits if_splits prod.splits)
  have "w \<le> ity_max T \<and> length rest < length buffer \<and> length buffer \<le> length rest + encode_int_max_bytes T"
    by (rule decode_loop_bounds [OF l(1)]) (simp_all add: encode_int_max_bytes_def)
  then show ?thesis using l(2) d(2) ity_negate_range [of w T] by auto
qed

end
