(* ===== verification/Changeset.thy ===== *)
theory Changeset
  imports Integer_Codec
begin

text \<open>
  Instructions (\<open>sync/instructions.hpp\<close>) and changesets (\<open>sync/changeset.hpp\<close>, \<open>sync/changeset.cpp\<close>) of the synchronisation
  protocol. Interned strings are indices (\<open>nat\<close> for \<^verbatim>\<open>uint32_t\<close>, the largest value is \<open>npos\<close>), the bytes of strings are in
  the string buffer of the changeset and named by ranges. A payload is its type tag together with the member of the union
  that the tag selects; the type of the strings in it is a parameter, so that the bytes can take the place of the ranges.
  Floating point numbers and identifiers are their bytes.

  An entry of a changeset is one instruction or a vector of instructions; the empty vector is a tombstone. Iterators are
  the pair of the entry and the position in it.
\<close>

subsection \<open>Instructions\<close>

type_synonym intern_string = nat

definition intern_npos :: intern_string where
  "intern_npos = 2 ^ 32 - 1"

record string_range =
  sr_offset :: nat
  sr_size :: nat

datatype primary_key =
    PK_Null
  | PK_Int int
  | PK_GlobalKey nat nat
  | PK_String intern_string
  | PK_ObjectId "u8 list"
  | PK_UUID "u8 list"

datatype path_elem =
    PE_Name intern_string
  | PE_Index nat

definition is_array_index :: "path_elem list \<Rightarrow> bool" where
  "is_array_index p \<longleftrightarrow> p \<noteq> [] \<and> (case last p of PE_Index _ \<Rightarrow> True | PE_Name _ \<Rightarrow> False)"

datatype payload_type =
    PT_Set | PT_List | PT_Erased | PT_Dictionary | PT_ObjectValue | PT_GlobalKey | PT_Null | PT_Int | PT_Bool | PT_String
  | PT_Binary | PT_Timestamp | PT_Float | PT_Double | PT_Decimal | PT_Link | PT_ObjectId | PT_UUID

fun payload_type_code :: "payload_type \<Rightarrow> int" where
  "payload_type_code PT_Set = -6"
| "payload_type_code PT_List = -5"
| "payload_type_code PT_Erased = -4"
| "payload_type_code PT_Dictionary = -3"
| "payload_type_code PT_ObjectValue = -2"
| "payload_type_code PT_GlobalKey = -1"
| "payload_type_code PT_Null = 0"
| "payload_type_code PT_Int = 1"
| "payload_type_code PT_Bool = 2"
| "payload_type_code PT_String = 3"
| "payload_type_code PT_Binary = 4"
| "payload_type_code PT_Timestamp = 5"
| "payload_type_code PT_Float = 6"
| "payload_type_code PT_Double = 7"
| "payload_type_code PT_Decimal = 8"
| "payload_type_code PT_Link = 9"
| "payload_type_code PT_ObjectId = 10"
| "payload_type_code PT_UUID = 11"

datatype 's payload =
    P_Set
  | P_List
  | P_Erased
  | P_Dictionary
  | P_ObjectValue
  | P_GlobalKey nat nat
  | P_Null
  | P_Int int
  | P_Bool bool
  | P_String 's
  | P_Binary 's
  | P_Timestamp int int
  | P_Float "u8 list"
  | P_Double "u8 list"
  | P_Decimal u64 u64
  | P_Link intern_string primary_key
  | P_ObjectId "u8 list"
  | P_UUID "u8 list"

fun payload_kind :: "'s payload \<Rightarrow> payload_type" where
  "payload_kind P_Set = PT_Set"
| "payload_kind P_List = PT_List"
| "payload_kind P_Erased = PT_Erased"
| "payload_kind P_Dictionary = PT_Dictionary"
| "payload_kind P_ObjectValue = PT_ObjectValue"
| "payload_kind (P_GlobalKey _ _) = PT_GlobalKey"
| "payload_kind P_Null = PT_Null"
| "payload_kind (P_Int _) = PT_Int"
| "payload_kind (P_Bool _) = PT_Bool"
| "payload_kind (P_String _) = PT_String"
| "payload_kind (P_Binary _) = PT_Binary"
| "payload_kind (P_Timestamp _ _) = PT_Timestamp"
| "payload_kind (P_Float _) = PT_Float"
| "payload_kind (P_Double _) = PT_Double"
| "payload_kind (P_Decimal _ _) = PT_Decimal"
| "payload_kind (P_Link _ _) = PT_Link"
| "payload_kind (P_ObjectId _) = PT_ObjectId"
| "payload_kind (P_UUID _) = PT_UUID"

datatype collection_type = CT_Single | CT_List | CT_Dictionary | CT_Set

fun collection_type_code :: "collection_type \<Rightarrow> int" where
  "collection_type_code CT_Single = 0"
| "collection_type_code CT_List = 1"
| "collection_type_code CT_Dictionary = 2"
| "collection_type_code CT_Set = 3"

record path_instr =
  pi_table :: intern_string
  pi_object :: primary_key
  pi_field :: intern_string
  pi_path :: "path_elem list"

datatype table_spec =
    TopLevelTable intern_string payload_type bool bool
  | EmbeddedTable

text \<open>The union of \<^verbatim>\<open>is_default\<close> and \<^verbatim>\<open>prior_size\<close> in \<^verbatim>\<open>Update\<close> is one number, 0 or 1 for the flag.\<close>

datatype 's instruction =
    AddTable intern_string table_spec
  | EraseTable intern_string
  | CreateObject intern_string primary_key
  | EraseObject intern_string primary_key
  | Update path_instr "'s payload" nat
  | AddInteger path_instr int
  | AddColumn intern_string intern_string payload_type payload_type bool collection_type intern_string
  | EraseColumn intern_string intern_string
  | ArrayInsert path_instr "'s payload" nat
  | ArrayMove path_instr nat nat
  | ArrayErase path_instr nat
  | Clear path_instr collection_type
  | SetInsert path_instr "'s payload"
  | SetErase path_instr "'s payload"

datatype instr_type =
    T_AddTable | T_EraseTable | T_CreateObject | T_EraseObject | T_Update | T_AddInteger | T_AddColumn | T_EraseColumn
  | T_ArrayInsert | T_ArrayMove | T_ArrayErase | T_Clear | T_SetInsert | T_SetErase

fun instr_type_code :: "instr_type \<Rightarrow> nat" where
  "instr_type_code T_AddTable = 0"
| "instr_type_code T_EraseTable = 1"
| "instr_type_code T_CreateObject = 2"
| "instr_type_code T_EraseObject = 3"
| "instr_type_code T_Update = 4"
| "instr_type_code T_AddInteger = 5"
| "instr_type_code T_AddColumn = 6"
| "instr_type_code T_EraseColumn = 7"
| "instr_type_code T_ArrayInsert = 8"
| "instr_type_code T_ArrayMove = 9"
| "instr_type_code T_ArrayErase = 10"
| "instr_type_code T_Clear = 11"
| "instr_type_code T_SetInsert = 12"
| "instr_type_code T_SetErase = 13"

definition InstrTypeInternString :: int where
  "InstrTypeInternString = 0x3f"

fun is_valid_key_type :: "payload_type \<Rightarrow> bool" where
  "is_valid_key_type PT_Int = True"
| "is_valid_key_type PT_String = True"
| "is_valid_key_type PT_ObjectId = True"
| "is_valid_key_type PT_UUID = True"
| "is_valid_key_type PT_GlobalKey = True"
| "is_valid_key_type _ = False"

subsection \<open>Changesets\<close>

type_synonym instr = "string_range instruction"

datatype entry =
    One instr
  | Vector "instr list"

record changeset =
  cs_instructions :: "entry list"
  cs_string_buffer :: "u8 list"
  cs_strings :: "string_range list"
  cs_dirty :: bool

definition cs_empty :: changeset where
  "cs_empty = \<lparr>cs_instructions = [], cs_string_buffer = [], cs_strings = [], cs_dirty = False\<rparr>"

fun convert_to_vector :: "entry \<Rightarrow> instr list" where
  "convert_to_vector (Vector v) = v"
| "convert_to_vector (One i) = [i]"

fun entry_size :: "entry \<Rightarrow> nat" where
  "entry_size (Vector v) = length v"
| "entry_size (One i) = 1"

fun entry_at :: "entry \<Rightarrow> nat \<Rightarrow> instr result" where
  "entry_at (Vector v) n = rbind (rassert (n < length v)) (\<lambda>_. Inr (v ! n))"
| "entry_at (One i) n = rbind (rassert (n = 0)) (\<lambda>_. Inr i)"

definition entry_insert :: "nat \<Rightarrow> instr \<Rightarrow> entry \<Rightarrow> entry result" where
  "entry_insert idx i e =
     (let v = convert_to_vector e
      in rbind (rassert (idx \<le> length v)) (\<lambda>_. Inr (Vector (take idx v @ i # drop idx v))))"

definition entry_erase :: "nat \<Rightarrow> entry \<Rightarrow> entry result" where
  "entry_erase idx e =
     (let v = convert_to_vector e
      in rbind (rassert (idx < length v)) (\<lambda>_. Inr (Vector (take idx v @ drop (Suc idx) v))))"

definition cs_size :: "changeset \<Rightarrow> nat" where
  "cs_size cs = sum_list (map entry_size (cs_instructions cs))"

definition cs_is_empty :: "changeset \<Rightarrow> bool" where
  "cs_is_empty cs \<longleftrightarrow> cs_size cs = 0"

definition cs_push_back :: "instr \<Rightarrow> changeset \<Rightarrow> changeset" where
  "cs_push_back i cs = cs\<lparr>cs_instructions := cs_instructions cs @ [One i]\<rparr>"

subsubsection \<open>Strings\<close>

definition try_get_string :: "string_range \<Rightarrow> changeset \<Rightarrow> u8 list option" where
  "try_get_string r cs =
     (if length (cs_string_buffer cs) < sr_offset r then None
      else if length (cs_string_buffer cs) < (sr_offset r + sr_size r) mod 2 ^ 32 then None
      else Some (take (sr_size r) (drop (sr_offset r) (cs_string_buffer cs))))"

definition get_string :: "string_range \<Rightarrow> changeset \<Rightarrow> u8 list result" where
  "get_string r cs = (case try_get_string r cs of None \<Rightarrow> Inl AssertFailed | Some s \<Rightarrow> Inr s)"

definition get_intern_string :: "intern_string \<Rightarrow> changeset \<Rightarrow> string_range result" where
  "get_intern_string s cs = rbind (rassert (s < length (cs_strings cs))) (\<lambda>_. Inr (cs_strings cs ! s))"

definition get_string_interned :: "intern_string \<Rightarrow> changeset \<Rightarrow> u8 list result" where
  "get_string_interned s cs = rbind (get_intern_string s cs) (\<lambda>r. get_string r cs)"

definition append_string :: "u8 list \<Rightarrow> changeset \<Rightarrow> string_range \<times> changeset" where
  "append_string s cs =
     (\<lparr>sr_offset = length (cs_string_buffer cs) mod 2 ^ 32, sr_size = length s mod 2 ^ 32\<rparr>,
      cs\<lparr>cs_string_buffer := cs_string_buffer cs @ s\<rparr>)"

fun find_string_from :: "nat \<Rightarrow> string_range list \<Rightarrow> u8 list \<Rightarrow> u8 list \<Rightarrow> intern_string" where
  "find_string_from i [] buf s = intern_npos"
| "find_string_from i (r # rs) buf s =
     (if take (sr_size r) (drop (sr_offset r) buf) = s then i else find_string_from (Suc i) rs buf s)"

definition find_string :: "u8 list \<Rightarrow> changeset \<Rightarrow> intern_string" where
  "find_string s cs = find_string_from 0 (cs_strings cs) (cs_string_buffer cs) s"

definition cs_intern_string :: "u8 list \<Rightarrow> changeset \<Rightarrow> (intern_string \<times> changeset) result" where
  "cs_intern_string s cs =
     (let interned = find_string s cs
      in if interned \<noteq> intern_npos then Inr (interned, cs)
         else rbind (rassert (length (cs_string_buffer cs) < 2 ^ 32 - 1)) (\<lambda>_.
              rbind (rassert (length (cs_strings cs) < 2 ^ 32 - 1)) (\<lambda>_.
              rbind (rassert (length s < 2 ^ 32 - 1)) (\<lambda>_.
                Inr (length (cs_strings cs),
                     cs\<lparr>cs_string_buffer := cs_string_buffer cs @ s,
                        cs_strings := cs_strings cs @ [\<lparr>sr_offset = length (cs_string_buffer cs), sr_size = length s\<rparr>]\<rparr>)))))"

subsubsection \<open>Iterators\<close>

type_synonym cs_it = "nat \<times> nat"

definition it_deref :: "changeset \<Rightarrow> cs_it \<Rightarrow> instr option result" where
  "it_deref cs it =
     (let e = cs_instructions cs ! fst it
      in if entry_size e \<noteq> 0 then rbind (entry_at e (snd it)) (\<lambda>i. Inr (Some i)) else Inr None)"

definition it_next :: "changeset \<Rightarrow> cs_it \<Rightarrow> cs_it" where
  "it_next cs it =
     (if entry_size (cs_instructions cs ! fst it) \<le> Suc (snd it) then (Suc (fst it), 0) else (fst it, Suc (snd it)))"

definition it_prev :: "changeset \<Rightarrow> cs_it \<Rightarrow> cs_it" where
  "it_prev cs it =
     (if snd it = 0 then (fst it - 1, entry_size (cs_instructions cs ! (fst it - 1)) - 1) else (fst it, snd it - 1))"

fun insert_instrs :: "nat \<Rightarrow> instr list \<Rightarrow> entry \<Rightarrow> entry result" where
  "insert_instrs pos [] e = Inr e"
| "insert_instrs pos (i # is) e = rbind (entry_insert pos i e) (insert_instrs (Suc pos) is)"

definition insert_stable :: "cs_it \<Rightarrow> instr list \<Rightarrow> changeset \<Rightarrow> changeset result" where
  "insert_stable it is cs =
     rbind (insert_instrs (snd it) is (cs_instructions cs ! fst it)) (\<lambda>e.
       Inr (cs\<lparr>cs_instructions := (cs_instructions cs)[fst it := e]\<rparr>))"

definition cs_insert :: "cs_it \<Rightarrow> instr list \<Rightarrow> changeset \<Rightarrow> changeset result" where
  "cs_insert it is cs =
     (if snd it = 0
      then Inr (cs\<lparr>cs_instructions := take (fst it) (cs_instructions cs) @ map One is @ drop (fst it) (cs_instructions cs)\<rparr>)
      else insert_stable it is cs)"

fun skip_empty :: "nat \<Rightarrow> entry list \<Rightarrow> nat" where
  "skip_empty n [] = n"
| "skip_empty n (e # es) = (if entry_size e = 0 then skip_empty (Suc n) es else n)"

definition erase_stable :: "cs_it \<Rightarrow> changeset \<Rightarrow> (cs_it \<times> changeset) result" where
  "erase_stable it cs =
     rbind (rassert (fst it < length (cs_instructions cs))) (\<lambda>_.
     rbind (entry_erase (snd it) (cs_instructions cs ! fst it)) (\<lambda>e.
       let cs' = cs\<lparr>cs_instructions := (cs_instructions cs)[fst it := e]\<rparr>;
           it' = (if entry_size e \<le> snd it
                  then (skip_empty (Suc (fst it)) (drop (Suc (fst it)) (cs_instructions cs')), 0) else it)
       in Inr (it', cs')))"

definition cs_erase :: "cs_it \<Rightarrow> changeset \<Rightarrow> (cs_it \<times> changeset) result" where
  "cs_erase it cs =
     (if entry_size (cs_instructions cs ! fst it) \<le> 1
      then Inr ((fst it, 0), cs\<lparr>cs_instructions := take (fst it) (cs_instructions cs) @ drop (Suc (fst it)) (cs_instructions cs)\<rparr>)
      else erase_stable it cs)"

text \<open>The instructions an iteration over the changeset visits, tombstones left out.\<close>

definition cs_instrs :: "changeset \<Rightarrow> instr list" where
  "cs_instrs cs = concat (map convert_to_vector (cs_instructions cs))"

function cs_visit :: "changeset \<Rightarrow> cs_it \<Rightarrow> instr list result" where
  "cs_visit cs it =
     (if fst it < length (cs_instructions cs)
      then rbind (it_deref cs it) (\<lambda>i. rbind (cs_visit cs (it_next cs it)) (\<lambda>is.
        Inr ((case i of None \<Rightarrow> [] | Some i \<Rightarrow> [i]) @ is)))
      else Inr [])"
  by pat_completeness auto
termination
  by (relation "measures [\<lambda>(cs, it). length (cs_instructions cs) - fst it,
    \<lambda>(cs, it). entry_size (cs_instructions cs ! fst it) - snd it]") (auto simp: it_next_def)

declare cs_visit.simps [simp del]

subsection \<open>Iteration and stable changes\<close>

lemma entry_size_length [simp]: "entry_size e = length (convert_to_vector e)"
  by (cases e) auto

lemma entry_at_nth: "n < length (convert_to_vector e) \<Longrightarrow> entry_at e n = Inr (convert_to_vector e ! n)"
  by (cases e) auto

lemma cs_visit_from:
  assumes "cs_instructions cs = xs @ e # ys" "k \<le> length (convert_to_vector e)" "k < length (convert_to_vector e) \<or> k = 0"
    "cs_visit cs (Suc (length xs), 0) = Inr rest"
  shows "cs_visit cs (length xs, k) = Inr (drop k (convert_to_vector e) @ rest)"
  using assms(2,3)
proof (induction "length (convert_to_vector e) - k" arbitrary: k)
  case 0
  then have "k = 0" "convert_to_vector e = []" by auto
  then show ?case using assms(1,4) by (subst cs_visit.simps) (simp add: it_deref_def it_next_def)
next
  case (Suc n)
  have k: "k < length (convert_to_vector e)" using Suc.hyps(2) by simp
  have d: "it_deref cs (length xs, k) = Inr (Some (convert_to_vector e ! k))"
    using assms(1) k by (auto simp: it_deref_def entry_at_nth)
  have v: "cs_visit cs (length xs, k) =
      rbind (cs_visit cs (it_next cs (length xs, k))) (\<lambda>is. Inr (convert_to_vector e ! k # is))"
    using assms(1) d by (subst cs_visit.simps) simp
  show ?case
  proof (cases "Suc k < length (convert_to_vector e)")
    case True
    then have "it_next cs (length xs, k) = (length xs, Suc k)" using assms(1) by (simp add: it_next_def)
    moreover have "cs_visit cs (length xs, Suc k) = Inr (drop (Suc k) (convert_to_vector e) @ rest)"
      using Suc.hyps(1) [of "Suc k"] Suc.hyps(2) True by simp
    ultimately show ?thesis using v k by (simp add: Cons_nth_drop_Suc [symmetric])
  next
    case False
    then have "it_next cs (length xs, k) = (Suc (length xs), 0)" using assms(1) by (simp add: it_next_def)
    moreover have "drop k (convert_to_vector e) = [convert_to_vector e ! k]"
      using False k by (simp add: Cons_nth_drop_Suc [symmetric])
    ultimately show ?thesis using v assms(4) by simp
  qed
qed

lemma cs_visit_suffix:
  assumes "cs_instructions cs = xs @ ys"
  shows "cs_visit cs (length xs, 0) = Inr (concat (map convert_to_vector ys))"
  using assms
proof (induction ys arbitrary: xs)
  case Nil
  then show ?case by (subst cs_visit.simps) simp
next
  case (Cons e ys)
  have "cs_visit cs (Suc (length xs), 0) = Inr (concat (map convert_to_vector ys))" using Cons.IH [of "xs @ [e]"] Cons.prems by simp
  then show ?case using cs_visit_from [OF Cons.prems, of 0] by simp
qed

lemma cs_visit_all: "cs_visit cs (0, 0) = Inr (cs_instrs cs)"
  using cs_visit_suffix [of cs "[]"] by (simp add: cs_instrs_def)

text \<open>The place of an iterator among the instructions.\<close>

definition it_pos :: "changeset \<Rightarrow> cs_it \<Rightarrow> nat" where
  "it_pos cs it = length (concat (map convert_to_vector (take (fst it) (cs_instructions cs)))) + snd it"

lemma insert_instrs_vector:
  "pos \<le> length (convert_to_vector e) \<Longrightarrow> \<exists>e'. insert_instrs pos is e = Inr e' \<and>
     convert_to_vector e' = take pos (convert_to_vector e) @ is @ drop pos (convert_to_vector e)"
proof (induction pos "is" e rule: insert_instrs.induct)
  case (2 pos i "is" e)
  define e1 where "e1 = Vector (take pos (convert_to_vector e) @ i # drop pos (convert_to_vector e))"
  have i: "entry_insert pos i e = Inr e1" using 2(2) by (simp add: entry_insert_def Let_def e1_def)
  have v: "convert_to_vector e1 = take pos (convert_to_vector e) @ i # drop pos (convert_to_vector e)" by (simp add: e1_def)
  then have "Suc pos \<le> length (convert_to_vector e1)" using 2(2) by simp
  then obtain e' where e': "insert_instrs (Suc pos) is e1 = Inr e'"
    "convert_to_vector e' = take (Suc pos) (convert_to_vector e1) @ is @ drop (Suc pos) (convert_to_vector e1)"
    using 2(1) [OF i] by blast
  have "take (Suc pos) (convert_to_vector e1) = take pos (convert_to_vector e) @ [i]"
    "drop (Suc pos) (convert_to_vector e1) = drop pos (convert_to_vector e)"
    unfolding v using 2(2) by simp_all
  then show ?case using i e' by simp
qed simp

lemma it_split:
  assumes "fst it < length (cs_instructions cs)"
  obtains xs e ys where "cs_instructions cs = xs @ e # ys" "fst it = length xs" "cs_instructions cs ! fst it = e"
  using id_take_nth_drop [OF assms] assms by (metis length_take min.absorb4)

lemma insert_stable_instrs:
  assumes "fst it < length (cs_instructions cs)" "snd it \<le> entry_size (cs_instructions cs ! fst it)"
  shows "\<exists>cs'. insert_stable it is cs = Inr cs' \<and>
    cs_instrs cs' = take (it_pos cs it) (cs_instrs cs) @ is @ drop (it_pos cs it) (cs_instrs cs)"
  using assms(1)
proof (rule it_split)
  fix xs e ys
  assume x: "cs_instructions cs = xs @ e # ys" "fst it = length xs" "cs_instructions cs ! fst it = e"
  obtain e' where e': "insert_instrs (snd it) is e = Inr e'"
    "convert_to_vector e' = take (snd it) (convert_to_vector e) @ is @ drop (snd it) (convert_to_vector e)"
    using insert_instrs_vector [of "snd it" e "is"] assms(2) x(3) by auto
  have "insert_stable it is cs = Inr (cs\<lparr>cs_instructions := xs @ e' # ys\<rparr>)"
    using e'(1) x(1,2) by (simp add: insert_stable_def)
  then show ?thesis using e'(2) x assms(2) by (simp add: cs_instrs_def it_pos_def)
qed

lemma erase_stable_instrs:
  assumes "fst it < length (cs_instructions cs)" "snd it < entry_size (cs_instructions cs ! fst it)"
  shows "\<exists>it' cs'. erase_stable it cs = Inr (it', cs') \<and>
    cs_instrs cs' = take (it_pos cs it) (cs_instrs cs) @ drop (Suc (it_pos cs it)) (cs_instrs cs) \<and>
    length (cs_instructions cs') = length (cs_instructions cs)"
  using assms(1)
proof (rule it_split)
  fix xs e ys
  assume x: "cs_instructions cs = xs @ e # ys" "fst it = length xs" "cs_instructions cs ! fst it = e"
  define v where "v = take (snd it) (convert_to_vector e) @ drop (Suc (snd it)) (convert_to_vector e)"
  define cs' where "cs' = cs\<lparr>cs_instructions := xs @ Vector v # ys\<rparr>"
  have s: "snd it < length (convert_to_vector e)" using assms(2) x(3) by simp
  have "entry_erase (snd it) e = Inr (Vector v)" using s by (simp add: entry_erase_def Let_def v_def)
  moreover have "cs\<lparr>cs_instructions := (cs_instructions cs)[fst it := Vector v]\<rparr> = cs'" using x(1,2) by (simp add: cs'_def)
  ultimately obtain it' where it': "erase_stable it cs = Inr (it', cs')"
    using assms(1) unfolding erase_stable_def x(3) Let_def by simp
  have "cs_instrs cs' = take (it_pos cs it) (cs_instrs cs) @ drop (Suc (it_pos cs it)) (cs_instrs cs)"
    using x(1,2) s by (simp add: cs_instrs_def it_pos_def v_def cs'_def)
  moreover have "length (cs_instructions cs') = length (cs_instructions cs)" using x(1) by (simp add: cs'_def)
  ultimately show ?thesis using it' by blast
qed

subsection \<open>Interned strings\<close>

definition range_bytes :: "u8 list \<Rightarrow> string_range \<Rightarrow> u8 list" where
  "range_bytes buf r = take (sr_size r) (drop (sr_offset r) buf)"

definition range_ok :: "u8 list \<Rightarrow> string_range \<Rightarrow> bool" where
  "range_ok buf r \<longleftrightarrow> sr_offset r + sr_size r \<le> length buf \<and> sr_offset r + sr_size r < 2 ^ 32"

lemma range_ok_append: "range_ok buf r \<Longrightarrow> range_ok (buf @ s) r \<and> range_bytes (buf @ s) r = range_bytes buf r"
  by (auto simp: range_ok_def range_bytes_def)

lemma get_string_range: "range_ok (cs_string_buffer cs) r \<Longrightarrow> get_string r cs = Inr (range_bytes (cs_string_buffer cs) r)"
  by (simp add: get_string_def try_get_string_def range_ok_def range_bytes_def)

definition cs_wf :: "changeset \<Rightarrow> bool" where
  "cs_wf cs \<longleftrightarrow> length (cs_strings cs) < 2 ^ 32 \<and> (\<forall>r \<in> set (cs_strings cs). range_ok (cs_string_buffer cs) r)"

definition cs_string_list :: "changeset \<Rightarrow> u8 list list" where
  "cs_string_list cs = map (range_bytes (cs_string_buffer cs)) (cs_strings cs)"

lemma find_string_from_correct:
  assumes "i + length rs < 2 ^ 32"
  shows "(find_string_from i rs buf s \<noteq> intern_npos \<longrightarrow> i \<le> find_string_from i rs buf s \<and>
      find_string_from i rs buf s < i + length rs \<and> range_bytes buf (rs ! (find_string_from i rs buf s - i)) = s) \<and>
    (find_string_from i rs buf s = intern_npos \<longrightarrow> s \<notin> set (map (range_bytes buf) rs))"
  using assms
proof (induction i rs buf s rule: find_string_from.induct)
  case (2 i r rs buf s)
  show ?case
  proof (cases "range_bytes buf r = s")
    case True
    then show ?thesis using 2(2) by (simp add: range_bytes_def intern_npos_def)
  next
    case False
    then show ?thesis using 2 by (auto simp: range_bytes_def nth_Cons' Suc_le_eq)
  qed
qed simp

lemma find_string_found:
  assumes "cs_wf cs" "s \<in> set (cs_string_list cs)" "distinct (cs_string_list cs)" "k < length (cs_strings cs)" "cs_string_list cs ! k = s"
  shows "find_string s cs = k"
proof -
  let ?k = "find_string s cs"
  have f: "?k \<noteq> intern_npos" "?k < length (cs_strings cs)" "range_bytes (cs_string_buffer cs) (cs_strings cs ! ?k) = s"
    using find_string_from_correct [of 0 "cs_strings cs" "cs_string_buffer cs" s] assms(1,2)
    by (auto simp: find_string_def cs_wf_def cs_string_list_def)
  then have "cs_string_list cs ! ?k = s" by (simp add: cs_string_list_def)
  then show ?thesis using assms(3,4,5) f(2) nth_eq_iff_index_eq [of "cs_string_list cs" ?k k] by (simp add: cs_string_list_def)
qed

lemma get_string_interned_list:
  assumes "cs_wf cs" "k < length (cs_strings cs)"
  shows "get_string_interned k cs = Inr (cs_string_list cs ! k)"
  using assms get_string_range [of cs "cs_strings cs ! k"]
  by (simp add: get_string_interned_def get_intern_string_def cs_wf_def cs_string_list_def)

lemma cs_string_list_snoc:
  assumes "cs_wf cs" "length (cs_string_buffer cs) + length s < 2 ^ 32" "length (cs_strings cs) < 2 ^ 32 - 1"
    "cs' = cs\<lparr>cs_string_buffer := cs_string_buffer cs @ s,
      cs_strings := cs_strings cs @ [\<lparr>sr_offset = length (cs_string_buffer cs), sr_size = length s\<rparr>]\<rparr>"
  shows "cs_wf cs' \<and> cs_string_list cs' = cs_string_list cs @ [s]"
proof -
  have "range_ok (cs_string_buffer cs @ s) \<lparr>sr_offset = length (cs_string_buffer cs), sr_size = length s\<rparr>"
    "range_bytes (cs_string_buffer cs @ s) \<lparr>sr_offset = length (cs_string_buffer cs), sr_size = length s\<rparr> = s"
    using assms(2) by (simp_all add: range_ok_def range_bytes_def)
  moreover have "range_ok (cs_string_buffer cs @ s) r \<and> range_bytes (cs_string_buffer cs @ s) r = range_bytes (cs_string_buffer cs) r"
    if "r \<in> set (cs_strings cs)" for r
    using assms(1) that range_ok_append [of "cs_string_buffer cs" r s] by (simp add: cs_wf_def)
  ultimately show ?thesis using assms(3,4) by (auto simp: cs_wf_def cs_string_list_def)
qed

text \<open>The string is found again under the index that interning gave it, the strings interned before keep their index,
  and interning it once more changes nothing.\<close>

lemma cs_intern_string_correct:
  assumes "cs_wf cs" "distinct (cs_string_list cs)" "length (cs_string_buffer cs) + length s < 2 ^ 32 - 1"
    "length (cs_strings cs) < 2 ^ 32 - 1"
  shows "\<exists>k cs' new. cs_intern_string s cs = Inr (k, cs') \<and> cs_wf cs' \<and> distinct (cs_string_list cs') \<and>
    cs_string_list cs' = cs_string_list cs @ new \<and> cs_instructions cs' = cs_instructions cs \<and>
    get_string_interned k cs' = Inr s \<and> cs_intern_string s cs' = Inr (k, cs')"
proof (cases "s \<in> set (cs_string_list cs)")
  case True
  then obtain k where k: "k < length (cs_strings cs)" "cs_string_list cs ! k = s" by (auto simp: in_set_conv_nth cs_string_list_def)
  then have "find_string s cs = k" using find_string_found [OF assms(1) True assms(2)] by blast
  moreover have "k \<noteq> intern_npos" using k(1) assms(1) by (auto simp: cs_wf_def intern_npos_def)
  ultimately have "cs_intern_string s cs = Inr (k, cs)" by (simp add: cs_intern_string_def Let_def)
  then show ?thesis using assms(1,2) get_string_interned_list [OF assms(1) k(1)] k(2) by auto
next
  case False
  let ?k = "length (cs_strings cs)"
  define cs' where "cs' = cs\<lparr>cs_string_buffer := cs_string_buffer cs @ s,
    cs_strings := cs_strings cs @ [\<lparr>sr_offset = length (cs_string_buffer cs), sr_size = length s\<rparr>]\<rparr>"
  have w: "cs_wf cs'" "cs_string_list cs' = cs_string_list cs @ [s]"
    using cs_string_list_snoc [OF assms(1) _ assms(4) cs'_def] assms(3) by simp_all
  have d: "distinct (cs_string_list cs')" using w(2) assms(2) False by simp
  have "length (cs_string_list cs) = ?k" by (simp add: cs_string_list_def)
  then have k: "?k < length (cs_strings cs')" "cs_string_list cs' ! ?k = s" "?k \<noteq> intern_npos"
    unfolding w(2) using assms(4) by (simp_all add: cs'_def nth_append intern_npos_def)
  have "range_bytes (cs_string_buffer cs) (cs_strings cs ! j) \<noteq> s" if "j < ?k" for j
    using False that by (auto simp: cs_string_list_def)
  then have "find_string s cs = intern_npos"
    using find_string_from_correct [of 0 "cs_strings cs" "cs_string_buffer cs" s] assms(1) by (auto simp: find_string_def cs_wf_def)
  then have i: "cs_intern_string s cs = Inr (?k, cs')" using assms(3,4) by (simp add: cs_intern_string_def Let_def cs'_def)
  have "find_string s cs' = ?k" using find_string_found [OF w(1) _ d k(1,2)] w(2) by simp
  then have "cs_intern_string s cs' = Inr (?k, cs')" using k(3) by (simp add: cs_intern_string_def Let_def)
  then show ?thesis using i w d get_string_interned_list [OF w(1) k(1)] k(2) by (auto simp: cs'_def)
qed

end
