(* ===== verification/Changeset_Props.thy ===== *)
theory Changeset_Props
  imports Changeset
begin

text \<open>
  The properties of the integer coding (\<open>sync/noinst/integer_codec.hpp\<close>) and of changesets as containers of instructions and
  interned strings (\<open>sync/changeset.hpp\<close>, \<open>sync/changeset.cpp\<close>).
\<close>

subsection \<open>Integers\<close>

text \<open>C18: For each integer type, decoding the encoding of a value of the type gives the value and uses exactly the bytes of the
  encoding, whatever follows them in the buffer. The encoding has at least one byte and at most the maximal number of bytes for
  the type.\<close>

theorem integer_codec_roundtrip:
  assumes "ity_range T v"
  shows "decode_int_buffer T (encode_int T v @ rest) = Some (v, length (encode_int T v)) \<and>
    0 < length (encode_int T v) \<and> length (encode_int T v) \<le> encode_int_max_bytes T"
  using decode_int_buffer_encode [OF assms, of rest]
    decode_int_buffer_bounds [OF decode_int_buffer_encode [OF assms, of "[]"]] by simp

theorem integer_codec_roundtrip_witness:
  "decode_int_buffer I64 (encode_int I64 (- 1000) @ [1, 2]) = Some (- 1000, length (encode_int I64 (- 1000))) \<and>
   encode_int I64 (- 1000) = [231, 71]"
proof -
  have "ity_range I64 (- 1000)" by (simp add: ity_range_def ity_max_def)
  moreover have "encode_int I64 (- 1000) = [231, 71]" by code_simp
  ultimately show ?thesis using integer_codec_roundtrip [of I64 "- 1000" "[1, 2]"] by simp
qed

text \<open>C19: Decoding arbitrary bytes either fails or gives a value in the range of the type and a number of bytes used that is at
  least one, at most the maximal number of bytes for the type, and not more than there are.\<close>

theorem integer_decode_bounds:
  assumes "decode_int_buffer T buffer = Some (v, n)"
  shows "ity_range T v \<and> 0 < n \<and> n \<le> encode_int_max_bytes T \<and> n \<le> length buffer"
  using assms by (rule decode_int_buffer_bounds)

theorem integer_decode_bounds_witness:
  "decode_int_buffer U8 [255, 1, 7] = Some (255, 2) \<and> ity_range U8 255 \<and>
   decode_int_buffer U8 [255, 2, 7] = None"
proof -
  have d: "decode_int_buffer U8 [255, 1, 7] = Some (255, 2)" by code_simp
  moreover have "decode_int_buffer U8 [255, 2, 7] = None" by code_simp
  ultimately show ?thesis using integer_decode_bounds [OF d] by blast
qed

text \<open>C20: Decoding the encoding of a decimal coefficient, which has 64 low and 49 high bits, gives the coefficient back and leaves
  the bytes that follow.\<close>

theorem coefficient_codec_roundtrip:
  assumes "unat v1 < 2 ^ 49"
  shows "decode_bid buffer_read_char (encode_bid v0 v1 @ rest) = Some ((v0, v1), rest)"
  using assms by (rule decode_encode_bid [OF _ delivers_buffer])

theorem coefficient_codec_roundtrip_witness:
  "decode_bid buffer_read_char (encode_bid 5 3 @ [9]) = Some ((5, 3), [9])"
  using coefficient_codec_roundtrip [of 3 5 "[9]"] by simp

subsection \<open>Changesets\<close>

text \<open>C22: Stable insertion at an iterator puts the instructions before the one the iterator points to, in their order, and does
  not change the number of entries, so iterators to other entries stay valid: an iteration over the changeset visits the old
  instructions up to the iterator, the new ones, and the rest.\<close>

theorem insert_stable_visits:
  assumes "fst it < length (cs_instructions cs)" "snd it \<le> entry_size (cs_instructions cs ! fst it)"
  shows "\<exists>cs'. insert_stable it is cs = Inr cs' \<and> length (cs_instructions cs') = length (cs_instructions cs) \<and>
    cs_visit cs' (0, 0) = rbind (cs_visit cs (0, 0)) (\<lambda>old. Inr (take (it_pos cs it) old @ is @ drop (it_pos cs it) old))"
proof -
  obtain cs' where "insert_stable it is cs = Inr cs'"
    "cs_instrs cs' = take (it_pos cs it) (cs_instrs cs) @ is @ drop (it_pos cs it) (cs_instrs cs)"
    using insert_stable_instrs [OF assms, of "is"] by blast
  moreover from this(1) have "length (cs_instructions cs') = length (cs_instructions cs)"
    by (auto simp: insert_stable_def result_simps)
  ultimately show ?thesis by (auto simp: cs_visit_all)
qed

theorem insert_stable_visits_witness:
  "\<exists>cs'. insert_stable (0, 1) [EraseTable 7] (cs_empty\<lparr>cs_instructions := [Vector [EraseTable 1, EraseTable 2], One (EraseTable 3)]\<rparr>) = Inr cs' \<and>
     cs_visit cs' (0, 0) = Inr [EraseTable 1, EraseTable 7, EraseTable 2, EraseTable 3]"
  using insert_stable_visits [of "(0, 1)" "cs_empty\<lparr>cs_instructions := [Vector [EraseTable 1, EraseTable 2], One (EraseTable 3)]\<rparr>" "[EraseTable 7]"]
  by (auto simp: cs_visit_all cs_instrs_def it_pos_def)

text \<open>C23: Stable erasure at an iterator removes exactly the instruction the iterator points to and leaves a tombstone when it was
  the last one of its entry: the number of entries does not change, and an iteration visits the other instructions in their
  order.\<close>

theorem erase_stable_visits:
  assumes "fst it < length (cs_instructions cs)" "snd it < entry_size (cs_instructions cs ! fst it)"
  shows "\<exists>it' cs'. erase_stable it cs = Inr (it', cs') \<and> length (cs_instructions cs') = length (cs_instructions cs) \<and>
    cs_visit cs' (0, 0) = rbind (cs_visit cs (0, 0)) (\<lambda>old. Inr (take (it_pos cs it) old @ drop (Suc (it_pos cs it)) old))"
  using erase_stable_instrs [OF assms] by (auto simp: cs_visit_all)

theorem erase_stable_visits_witness:
  "\<exists>it' cs'. erase_stable (0, 0) (cs_empty\<lparr>cs_instructions := [One (EraseTable 1), One (EraseTable 2)]\<rparr>) = Inr (it', cs') \<and>
     cs_visit cs' (0, 0) = Inr [EraseTable 2]"
  using erase_stable_visits [of "(0, 0)" "cs_empty\<lparr>cs_instructions := [One (EraseTable 1), One (EraseTable 2)]\<rparr>"]
  by (auto simp: cs_visit_all cs_instrs_def it_pos_def)

text \<open>C21: Interning a string succeeds while the limits of 32 bits are not reached. The index it returns names the string, the
  strings interned before keep their indices, no string is stored twice, and interning the string again returns the same index
  and changes nothing.\<close>

theorem intern_string_found:
  assumes "cs_wf cs" "distinct (cs_string_list cs)" "length (cs_string_buffer cs) + length s < 2 ^ 32 - 1"
    "length (cs_strings cs) < 2 ^ 32 - 1"
  shows "\<exists>k cs' new. cs_intern_string s cs = Inr (k, cs') \<and> cs_wf cs' \<and> distinct (cs_string_list cs') \<and>
    cs_string_list cs' = cs_string_list cs @ new \<and> cs_instructions cs' = cs_instructions cs \<and>
    get_string_interned k cs' = Inr s \<and> cs_intern_string s cs' = Inr (k, cs')"
  using assms by (rule cs_intern_string_correct)

theorem intern_string_found_witness:
  "\<exists>k cs' new. cs_intern_string [65, 66] cs_empty = Inr (k, cs') \<and> cs_string_list cs' = cs_string_list cs_empty @ new \<and>
     get_string_interned k cs' = Inr [65, 66] \<and> cs_intern_string [65, 66] cs' = Inr (k, cs')"
proof -
  have "cs_wf cs_empty" "distinct (cs_string_list cs_empty)" "length (cs_string_buffer cs_empty) + length [65, 66 :: u8] < 2 ^ 32 - 1"
    "length (cs_strings cs_empty) < 2 ^ 32 - 1"
    by (simp_all add: cs_empty_def cs_wf_def cs_string_list_def)
  from intern_string_found [OF this] show ?thesis by blast
qed

end
