(* ===== verification/Changeset_Encoder.thy ===== *)
theory Changeset_Encoder
  imports Changeset
begin

text \<open>
  The encoder of changesets (\<open>sync/changeset_encoder.cpp\<close>). Every \<^verbatim>\<open>append_value\<close> is a function on the encoder that adds
  bytes to its buffer or fails an assertion; \<open>en_seq\<close> is the sequence of calls that the variadic \<^verbatim>\<open>append\<close> makes. The
  string range of the encoder is the text that the ranges in the instructions point into.

  The last part shows that all the encoding functions emit a fixed list of bytes that does not depend on the buffer.
\<close>

record encoder =
  en_buffer :: "u8 list"
  en_intern_strings_rev :: "(u8 list \<times> nat) list"
  en_string_range :: "u8 list"

type_synonym enc = "encoder \<Rightarrow> encoder result"

definition encoder_new :: encoder where
  "encoder_new = \<lparr>en_buffer = [], en_intern_strings_rev = [], en_string_range = []\<rparr>"

fun en_seq :: "enc list \<Rightarrow> enc" where
  "en_seq [] e = Inr e"
| "en_seq (f # fs) e = rbind (f e) (en_seq fs)"

definition en_assert :: "bool \<Rightarrow> enc" where
  "en_assert b e = rbind (rassert b) (\<lambda>_. Inr e)"

subsection \<open>Values\<close>

definition append_bytes :: "u8 list \<Rightarrow> enc" where
  "append_bytes bs e = Inr (e\<lparr>en_buffer := en_buffer e @ bs\<rparr>)"

definition append_int :: "ity \<Rightarrow> int \<Rightarrow> enc" where
  "append_int T v = append_bytes (encode_int T v)"

definition append_u64 :: "nat \<Rightarrow> enc" where
  "append_u64 v = append_int U64 (int v)"

definition append_i64 :: "int \<Rightarrow> enc" where
  "append_i64 v = append_int I64 v"

definition append_u32 :: "nat \<Rightarrow> enc" where
  "append_u32 v = append_u64 v"

definition append_u8 :: "nat \<Rightarrow> enc" where
  "append_u8 v = append_u64 v"

definition append_bool :: "bool \<Rightarrow> enc" where
  "append_bool b = append_u8 (if b then 1 else 0)"

definition append_payload_type :: "payload_type \<Rightarrow> enc" where
  "append_payload_type t = append_i64 (payload_type_code t)"

definition append_collection_type :: "collection_type \<Rightarrow> enc" where
  "append_collection_type t = append_u8 (nat (collection_type_code t))"

definition append_intern_string :: "intern_string \<Rightarrow> enc" where
  "append_intern_string s = en_seq [en_assert (s \<noteq> intern_npos), append_u32 s]"

definition append_global_key :: "nat \<Rightarrow> nat \<Rightarrow> enc" where
  "append_global_key hi lo = en_seq [append_u64 hi, append_u64 lo]"

definition append_timestamp :: "int \<Rightarrow> int \<Rightarrow> enc" where
  "append_timestamp seconds nanoseconds = en_seq [append_i64 seconds, append_i64 nanoseconds]"

definition append_object_id :: "u8 list \<Rightarrow> enc" where
  "append_object_id bs = append_bytes bs"

definition append_uuid :: "u8 list \<Rightarrow> enc" where
  "append_uuid bs = append_bytes bs"

definition append_float :: "u8 list \<Rightarrow> enc" where
  "append_float bs = append_bytes bs"

definition append_double :: "u8 list \<Rightarrow> enc" where
  "append_double bs = append_bytes bs"

text \<open>The parts of a decimal number: the coefficient, the exponent and the sign (\<open>decimal128.cpp\<close>).\<close>

definition MASK_COEFF :: u64 where
  "MASK_COEFF = push_bit 49 1 - 1"

definition MASK_EXP :: u64 where
  "MASK_EXP = push_bit 49 (push_bit 14 1 - 1)"

definition MASK_SIGN :: u64 where
  "MASK_SIGN = push_bit (49 + 14) 1"

definition decimal_unpack :: "u64 \<Rightarrow> u64 \<Rightarrow> (u64 \<times> u64) \<times> int \<times> bool" where
  "decimal_unpack w0 w1 =
     (let sign = (w1 AND MASK_SIGN \<noteq> 0);
          exp = drop_bit 49 (w1 AND MASK_EXP)
      in ((w0, w1 AND MASK_COEFF), int (unat exp) - 6176, sign))"

definition append_decimal :: "u64 \<Rightarrow> u64 \<Rightarrow> enc" where
  "append_decimal w0 w1 =
     (let ((c0, c1), exp, sign) = decimal_unpack w0 w1;
          bytes = encode_bid c0 c1
      in en_seq [en_assert (length bytes \<le> 17), append_bytes bytes, append_i64 exp, append_bool sign])"

definition append_string_range :: "string_range \<Rightarrow> enc" where
  "append_string_range r e =
     rbind (rassert ((sr_offset r + sr_size r) mod 2 ^ 32 \<le> length (en_string_range e))) (\<lambda>_.
       en_seq [append_u64 (sr_size r), append_bytes (take (sr_size r) (drop (sr_offset r) (en_string_range e)))] e)"

fun append_primary_key :: "primary_key \<Rightarrow> enc" where
  "append_primary_key PK_Null = append_payload_type PT_Null"
| "append_primary_key (PK_Int v) = en_seq [append_payload_type PT_Int, append_i64 v]"
| "append_primary_key (PK_String s) = en_seq [append_payload_type PT_String, append_intern_string s]"
| "append_primary_key (PK_GlobalKey hi lo) = en_seq [append_payload_type PT_GlobalKey, append_global_key hi lo]"
| "append_primary_key (PK_ObjectId bs) = en_seq [append_payload_type PT_ObjectId, append_object_id bs]"
| "append_primary_key (PK_UUID bs) = en_seq [append_payload_type PT_UUID, append_uuid bs]"

definition append_link :: "intern_string \<Rightarrow> primary_key \<Rightarrow> enc" where
  "append_link target_table target = en_seq [append_intern_string target_table, append_primary_key target]"

fun append_payload_data :: "string_range payload \<Rightarrow> enc" where
  "append_payload_data (P_GlobalKey hi lo) = append_global_key hi lo"
| "append_payload_data (P_Int v) = append_i64 v"
| "append_payload_data (P_Bool b) = append_bool b"
| "append_payload_data (P_String r) = append_string_range r"
| "append_payload_data (P_Binary r) = append_string_range r"
| "append_payload_data (P_Timestamp seconds nanoseconds) = append_timestamp seconds nanoseconds"
| "append_payload_data (P_Float bs) = append_float bs"
| "append_payload_data (P_Double bs) = append_double bs"
| "append_payload_data (P_Decimal w0 w1) = append_decimal w0 w1"
| "append_payload_data (P_ObjectId bs) = append_object_id bs"
| "append_payload_data (P_UUID bs) = append_uuid bs"
| "append_payload_data (P_Link t k) = append_link t k"
| "append_payload_data _ = en_seq []"

definition append_payload :: "string_range payload \<Rightarrow> enc" where
  "append_payload p = en_seq [append_payload_type (payload_kind p), append_payload_data p]"

fun append_path_elem :: "path_elem \<Rightarrow> enc" where
  "append_path_elem (PE_Index i) = append_i64 (int i)"
| "append_path_elem (PE_Name s) = en_seq [append_i64 (-1), append_intern_string s]"

definition append_path :: "path_elem list \<Rightarrow> enc" where
  "append_path path = en_seq [append_u32 (length path mod 2 ^ 32), en_seq (map append_path_elem path)]"

subsection \<open>Instructions\<close>

definition append_instr :: "instr_type \<Rightarrow> enc list \<Rightarrow> enc" where
  "append_instr t args = en_seq (append_u8 (instr_type_code t) # args)"

definition append_path_instr :: "instr_type \<Rightarrow> path_instr \<Rightarrow> enc list \<Rightarrow> enc" where
  "append_path_instr t i args =
     en_seq ([append_u8 (instr_type_code t), append_intern_string (pi_table i), append_primary_key (pi_object i),
       append_intern_string (pi_field i), append_path (pi_path i)] @ args)"

text \<open>The numbers of the kinds of tables (\<^verbatim>\<open>Table::Type\<close>).\<close>

datatype table_type = TopLevel | Embedded | TopLevelAsymmetric

fun table_type_code :: "table_type \<Rightarrow> nat" where
  "table_type_code TopLevel = 0"
| "table_type_code Embedded = 1"
| "table_type_code TopLevelAsymmetric = 2"

definition encode_AddTable :: "intern_string \<Rightarrow> table_spec \<Rightarrow> enc" where
  "encode_AddTable table spec =
     (case spec of
        TopLevelTable pk_field pk_type pk_nullable is_asymmetric \<Rightarrow>
          en_seq [append_instr T_AddTable [append_intern_string table,
              append_u8 (table_type_code (if is_asymmetric then TopLevelAsymmetric else TopLevel))],
            append_intern_string pk_field, append_payload_type pk_type, append_bool pk_nullable]
      | EmbeddedTable \<Rightarrow> append_instr T_AddTable [append_intern_string table, append_u8 (table_type_code Embedded)])"

definition encode_EraseTable :: "intern_string \<Rightarrow> enc" where
  "encode_EraseTable table = append_instr T_EraseTable [append_intern_string table]"

definition encode_CreateObject :: "intern_string \<Rightarrow> primary_key \<Rightarrow> enc" where
  "encode_CreateObject table object = append_instr T_CreateObject [append_intern_string table, append_primary_key object]"

definition encode_EraseObject :: "intern_string \<Rightarrow> primary_key \<Rightarrow> enc" where
  "encode_EraseObject table object = append_instr T_EraseObject [append_intern_string table, append_primary_key object]"

definition encode_Update :: "path_instr \<Rightarrow> string_range payload \<Rightarrow> nat \<Rightarrow> enc" where
  "encode_Update i v u =
     (if is_array_index (pi_path i) then append_path_instr T_Update i [append_payload v, append_u32 u]
      else append_path_instr T_Update i [append_payload v, append_bool (u \<noteq> 0)])"

definition encode_AddInteger :: "path_instr \<Rightarrow> int \<Rightarrow> enc" where
  "encode_AddInteger i v = append_path_instr T_AddInteger i [append_i64 v]"

definition encode_AddColumn ::
  "intern_string \<Rightarrow> intern_string \<Rightarrow> payload_type \<Rightarrow> payload_type \<Rightarrow> bool \<Rightarrow> collection_type \<Rightarrow> intern_string \<Rightarrow> enc" where
  "encode_AddColumn table field type key_type nullable collection_type link_target_table =
     (let is_dictionary = (collection_type = CT_Dictionary)
      in en_seq [en_assert (type \<noteq> PT_Null \<or> nullable \<or> is_dictionary),
           append_instr T_AddColumn [append_intern_string table, append_intern_string field, append_payload_type type,
             append_bool nullable, append_collection_type collection_type],
           if type = PT_Link then append_intern_string link_target_table else en_seq [],
           if is_dictionary then append_payload_type key_type else en_seq []])"

definition encode_EraseColumn :: "intern_string \<Rightarrow> intern_string \<Rightarrow> enc" where
  "encode_EraseColumn table field = append_instr T_EraseColumn [append_intern_string table, append_intern_string field]"

definition encode_ArrayInsert :: "path_instr \<Rightarrow> string_range payload \<Rightarrow> nat \<Rightarrow> enc" where
  "encode_ArrayInsert i v prior_size = append_path_instr T_ArrayInsert i [append_payload v, append_u32 prior_size]"

definition encode_ArrayMove :: "path_instr \<Rightarrow> nat \<Rightarrow> nat \<Rightarrow> enc" where
  "encode_ArrayMove i ndx_2 prior_size = append_path_instr T_ArrayMove i [append_u32 ndx_2, append_u32 prior_size]"

definition encode_ArrayErase :: "path_instr \<Rightarrow> nat \<Rightarrow> enc" where
  "encode_ArrayErase i prior_size = append_path_instr T_ArrayErase i [append_u32 prior_size]"

definition encode_Clear :: "path_instr \<Rightarrow> collection_type \<Rightarrow> enc" where
  "encode_Clear i t = append_path_instr T_Clear i [append_collection_type t]"

definition encode_SetInsert :: "path_instr \<Rightarrow> string_range payload \<Rightarrow> enc" where
  "encode_SetInsert i v = append_path_instr T_SetInsert i [append_payload v]"

definition encode_SetErase :: "path_instr \<Rightarrow> string_range payload \<Rightarrow> enc" where
  "encode_SetErase i v = append_path_instr T_SetErase i [append_payload v]"

fun encode :: "instr \<Rightarrow> enc" where
  "encode (AddTable table spec) = encode_AddTable table spec"
| "encode (EraseTable table) = encode_EraseTable table"
| "encode (CreateObject table object) = encode_CreateObject table object"
| "encode (EraseObject table object) = encode_EraseObject table object"
| "encode (Update i v u) = encode_Update i v u"
| "encode (AddInteger i v) = encode_AddInteger i v"
| "encode (AddColumn table field type key_type nullable ct link) = encode_AddColumn table field type key_type nullable ct link"
| "encode (EraseColumn table field) = encode_EraseColumn table field"
| "encode (ArrayInsert i v prior_size) = encode_ArrayInsert i v prior_size"
| "encode (ArrayMove i ndx_2 prior_size) = encode_ArrayMove i ndx_2 prior_size"
| "encode (ArrayErase i prior_size) = encode_ArrayErase i prior_size"
| "encode (Clear i t) = encode_Clear i t"
| "encode (SetInsert i v) = encode_SetInsert i v"
| "encode (SetErase i v) = encode_SetErase i v"

subsection \<open>Strings and changesets\<close>

definition add_string_range :: "u8 list \<Rightarrow> encoder \<Rightarrow> (string_range \<times> encoder) result" where
  "add_string_range data e =
     rbind (rassert (length data \<le> 2 ^ 32 - 1)) (\<lambda>_.
       Inr (\<lparr>sr_offset = 0, sr_size = length data\<rparr>, e\<lparr>en_string_range := data\<rparr>))"

definition set_intern_string :: "nat \<Rightarrow> string_range \<Rightarrow> enc" where
  "set_intern_string index r =
     en_seq [append_int U64 InstrTypeInternString, append_int U32 (int index), append_string_range r]"

definition en_intern_string :: "u8 list \<Rightarrow> encoder \<Rightarrow> (intern_string \<times> encoder) result" where
  "en_intern_string s e =
     (case map_of (en_intern_strings_rev e) s of
        Some index \<Rightarrow> Inr (index, e)
      | None \<Rightarrow>
          let index = length (en_intern_strings_rev e)
          in rbind (rassert (index \<le> 2 ^ 32 - 1)) (\<lambda>_.
             rbind (add_string_range s (e\<lparr>en_intern_strings_rev := (s, index) # en_intern_strings_rev e\<rparr>)) (\<lambda>(r, e').
             rbind (set_intern_string index r e') (\<lambda>e''. Inr (index, e'')))))"

fun set_intern_strings :: "nat \<Rightarrow> string_range list \<Rightarrow> enc" where
  "set_intern_strings i [] e = Inr e"
| "set_intern_strings i (r # rs) e = rbind (set_intern_string (i mod 2 ^ 32) r e) (set_intern_strings (Suc i) rs)"

definition encode_single :: "changeset \<Rightarrow> enc" where
  "encode_single log e =
     (if \<not> cs_is_empty log
      then rbind (add_string_range (cs_string_buffer log) e) (\<lambda>(_, e1).
           rbind (set_intern_strings 0 (cs_strings log) e1) (\<lambda>e2.
           rbind (cs_visit log (0, 0)) (\<lambda>is. en_seq (map encode is) e2)))
      else Inr e)"

definition en_release :: "encoder \<Rightarrow> u8 list \<times> encoder" where
  "en_release e = (en_buffer e, e\<lparr>en_intern_strings_rev := [], en_buffer := []\<rparr>)"

definition en_reset :: "encoder \<Rightarrow> encoder" where
  "en_reset e = e\<lparr>en_intern_strings_rev := [], en_buffer := []\<rparr>"

definition encode_changeset :: "changeset \<Rightarrow> u8 list \<Rightarrow> u8 list result" where
  "encode_changeset log out_buffer =
     rbind (encode_single log (encoder_new\<lparr>en_buffer := out_buffer\<rparr>)) (\<lambda>e. Inr (en_buffer e))"

subsection \<open>Emitted bytes\<close>

definition emits :: "u8 list \<Rightarrow> enc \<Rightarrow> u8 list \<Rightarrow> bool" where
  "emits S f bs \<longleftrightarrow> (\<forall>e. en_string_range e = S \<longrightarrow> f e = Inr (e\<lparr>en_buffer := en_buffer e @ bs\<rparr>))"

named_theorems emits_intros

lemma emits_bytes [emits_intros]: "emits S (append_bytes bs) bs"
  by (simp add: emits_def append_bytes_def)

lemma emits_nil: "emits S (en_seq []) []"
  by (simp add: emits_def)

lemma emits_cons: "emits S f bs \<Longrightarrow> emits S (en_seq fs) cs \<Longrightarrow> emits S (en_seq (f # fs)) (bs @ cs)"
  by (simp add: emits_def)

lemma emits_single: "emits S f bs \<Longrightarrow> emits S (en_seq [f]) bs"
  using emits_cons [OF _ emits_nil, of S f bs] by simp

end
