(* ===== verification/Spec2Isabelle.thy ===== *)
theory Spec2Isabelle
  imports Array_Slab Index_Set_Props Changeset_Props Changeset_Encoder
begin

text \<open>
  A verification development of the storage core of BarqDB.
\<close>

end
